(* ===== verification/Go_Prelude.thy ===== *)
theory Go_Prelude
  imports Main "HOL-Library.Word"
begin

text \<open>
  Shared vocabulary of the development: how Go values appear in HOL, the error values of the
  service, and the generic lemmas the component theories build on.

  \<^item> Go strings are byte strings, so they are \<open>string\<close> (lists of 8-bit characters).
  \<^item> A \<open>[]byte\<close> that the code compares with \<open>nil\<close> is \<open>bytes option\<close>; \<open>None\<close> is \<open>nil\<close>.
  \<^item> \<open>uint64\<close> is \<open>64 word\<close>; \<open>int\<close>, \<open>int64\<close> and \<open>time.Duration\<close> are \<open>int\<close> with the
    two's-complement wrap-around written out (\<open>int64_wrap\<close>) where the code can overflow.
  \<^item> An \<open>error\<close> result is \<open>go_error option\<close> (\<open>None\<close> is \<open>nil\<close>); a \<open>(T, error)\<close> result is
    \<open>go_error + T\<close>.
  \<^item> A call that acts on the outside world (database, broker, cache, clock) takes the world
    \<open>'w\<close> and returns it, \<open>'w \<Rightarrow> (result) \<times> 'w\<close>.
\<close>

type_synonym byte = "8 word"
type_synonym bytes = "byte list"
type_synonym duration = int

text \<open>The case splits of a call: its result and the world it returns.\<close>

lemmas result_splits = prod.splits option.splits sum.splits

section \<open>Errors\<close>

text \<open>
  \<open>Sentinel\<close> is a package-level error variable compared by identity (\<open>io.EOF\<close>,
  \<open>context.Canceled\<close>, \<open>pgx.ErrNoRows\<close>), \<open>ErrorsNew\<close> an \<open>errors.New\<close> made on the spot,
  \<open>Errorf\<close> a \<open>fmt.Errorf\<close> kept symbolic (format, printed arguments, the \<open>%w\<close> operand) and
  \<open>Foreign\<close> an error value produced by a library. \<open>Joined\<close> is \<open>errors.Join\<close>.
\<close>

datatype go_error =
    Sentinel string
  | ErrorsNew string
  | Errorf string "string list" "go_error option"
  | Foreign string
  | Joined "go_error list"

abbreviation ContextCanceled :: go_error where
  "ContextCanceled \<equiv> Sentinel ''context canceled''"

abbreviation IoEOF :: go_error where
  "IoEOF \<equiv> Sentinel ''EOF''"

abbreviation PgxErrNoRows :: go_error where
  "PgxErrNoRows \<equiv> Sentinel ''no rows in result set''"

text \<open>\<open>errors.Is\<close>: the error itself, or anything it wraps, is the target.\<close>

fun errors_Is :: "go_error \<Rightarrow> go_error \<Rightarrow> bool" where
  "errors_Is (Errorf f as (Some e)) t \<longleftrightarrow> Errorf f as (Some e) = t \<or> errors_Is e t"
| "errors_Is (Joined es) t \<longleftrightarrow> Joined es = t \<or> (\<exists>e \<in> set es. errors_Is e t)"
| "errors_Is e t \<longleftrightarrow> e = t"

lemma errors_Is_refl [simp]: "errors_Is e e"
  by (cases "(e, e)" rule: errors_Is.cases) auto

lemma errors_Is_wrap: "errors_Is e t \<Longrightarrow> errors_Is (Errorf f as (Some e)) t"
  by simp

section \<open>Calls on the outside world\<close>

type_synonym ('w, 'a) call = "'w \<Rightarrow> (go_error + 'a) \<times> 'w"
type_synonym 'w action = "'w \<Rightarrow> go_error option \<times> 'w"

section \<open>Machine integers\<close>

definition int64_wrap :: "int \<Rightarrow> int" where
  "int64_wrap n = (n + 2 ^ 63) mod 2 ^ 64 - 2 ^ 63"

lemma int64_wrap_id: "- (2 ^ 63) \<le> n \<Longrightarrow> n < 2 ^ 63 \<Longrightarrow> int64_wrap n = n"
  by (simp add: int64_wrap_def)

lemma int64_wrap_range: "- (2 ^ 63) \<le> int64_wrap n \<and> int64_wrap n < 2 ^ 63"
proof -
  have "0 \<le> (n + 2 ^ 63) mod 2 ^ 64" and "(n + 2 ^ 63) mod 2 ^ 64 < 2 ^ 64" by simp_all
  then show ?thesis by (simp add: int64_wrap_def)
qed

text \<open>A word that is not the largest one: its successor is the successor of its value.\<close>

lemma unat_Suc_word:
  fixes w :: "64 word"
  assumes "unat w < 2 ^ 64 - 1"
  shows "unat (w + 1) = Suc (unat w)"
proof -
  have "unat (w + 1) = (unat w + 1) mod 2 ^ 64"
    by (simp add: unat_word_ariths)
  with assms show ?thesis by simp
qed

lemma unat_inject: "unat (a :: 'a::len word) = unat b \<Longrightarrow> a = b"
  by (simp add: word_unat_eq_iff)

section \<open>Printing\<close>

definition digit_char :: "nat \<Rightarrow> char" where
  "digit_char d = ''0123456789'' ! (d mod 10)"

fun itoa :: "nat \<Rightarrow> string" where
  "itoa n = (if n < 10 then [digit_char n] else itoa (n div 10) @ [digit_char (n mod 10)])"

declare itoa.simps [simp del]

section \<open>Maps and lists\<close>

lemma map_upd_Some_iff: "(m(k \<mapsto> v)) x = Some y \<longleftrightarrow> (x = k \<and> v = y) \<or> (x \<noteq> k \<and> m x = Some y)"
  by auto

lemma card_dom_delete:
  fixes m :: "'k::finite \<rightharpoonup> 'v"
  assumes "m k = Some v"
  shows "card (dom (m(k := None))) < card (dom m)"
proof -
  have "k \<in> dom m" using assms by blast
  then have "dom (m(k := None)) \<subset> dom m" by auto
  then show ?thesis by (rule psubset_card_mono [OF finite])
qed

lemma in_set_takeD_nth: "x \<in> set (take n xs) \<Longrightarrow> \<exists>i < n. i < length xs \<and> xs ! i = x"
  by (auto simp: in_set_conv_nth)

lemma map_upds_nth:
  assumes "distinct ks" "length ks = length vs" "i < length ks"
  shows "(m(ks [\<mapsto>] vs)) (ks ! i) = Some (vs ! i)"
  using assms
proof (induction ks arbitrary: vs i m)
  case (Cons k ks)
  then obtain v us where vs: "vs = v # us" by (cases vs) auto
  show ?case
  proof (cases i)
    case 0
    then show ?thesis using Cons.prems vs by simp
  next
    case (Suc j)
    then have "ks ! j \<noteq> k" using Cons.prems vs by (auto dest: nth_mem)
    then show ?thesis using Suc Cons vs by simp
  qed
qed simp

end
