(* ===== verification/Committer.thy ===== *)
theory Committer
  imports Go_Prelude
begin

text \<open>
  The replay committer (\<open>src/internal/replay/committer.go\<close>): per topic a low-water mark over the
  sequence numbers of finished events, and the periodic write of the mark's replay ID.
\<close>

section \<open>State\<close>

text \<open>\<open>tc_next\<close>, \<open>tc_done\<close>, \<open>tc_replayID\<close>, \<open>tc_dirty\<close> are the fields of \<open>topicCursor\<close>.\<close>

record topicCursor =
  tc_next :: "64 word"
  tc_done :: "64 word \<rightharpoonup> bytes option"
  tc_replayID :: "bytes option"
  tc_dirty :: bool

text \<open>
  \<open>c_topics\<close> is the field \<open>topics\<close> of \<open>Committer\<close>; the two counters are the series
  \<open>replay_cursor_commits_total\<close> with the labels \<open>ok\<close> and \<open>error\<close>.
\<close>

record committer =
  c_topics :: "string \<rightharpoonup> topicCursor"
  c_commits_ok :: nat
  c_commits_error :: nat

definition newTopicCursor :: topicCursor where
  "newTopicCursor = \<lparr>tc_next = 1, tc_done = Map.empty, tc_replayID = None, tc_dirty = False\<rparr>"

definition NewCommitter :: committer where
  "NewCommitter = \<lparr>c_topics = Map.empty, c_commits_ok = 0, c_commits_error = 0\<rparr>"

section \<open>Operations\<close>

text \<open>The loop of \<open>Done\<close>: move \<open>next\<close> over every completed position above the gap.\<close>

function advance :: "topicCursor \<Rightarrow> topicCursor" where
  "advance t =
     (case tc_done t (tc_next t) of
        None \<Rightarrow> t
      | Some rid \<Rightarrow>
          advance (t\<lparr>tc_done := (tc_done t)(tc_next t := None),
                     tc_next := tc_next t + 1,
                     tc_replayID := rid,
                     tc_dirty := True\<rparr>))"
  by pat_completeness auto
termination
  by (relation "measure (\<lambda>t. card (dom (tc_done t)))") (auto simp: card_dom_delete simp del: dom_fun_upd)

declare advance.simps [simp del]

definition done_cursor :: "64 word \<Rightarrow> bytes option \<Rightarrow> topicCursor \<Rightarrow> topicCursor" where
  "done_cursor sq rid t =
     (if sq < tc_next t then t else advance (t\<lparr>tc_done := (tc_done t)(sq \<mapsto> rid)\<rparr>))"

definition Done :: "string \<Rightarrow> 64 word \<Rightarrow> bytes option \<Rightarrow> committer \<Rightarrow> committer" where
  "Done topic sq rid c =
     (let t = (case c_topics c topic of None \<Rightarrow> newTopicCursor | Some t \<Rightarrow> t)
      in c\<lparr>c_topics := (c_topics c)(topic \<mapsto> done_cursor sq rid t)\<rparr>)"

text \<open>
  \<open>snapshot\<close> returns the map of dirty cursors and clears their flags. A value of that map is the
  cursor's \<open>replayID\<close>, which may be \<open>nil\<close>.
\<close>

definition snapshot :: "committer \<Rightarrow> (string \<rightharpoonup> bytes option) \<times> committer" where
  "snapshot c =
     ((\<lambda>topic. case c_topics c topic of
                 None \<Rightarrow> None
               | Some t \<Rightarrow> if tc_dirty t then Some (tc_replayID t) else None),
      c\<lparr>c_topics := (\<lambda>topic. map_option (\<lambda>t. t\<lparr>tc_dirty := False\<rparr>) (c_topics c topic))\<rparr>)"

text \<open>\<open>markDirty\<close> dereferences the map entry: a missing topic would panic, here \<open>None\<close>.\<close>

definition markDirty :: "string \<Rightarrow> committer \<Rightarrow> committer option" where
  "markDirty topic c =
     (case c_topics c topic of
        None \<Rightarrow> None
      | Some t \<Rightarrow> Some (c\<lparr>c_topics := (c_topics c)(topic \<mapsto> t\<lparr>tc_dirty := True\<rparr>)\<rparr>))"

text \<open>
  One iteration of the loop of \<open>Flush\<close>: save one cursor, on an error count it, re-queue the topic
  and remember the first error.
\<close>

definition flush_one ::
  "(string \<Rightarrow> bytes option \<Rightarrow> 'w action) \<Rightarrow> string \<Rightarrow> bytes option \<Rightarrow>
   committer \<times> 'w \<times> go_error option \<Rightarrow> (committer \<times> 'w \<times> go_error option) option"
where
  "flush_one saveReplay topic rid = (\<lambda>(c, w, firstErr).
     (case saveReplay topic rid w of
        (Some err, w') \<Rightarrow>
          (case markDirty topic (c\<lparr>c_commits_error := c_commits_error c + 1\<rparr>) of
             None \<Rightarrow> None
           | Some c' \<Rightarrow> Some (c', w', if firstErr = None then Some err else firstErr))
      | (None, w') \<Rightarrow> Some (c\<lparr>c_commits_ok := c_commits_ok c + 1\<rparr>, w', firstErr)))"

text \<open>
  Go ranges over a map in an unspecified order: \<open>order\<close> is the order this run takes, any list that
  enumerates the keys of the snapshot.
\<close>

fun flush_loop ::
  "(string \<Rightarrow> bytes option \<Rightarrow> 'w action) \<Rightarrow> (string \<rightharpoonup> bytes option) \<Rightarrow> string list \<Rightarrow>
   committer \<times> 'w \<times> go_error option \<Rightarrow> (committer \<times> 'w \<times> go_error option) option"
where
  "flush_loop saveReplay pending [] s = Some s"
| "flush_loop saveReplay pending (topic # order) s =
     (case pending topic of
        None \<Rightarrow> flush_loop saveReplay pending order s
      | Some rid \<Rightarrow>
          (case flush_one saveReplay topic rid s of
             None \<Rightarrow> None
           | Some s' \<Rightarrow> flush_loop saveReplay pending order s'))"

definition Flush ::
  "(string \<Rightarrow> bytes option \<Rightarrow> 'w action) \<Rightarrow> string list \<Rightarrow> committer \<Rightarrow> 'w \<Rightarrow>
   (committer \<times> 'w \<times> go_error option) option"
where
  "Flush saveReplay order c w =
     (let (pending, c') = snapshot c in flush_loop saveReplay pending order (c', w, None))"

text \<open>
  \<open>Run\<close>: one element per iteration of the \<open>select\<close>, either a tick (with the order its \<open>Flush\<close>
  takes) or the cancellation that ends the loop. A failed flush is only logged.
\<close>

datatype run_event = Tick "string list" | CtxDone

fun Run ::
  "(string \<Rightarrow> bytes option \<Rightarrow> 'w action) \<Rightarrow> run_event list \<Rightarrow> committer \<Rightarrow> 'w \<Rightarrow> (committer \<times> 'w) option"
where
  "Run saveReplay [] c w = Some (c, w)"
| "Run saveReplay (CtxDone # _) c w = Some (c, w)"
| "Run saveReplay (Tick order # es) c w =
     (case Flush saveReplay order c w of
        None \<Rightarrow> None
      | Some (c', w', _) \<Rightarrow> Run saveReplay es c' w')"

section \<open>The abstract specification: a low-water mark over a completion history\<close>

text \<open>
  The history of a topic maps each finished position to the replay ID it was reported with. The
  mark is the least position from 1 that is not finished; the cursor it allows is the replay ID
  of the position just below it.
\<close>

type_synonym history = "nat \<rightharpoonup> bytes option"

definition low_water :: "nat set \<Rightarrow> nat" where
  "low_water S = (LEAST n. 0 < n \<and> n \<notin> S)"

definition spec_cursor :: "history \<Rightarrow> bytes option" where
  "spec_cursor H = (if low_water (dom H) = 1 then None else the (H (low_water (dom H) - 1)))"

text \<open>
  Positions stay below the largest \<open>uint64\<close>: reaching it takes more than \<open>10^19\<close> events in one
  process.
\<close>

definition valid_seq :: "nat \<Rightarrow> bool" where
  "valid_seq n \<longleftrightarrow> 0 < n \<and> n < 2 ^ 64 - 1"

definition valid_history :: "history \<Rightarrow> bool" where
  "valid_history H \<longleftrightarrow> (\<forall>n \<in> dom H. valid_seq n)"

text \<open>
  How a \<open>topicCursor\<close> represents a history. \<open>repr_pre\<close> is the state inside \<open>Done\<close>, while the loop
  may still have work to do; \<open>cursor_repr\<close> adds that the loop has stopped at a gap.
\<close>

definition repr_pre :: "history \<Rightarrow> topicCursor \<Rightarrow> bool" where
  "repr_pre H t \<longleftrightarrow>
     valid_history H \<and> 0 < unat (tc_next t) \<and>
     (\<forall>k. 0 < k \<longrightarrow> k < unat (tc_next t) \<longrightarrow> k \<in> dom H) \<and>
     (\<forall>w. tc_done t w = (if unat (tc_next t) \<le> unat w then H (unat w) else None)) \<and>
     tc_replayID t = (if unat (tc_next t) = 1 then None else the (H (unat (tc_next t) - 1)))"

definition cursor_repr :: "history \<Rightarrow> topicCursor \<Rightarrow> bool" where
  "cursor_repr H t \<longleftrightarrow> repr_pre H t \<and> H (unat (tc_next t)) = None"

lemma low_water_eqI:
  assumes "0 < n" "n \<notin> S" "\<forall>k. 0 < k \<longrightarrow> k < n \<longrightarrow> k \<in> S"
  shows "low_water S = n"
  unfolding low_water_def
proof (rule Least_equality)
  show "0 < n \<and> n \<notin> S" using assms by simp
next
  fix m assume "0 < m \<and> m \<notin> S"
  then show "n \<le> m" using assms(3) by (meson leI)
qed

lemma cursor_repr_next:
  assumes "cursor_repr H t"
  shows "unat (tc_next t) = low_water (dom H)"
  using assms by (auto simp: cursor_repr_def repr_pre_def intro!: low_water_eqI [symmetric])

lemma cursor_repr_replayID:
  assumes "cursor_repr H t"
  shows "tc_replayID t = spec_cursor H"
proof -
  have "unat (tc_next t) = low_water (dom H)" using assms by (rule cursor_repr_next)
  then show ?thesis using assms by (simp add: cursor_repr_def repr_pre_def spec_cursor_def)
qed

lemma repr_pre_step:
  assumes R: "repr_pre H t" and hit: "tc_done t (tc_next t) = Some rid"
  shows "repr_pre H (t\<lparr>tc_done := (tc_done t)(tc_next t := None), tc_next := tc_next t + 1,
                       tc_replayID := rid, tc_dirty := d\<rparr>)"
proof -
  let ?n = "unat (tc_next t)"
  have H: "H ?n = Some rid" using R hit by (simp add: repr_pre_def)
  then have "valid_seq ?n" using R by (auto simp: repr_pre_def valid_history_def)
  then have S: "unat (tc_next t + 1) = Suc ?n"
    by (intro unat_Suc_word) (simp add: valid_seq_def)
  have "k \<in> dom H" if "0 < k" "k < Suc ?n" for k
    using that H R by (cases "k = ?n") (auto simp: repr_pre_def)
  moreover have "((tc_done t)(tc_next t := None)) w = (if Suc ?n \<le> unat w then H (unat w) else None)" for w
    using R by (auto simp: repr_pre_def le_less Suc_le_eq dest: unat_inject)
  ultimately show ?thesis using R H S by (simp add: repr_pre_def)
qed

lemma advance_repr: "repr_pre H t \<Longrightarrow> cursor_repr H (advance t)"
proof (induction t rule: advance.induct)
  case (1 t)
  show ?case
  proof (cases "tc_done t (tc_next t)")
    case None
    then show ?thesis using "1.prems" by (subst advance.simps) (simp add: cursor_repr_def repr_pre_def)
  next
    case (Some rid)
    then show ?thesis
      using "1.IH" [OF Some] repr_pre_step [OF "1.prems" Some] by (subst advance.simps) simp
  qed
qed

lemma repr_pre_done:
  assumes R: "repr_pre H t" and "valid_seq (unat sq)" and ge: "tc_next t \<le> sq"
  shows "repr_pre (H(unat sq \<mapsto> rid)) (t\<lparr>tc_done := (tc_done t)(sq \<mapsto> rid)\<rparr>)"
  using assms by (auto simp: repr_pre_def valid_history_def word_le_nat_alt dest: unat_inject)

lemma cursor_repr_new: "cursor_repr Map.empty newTopicCursor"
  by (simp add: cursor_repr_def repr_pre_def newTopicCursor_def valid_history_def)

text \<open>\<open>Done\<close> on one topic refines adding the position to the history.\<close>

lemma done_cursor_repr:
  assumes R: "cursor_repr H t" and V: "valid_seq (unat sq)"
    and U: "H (unat sq) = None \<or> H (unat sq) = Some rid"
  shows "cursor_repr (H(unat sq \<mapsto> rid)) (done_cursor sq rid t)"
proof (cases "sq < tc_next t")
  case True
  then have "unat sq \<in> dom H"
    using R V by (auto simp: cursor_repr_def repr_pre_def valid_seq_def word_less_nat_alt)
  with U have "H(unat sq \<mapsto> rid) = H" by (auto simp: fun_upd_idem)
  with R True show ?thesis by (simp add: done_cursor_def)
next
  case False
  have "repr_pre (H(unat sq \<mapsto> rid)) (t\<lparr>tc_done := (tc_done t)(sq \<mapsto> rid)\<rparr>)"
    using R V False by (intro repr_pre_done) (auto simp: cursor_repr_def)
  with False show ?thesis by (simp add: done_cursor_def advance_repr)
qed

section \<open>The whole committer\<close>

definition cursor_of :: "committer \<Rightarrow> string \<Rightarrow> topicCursor" where
  "cursor_of c topic = (case c_topics c topic of None \<Rightarrow> newTopicCursor | Some t \<Rightarrow> t)"

definition committer_repr :: "(string \<Rightarrow> history) \<Rightarrow> committer \<Rightarrow> bool" where
  "committer_repr Hs c \<longleftrightarrow> (\<forall>topic. cursor_repr (Hs topic) (cursor_of c topic))"

lemma committer_repr_new: "committer_repr (\<lambda>_. Map.empty) NewCommitter"
  by (simp add: committer_repr_def cursor_of_def NewCommitter_def cursor_repr_new)

lemma cursor_repr_dirty [simp]: "cursor_repr H (t\<lparr>tc_dirty := d\<rparr>) = cursor_repr H t"
  by (simp add: cursor_repr_def repr_pre_def)

lemma cursor_of_Done:
  "cursor_of (Done topic sq rid c) =
     (cursor_of c)(topic := done_cursor sq rid (cursor_of c topic))"
  by (auto simp: cursor_of_def Done_def Let_def fun_eq_iff)

lemma Done_repr:
  assumes R: "committer_repr Hs c" and V: "valid_seq (unat sq)"
    and U: "Hs topic (unat sq) = None \<or> Hs topic (unat sq) = Some rid"
  shows "committer_repr (Hs(topic := (Hs topic)(unat sq \<mapsto> rid))) (Done topic sq rid c)"
proof -
  have "cursor_repr ((Hs topic)(unat sq \<mapsto> rid)) (done_cursor sq rid (cursor_of c topic))"
    using R V U by (intro done_cursor_repr) (simp_all add: committer_repr_def)
  with R show ?thesis by (simp add: committer_repr_def cursor_of_Done)
qed

lemma cursor_of_snapshot: "cursor_of (snd (snapshot c)) topic = (cursor_of c topic)\<lparr>tc_dirty := False\<rparr>"
  by (simp add: cursor_of_def snapshot_def newTopicCursor_def split: option.split)

lemma cursor_of_markDirty:
  "markDirty topic c = Some c' \<Longrightarrow>
     cursor_of c' = (cursor_of c)(topic := (cursor_of c topic)\<lparr>tc_dirty := True\<rparr>)"
  by (auto simp: cursor_of_def markDirty_def fun_eq_iff split: option.splits)

lemma cursor_of_counters [simp]:
  "cursor_of (c\<lparr>c_commits_ok := n\<rparr>) = cursor_of c"
  "cursor_of (c\<lparr>c_commits_error := n\<rparr>) = cursor_of c"
  by (simp_all add: cursor_of_def fun_eq_iff)

lemma snapshot_repr: "committer_repr Hs c \<Longrightarrow> committer_repr Hs (snd (snapshot c))"
  by (simp add: committer_repr_def cursor_of_snapshot)

lemma markDirty_repr: "committer_repr Hs c \<Longrightarrow> markDirty topic c = Some c' \<Longrightarrow> committer_repr Hs c'"
  by (simp add: committer_repr_def cursor_of_markDirty)

lemma committer_repr_counters [simp]:
  "committer_repr Hs (c\<lparr>c_commits_ok := n\<rparr>) = committer_repr Hs c"
  "committer_repr Hs (c\<lparr>c_commits_error := n\<rparr>) = committer_repr Hs c"
  by (simp_all add: committer_repr_def)

text \<open>A run of completions, as the workers report them, and the histories it builds.\<close>

type_synonym completion = "string \<times> 64 word \<times> bytes option"

fun done_all :: "completion list \<Rightarrow> committer \<Rightarrow> committer" where
  "done_all [] c = c"
| "done_all ((topic, sq, rid) # xs) c = done_all xs (Done topic sq rid c)"

definition comp_key :: "completion \<Rightarrow> string \<times> 64 word" where
  "comp_key x = (fst x, fst (snd x))"

definition comp_entry :: "completion \<Rightarrow> nat \<times> bytes option" where
  "comp_entry x = (unat (fst (snd x)), snd (snd x))"

lemma comp_simps [simp]:
  "comp_key (topic, sq, rid) = (topic, sq)" "comp_entry (topic, sq, rid) = (unat sq, rid)"
  by (simp_all add: comp_key_def comp_entry_def)

definition history_of :: "completion list \<Rightarrow> string \<Rightarrow> history" where
  "history_of xs topic = map_of (map comp_entry (filter (\<lambda>x. fst x = topic) xs))"

text \<open>
  The contract in the comment of \<open>Done\<close>: positions are unique per topic and start at 1.
\<close>

definition valid_completions :: "completion list \<Rightarrow> bool" where
  "valid_completions xs \<longleftrightarrow>
     distinct (map comp_key xs) \<and> (\<forall>x \<in> set xs. valid_seq (unat (fst (snd x))))"

lemma history_of_Cons:
  "history_of ((topic, sq, rid) # xs) =
     (history_of xs)(topic := (history_of xs topic)(unat sq \<mapsto> rid))"
  by (auto simp: history_of_def fun_eq_iff)

lemma comp_key_eqD:
  "fst y = fst x \<Longrightarrow> fst (comp_entry y) = fst (comp_entry x) \<Longrightarrow> comp_key y = comp_key x"
  by (auto simp: comp_key_def comp_entry_def dest: unat_inject)

lemma history_of_fresh:
  assumes "comp_key x \<notin> comp_key ` set xs"
  shows "history_of xs (fst x) (fst (comp_entry x)) = None"
proof -
  have "fst (comp_entry y) \<noteq> fst (comp_entry x)" if "y \<in> set xs" "fst y = fst x" for y
    using that assms comp_key_eqD by (metis imageI)
  then show ?thesis by (fastforce simp: history_of_def map_of_eq_None_iff)
qed

lemma done_all_snoc: "done_all (xs @ [(topic, sq, rid)]) c = Done topic sq rid (done_all xs c)"
  by (induction xs c rule: done_all.induct) auto

lemma history_distinct:
  assumes "distinct (map comp_key xs)"
  shows "distinct (map fst (map comp_entry (filter (\<lambda>x. fst x = topic) xs)))"
  using assms
proof (induction xs)
  case Nil
  then show ?case by simp
next
  case (Cons x xs)
  have "fst (comp_entry y) \<noteq> fst (comp_entry x)" if "y \<in> set xs" "fst y = fst x" for y
    using that Cons.prems comp_key_eqD by (metis distinct.simps(2) imageI list.set_map list.simps(9))
  then show ?case using Cons by fastforce
qed

lemma history_of_set:
  assumes "valid_completions xs" "valid_completions ys" "set xs = set ys"
  shows "history_of xs = history_of ys"
proof
  fix topic
  let ?f = "\<lambda>xs. map comp_entry (filter (\<lambda>x. fst x = topic) xs)"
  have "map_of (?f xs) = map_of (?f ys) \<longleftrightarrow> set (?f xs) = set (?f ys)"
    using assms by (intro map_of_inject_set history_distinct) (auto simp: valid_completions_def)
  then show "history_of xs topic = history_of ys topic"
    using assms(3) by (simp add: history_of_def)
qed

lemma done_all_repr:
  assumes "valid_completions xs"
  shows "committer_repr (history_of xs) (done_all xs NewCommitter)"
  using assms
proof (induction xs rule: rev_induct)
  case Nil
  show ?case using committer_repr_new by (simp add: history_of_def [abs_def])
next
  case (snoc y xs)
  obtain topic sq rid where y: "y = (topic, sq, rid)" by (cases y)
  have V: "valid_completions xs" and S: "valid_seq (unat sq)" and F: "comp_key y \<notin> comp_key ` set xs"
    and V': "valid_completions (y # xs)"
    using snoc.prems y by (auto simp: valid_completions_def)
  have "history_of (xs @ [y]) = history_of (y # xs)"
    using snoc.prems V' by (intro history_of_set) auto
  then have H: "history_of (xs @ [y]) = (history_of xs)(topic := (history_of xs topic)(unat sq \<mapsto> rid))"
    by (simp only: y history_of_Cons)
  have "history_of xs topic (unat sq) = None"
    using history_of_fresh [OF F] y by simp
  then show ?case
    unfolding H unfolding y done_all_snoc by (intro Done_repr snoc.IH V S disjI1)
qed

section \<open>Flushing\<close>

text \<open>When \<open>Done\<close> moves a cursor it marks it dirty; otherwise it leaves mark and flag alone.\<close>

lemma advance_stuck: "tc_done t (tc_next t) = None \<Longrightarrow> advance t = t"
  by (subst advance.simps) simp

lemma advance_keeps_dirty: "tc_dirty t \<Longrightarrow> tc_dirty (advance t)"
proof (induction t rule: advance.induct)
  case (1 t)
  then show ?case by (subst advance.simps) (simp split: option.split)
qed

lemma advance_moves_dirty: "tc_done t (tc_next t) = Some rid \<Longrightarrow> tc_dirty (advance t)"
  by (subst advance.simps) (simp add: advance_keeps_dirty)

lemma done_cursor_dirty:
  "tc_dirty (done_cursor sq rid t) \<or>
   (tc_replayID (done_cursor sq rid t) = tc_replayID t \<and> tc_next (done_cursor sq rid t) = tc_next t
      \<and> \<not> tc_dirty t)"
  by (cases "sq = tc_next t"; cases "tc_done t (tc_next t)")
     (auto simp: done_cursor_def advance_stuck advance_keeps_dirty dest: advance_moves_dirty
           intro: advance_moves_dirty)

text \<open>A longer history never moves the mark back, and only a moved mark turns a cursor dirty.\<close>

lemma cursor_repr_mono:
  assumes "cursor_repr H t" "cursor_repr H' t'" "dom H \<subseteq> dom H'"
  shows "unat (tc_next t) \<le> unat (tc_next t')"
proof (rule ccontr)
  assume "\<not> ?thesis"
  then have "unat (tc_next t') \<in> dom H" using assms(1,2) by (simp add: cursor_repr_def repr_pre_def)
  then show False using assms(2,3) by (auto simp: cursor_repr_def)
qed

lemma done_cursor_dirtyD:
  assumes R: "cursor_repr H t" and V: "valid_seq (unat sq)"
    and U: "H (unat sq) = None \<or> H (unat sq) = Some rid"
    and D: "tc_dirty (done_cursor sq rid t)" "\<not> tc_dirty t"
  shows "unat (tc_next t) < unat (tc_next (done_cursor sq rid t))"
proof -
  let ?H = "H(unat sq \<mapsto> rid)"
  have R': "cursor_repr ?H (done_cursor sq rid t)" by (rule done_cursor_repr [OF R V U])
  have "sq = tc_next t \<or> tc_done t (tc_next t) \<noteq> None"
  proof (rule ccontr)
    assume "\<not> ?thesis"
    then have "advance (t\<lparr>tc_done := (tc_done t)(sq \<mapsto> rid)\<rparr>) = t\<lparr>tc_done := (tc_done t)(sq \<mapsto> rid)\<rparr>"
      by (intro advance_stuck) auto
    with D show False by (simp add: done_cursor_def split: if_splits)
  qed
  then have "?H (unat (tc_next t)) \<noteq> None" using R by (auto simp: cursor_repr_def repr_pre_def)
  moreover have "?H (unat (tc_next (done_cursor sq rid t))) = None" using R' by (simp add: cursor_repr_def)
  ultimately have "unat (tc_next t) \<noteq> unat (tc_next (done_cursor sq rid t))" by metis
  moreover have "unat (tc_next t) \<le> unat (tc_next (done_cursor sq rid t))"
    by (rule cursor_repr_mono [OF R R']) auto
  ultimately show ?thesis by simp
qed

text \<open>
  The interface \<open>CursorStore\<close>: what the committer relies on. A save that reports success has
  replaced the topic's cursor; a save that reports an error has done so or has done nothing.
\<close>

text \<open>Every sequence of completions and flushes, in any order the goroutines take.\<close>

inductive committer_run ::
  "(string \<Rightarrow> bytes option \<Rightarrow> 'w action) \<Rightarrow> 'w \<Rightarrow> committer \<Rightarrow> 'w \<Rightarrow> bool"
  for saveReplay w0
where
  created: "committer_run saveReplay w0 NewCommitter w0"
| completed: "committer_run saveReplay w0 c w \<Longrightarrow> committer_run saveReplay w0 (Done topic sq rid c) w"
| flushed: "committer_run saveReplay w0 c w \<Longrightarrow> distinct order \<Longrightarrow> set order = dom (fst (snapshot c)) \<Longrightarrow>
    Flush saveReplay order c w = Some (c', w', fe) \<Longrightarrow> committer_run saveReplay w0 c' w'"

locale cursor_store =
  fixes saveReplay :: "string \<Rightarrow> bytes option \<Rightarrow> 'w action"
    and stored :: "'w \<Rightarrow> string \<Rightarrow> bytes option"
  assumes save_ok: "saveReplay topic rid w = (None, w') \<Longrightarrow> stored w' = (stored w)(topic := rid)"
    and save_err: "saveReplay topic rid w = (Some e, w') \<Longrightarrow>
      stored w' = stored w \<or> stored w' = (stored w)(topic := rid)"
begin

lemma flush_one_cases:
  assumes "flush_one saveReplay topic rid (c, w, fe) = Some (c', w', fe')"
  obtains (ok) "stored w' = (stored w)(topic := rid)" "cursor_of c' = cursor_of c" "fe' = fe"
  | (err) "stored w' = stored w \<or> stored w' = (stored w)(topic := rid)"
      "cursor_of c' = (cursor_of c)(topic := (cursor_of c topic)\<lparr>tc_dirty := True\<rparr>)" "fe' \<noteq> None"
proof (cases "saveReplay topic rid w")
  case (Pair r w1)
  show ?thesis
  proof (cases r)
    case None
    then show ?thesis
      using assms Pair save_ok [of topic rid w w1] by (intro ok) (auto simp: flush_one_def)
  next
    case (Some e)
    then obtain c1 where "markDirty topic (c\<lparr>c_commits_error := c_commits_error c + 1\<rparr>) = Some c1"
      and "c' = c1" "w' = w1" "fe' \<noteq> None"
      using assms Pair by (auto simp: flush_one_def split: option.splits if_splits)
    then show ?thesis
      using Some Pair save_err [of topic rid w e w1] by (intro err) (auto simp: cursor_of_markDirty)
  qed
qed

text \<open>What a flush leaves behind for one topic: untouched, saved, or re-queued.\<close>

lemma flush_loop_topic:
  assumes "flush_loop saveReplay pending order (c, w, fe) = Some (c', w', fe')" "distinct order"
  shows "(fe \<noteq> None \<longrightarrow> fe' \<noteq> None) \<and>
    (if topic \<in> set order \<and> pending topic \<noteq> None then
       (stored w' topic = the (pending topic) \<and> cursor_of c' topic = cursor_of c topic) \<or>
       (stored w' topic \<in> {stored w topic, the (pending topic)} \<and> fe' \<noteq> None \<and>
        cursor_of c' topic = (cursor_of c topic)\<lparr>tc_dirty := True\<rparr>)
     else stored w' topic = stored w topic \<and> cursor_of c' topic = cursor_of c topic)"
  using assms
proof (induction order arbitrary: c w fe)
  case Nil
  then show ?case by simp
next
  case (Cons x order)
  show ?case
  proof (cases "pending x")
    case None
    then show ?thesis using Cons.IH [of c w fe] Cons.prems by auto
  next
    case (Some rid)
    then obtain c1 w1 fe1 where one: "flush_one saveReplay x rid (c, w, fe) = Some (c1, w1, fe1)"
      and rest: "flush_loop saveReplay pending order (c1, w1, fe1) = Some (c', w', fe')"
      using Cons.prems(1) by (auto split: option.splits)
    note IH = Cons.IH [OF rest]
    from one show ?thesis
      by (cases rule: flush_one_cases) (use IH Some Cons.prems(2) in \<open>auto split: if_splits\<close>)
  qed
qed

text \<open>
  Every cursor that is not dirty is in the store. \<open>Done\<close> and \<open>Flush\<close> keep this, whatever the store
  does, so a failed write is never forgotten.
\<close>

definition synced :: "committer \<Rightarrow> 'w \<Rightarrow> bool" where
  "synced c w \<longleftrightarrow>
     (\<forall>topic. tc_dirty (cursor_of c topic) \<or> tc_next (cursor_of c topic) = 1 \<or>
        stored w topic = tc_replayID (cursor_of c topic))"

lemma synced_Done: "synced c w \<Longrightarrow> synced (Done topic sq rid c) w"
  unfolding synced_def cursor_of_Done using done_cursor_dirty [of sq rid "cursor_of c topic"] by fastforce

lemma Flush_topic:
  assumes F: "Flush saveReplay order c w = Some (c', w', fe')" and D: "distinct order"
    and E: "dom (fst (snapshot c)) \<subseteq> set order"
  shows "if tc_dirty (cursor_of c topic) then
      (stored w' topic = tc_replayID (cursor_of c topic) \<and>
       cursor_of c' topic = (cursor_of c topic)\<lparr>tc_dirty := False\<rparr>) \<or>
      (stored w' topic \<in> {stored w topic, tc_replayID (cursor_of c topic)} \<and> fe' \<noteq> None \<and>
       cursor_of c' topic = cursor_of c topic)
    else stored w' topic = stored w topic \<and> cursor_of c' topic = cursor_of c topic"
proof -
  let ?p = "fst (snapshot c)" and ?c = "snd (snapshot c)"
  have L: "flush_loop saveReplay ?p order (?c, w, None) = Some (c', w', fe')"
    using F by (simp add: Flush_def case_prod_beta)
  have P: "?p topic = (if tc_dirty (cursor_of c topic) then Some (tc_replayID (cursor_of c topic)) else None)"
    by (simp add: snapshot_def cursor_of_def newTopicCursor_def split: option.split)
  have "tc_dirty (cursor_of c topic) \<Longrightarrow> topic \<in> set order"
    using E P by auto
  then show ?thesis
    using flush_loop_topic [OF L D, of topic] P by (auto simp: cursor_of_snapshot)
qed

lemma synced_Flush:
  assumes "Flush saveReplay order c w = Some (c', w', fe')" "distinct order"
    "dom (fst (snapshot c)) \<subseteq> set order" "synced c w"
  shows "synced c' w'"
  unfolding synced_def
proof
  fix topic
  show "tc_dirty (cursor_of c' topic) \<or> tc_next (cursor_of c' topic) = 1 \<or>
      stored w' topic = tc_replayID (cursor_of c' topic)"
    using Flush_topic [OF assms(1-3), of topic] assms(4) unfolding synced_def
    by (auto split: if_splits dest: spec [of _ topic])
qed

lemma synced_run: "committer_run saveReplay w0 c w \<Longrightarrow> synced c w"
proof (induction rule: committer_run.induct)
  case created
  then show ?case by (simp add: synced_def cursor_of_def NewCommitter_def newTopicCursor_def)
next
  case (completed c w topic sq rid)
  then show ?case by (intro synced_Done)
next
  case (flushed c w order c' w' fe)
  then show ?case using synced_Flush [of order c w c' w' fe] by simp
qed

end

text \<open>\<open>Flush\<close> cannot panic: a re-queued topic is one the snapshot saw.\<close>

lemma flush_one_total:
  assumes "c_topics c topic \<noteq> None"
  shows "\<exists>c' w' fe'. flush_one saveReplay topic rid (c, w, fe) = Some (c', w', fe') \<and>
           dom (c_topics c') = dom (c_topics c)"
  using assms
  by (cases "saveReplay topic rid w"; cases "fst (saveReplay topic rid w)")
     (auto simp: flush_one_def markDirty_def)

lemma flush_loop_total:
  assumes "dom pending \<subseteq> dom (c_topics c)"
  shows "\<exists>c' w' fe'. flush_loop saveReplay pending order (c, w, fe) = Some (c', w', fe')"
  using assms
proof (induction order arbitrary: c w fe)
  case Nil
  then show ?case by simp
next
  case (Cons x order)
  show ?case
  proof (cases "pending x")
    case None
    then show ?thesis using Cons by simp
  next
    case (Some rid)
    then have "c_topics c x \<noteq> None" using Cons.prems by blast
    from flush_one_total [OF this] obtain c1 w1 fe1 where
      "flush_one saveReplay x rid (c, w, fe) = Some (c1, w1, fe1)" "dom (c_topics c1) = dom (c_topics c)"
      by metis
    then show ?thesis using Cons.IH [of c1 w1 fe1] Cons.prems Some by simp
  qed
qed

lemma snapshot_dom: "dom (fst (snapshot c)) \<subseteq> dom (c_topics (snd (snapshot c)))"
  by (auto simp: snapshot_def split: option.splits if_splits)

section \<open>Properties\<close>

text \<open>
  C3. After any sequence of completions with pairwise different positions, the committer's cursor
  of every topic is exactly the specification's: the mark is the least unfinished position and the
  replay ID is that of the position just below it (nil while position 1 is unfinished), so the
  committer never commits past an unfinished event and never lags behind a finished prefix.
\<close>

theorem done_refines_low_water:
  assumes "valid_completions xs"
  shows "unat (tc_next (cursor_of (done_all xs NewCommitter) topic)) = low_water (dom (history_of xs topic)) \<and>
    tc_replayID (cursor_of (done_all xs NewCommitter) topic) = spec_cursor (history_of xs topic)"
  using done_all_repr [OF assms] cursor_repr_next cursor_repr_replayID by (simp add: committer_repr_def)

theorem done_refines_low_water_witness:
  "let xs = [(''t'', 3, Some [3]), (''t'', 1, Some [1]), (''t'', 2, Some [2]), (''t'', 5, Some [5])]
   in valid_completions xs \<and>
      unat (tc_next (cursor_of (done_all xs NewCommitter) ''t'')) = low_water (dom (history_of xs ''t'')) \<and>
      tc_replayID (cursor_of (done_all xs NewCommitter) ''t'') = spec_cursor (history_of xs ''t'')"
proof -
  have "valid_completions [(''t'', 3, Some [3]), (''t'', 1, Some [1]), (''t'', 2, Some [2]), (''t'', 5, Some [5])]"
    by (simp add: valid_completions_def valid_seq_def)
  from done_refines_low_water [OF this, of "''t''"] this show ?thesis by (simp only: Let_def)
qed

text \<open>
  C4. The order in which workers finish events does not matter: two sequences of completions with
  the same elements leave every topic with the same mark and the same replay ID.
\<close>

theorem completion_order_irrelevant:
  assumes "valid_completions xs" "valid_completions ys" "set xs = set ys"
  shows "tc_next (cursor_of (done_all xs NewCommitter) topic) = tc_next (cursor_of (done_all ys NewCommitter) topic) \<and>
    tc_replayID (cursor_of (done_all xs NewCommitter) topic) = tc_replayID (cursor_of (done_all ys NewCommitter) topic)"
proof -
  have X: "cursor_repr (history_of xs topic) (cursor_of (done_all xs NewCommitter) topic)"
    and Y: "cursor_repr (history_of xs topic) (cursor_of (done_all ys NewCommitter) topic)"
    using done_all_repr [OF assms(1)] done_all_repr [OF assms(2)] history_of_set [OF assms]
    by (simp_all add: committer_repr_def)
  show ?thesis
    using cursor_repr_next [OF X] cursor_repr_next [OF Y] cursor_repr_replayID [OF X] cursor_repr_replayID [OF Y]
    by (metis unat_inject)
qed

theorem completion_order_irrelevant_witness:
  "tc_next (cursor_of (done_all [(''t'', 1, Some [1]), (''t'', 2, Some [2])] NewCommitter) ''t'') =
     tc_next (cursor_of (done_all [(''t'', 2, Some [2]), (''t'', 1, Some [1])] NewCommitter) ''t'') \<and>
   tc_replayID (cursor_of (done_all [(''t'', 1, Some [1]), (''t'', 2, Some [2])] NewCommitter) ''t'') =
     tc_replayID (cursor_of (done_all [(''t'', 2, Some [2]), (''t'', 1, Some [1])] NewCommitter) ''t'')"
  by (rule completion_order_irrelevant) (auto simp: valid_completions_def valid_seq_def)

text \<open>
  C30. \<open>Flush\<close> always returns, whatever order the map iteration takes and whatever the store does:
  \<open>markDirty\<close> never dereferences a missing topic.
\<close>

theorem flush_never_panics: "\<exists>c' w' firstErr. Flush saveReplay order c w = Some (c', w', firstErr)"
  using flush_loop_total [OF snapshot_dom] by (simp add: Flush_def case_prod_beta)

end
