(* ===== verification/Events.thy ===== *)
theory Events
  imports Go_Prelude
begin

text \<open>
  The messages of the Pub/Sub API the service reads and writes
  (\<open>src/proto/salesforce/pubsub_api.pb.go\<close>), with their nil-safe getters, and the two event
  types of the pipeline: \<open>RawEvent\<close> (\<open>src/internal/pubsub/subscriber.go\<close>) and \<open>DecodedEvent\<close>
  (\<open>src/internal/event/event.go\<close>). A pointer to a message is an \<open>option\<close>.
\<close>

section \<open>Wire messages\<close>

datatype ReplayPreset = LATEST | EARLIEST | CUSTOM

record ProducerEvent =
  pe_Id :: string
  pe_SchemaId :: string
  pe_Payload :: "bytes option"

record ConsumerEvent =
  ce_Event :: "ProducerEvent option"
  ce_ReplayId :: "bytes option"

record FetchRequest =
  fr_TopicName :: string
  fr_ReplayPreset :: ReplayPreset
  fr_ReplayId :: "bytes option"
  fr_NumRequested :: int

record FetchResponse =
  fp_Events :: "ConsumerEvent option list"
  fp_LatestReplayId :: "bytes option"
  fp_PendingNumRequested :: int

definition GetId :: "ProducerEvent option \<Rightarrow> string" where
  "GetId x = (case x of Some p \<Rightarrow> pe_Id p | None \<Rightarrow> [])"

definition GetSchemaId :: "ProducerEvent option \<Rightarrow> string" where
  "GetSchemaId x = (case x of Some p \<Rightarrow> pe_SchemaId p | None \<Rightarrow> [])"

definition GetPayload :: "ProducerEvent option \<Rightarrow> bytes option" where
  "GetPayload x = (case x of Some p \<Rightarrow> pe_Payload p | None \<Rightarrow> None)"

definition GetEvent :: "ConsumerEvent option \<Rightarrow> ProducerEvent option" where
  "GetEvent x = (case x of Some c \<Rightarrow> ce_Event c | None \<Rightarrow> None)"

definition GetReplayId :: "ConsumerEvent option \<Rightarrow> bytes option" where
  "GetReplayId x = (case x of Some c \<Rightarrow> ce_ReplayId c | None \<Rightarrow> None)"

definition GetEvents :: "FetchResponse option \<Rightarrow> ConsumerEvent option list" where
  "GetEvents x = (case x of Some r \<Rightarrow> fp_Events r | None \<Rightarrow> [])"

definition GetReplayPreset :: "FetchRequest option \<Rightarrow> ReplayPreset" where
  "GetReplayPreset x = (case x of Some r \<Rightarrow> fr_ReplayPreset r | None \<Rightarrow> LATEST)"

section \<open>Events in the pipeline\<close>

text \<open>Times are nanoseconds.\<close>

record RawEvent =
  re_Topic :: string
  re_Seq :: "64 word"
  re_Event :: "ConsumerEvent option"
  re_ReceivedAt :: int

text \<open>
  A decoded payload is a \<open>map[string]any\<close>: its entries, with distinct keys, in some iteration
  order. The values are those the Avro library produces, the type variable \<open>'v\<close>.
\<close>

type_synonym 'v payload = "(string \<times> 'v) list"

record 'v DecodedEvent =
  de_Topic :: string
  de_EventID :: string
  de_SchemaID :: string
  de_ReplayID :: "bytes option"
  de_Payload :: "'v payload"
  de_ReceivedAt :: int

abbreviation raw_id :: "RawEvent \<Rightarrow> string" where
  "raw_id r \<equiv> GetId (GetEvent (re_Event r))"

lemmas getter_defs = GetId_def GetSchemaId_def GetPayload_def GetEvent_def GetReplayId_def
  GetEvents_def GetReplayPreset_def

end
