(* ===== verification/Services.thy ===== *)
theory Services
  imports Events
begin

text \<open>
  The services outside the process: PostgreSQL (through pgx), Redis (through go-redis) and Kafka
  (through franz-go). Their client calls are parameters of the model; the locale \<open>services\<close>
  states the documented behaviour the code relies on, in terms of what the services hold.

  Every call may fail, and a failed call may or may not have taken effect on the server (a reply
  can be lost). The SQL statements themselves are translated from
  \<open>src/internal/storage/event_repo.go\<close>, \<open>src/internal/storage/replay_repo.go\<close> and the schema in
  \<open>src/migrations/000001_init.up.sql\<close>; the locale is interpreted on them, with an arbitrary
  script of faults.
\<close>

section \<open>What the services hold\<close>

text \<open>The parameters of the INSERT statement, in its order.\<close>

record event_args =
  ea_event_uuid :: string
  ea_topic :: string
  ea_schema_id :: string
  ea_replay_id :: "bytes option"
  ea_payload :: bytes
  ea_received_at :: int

text \<open>A row of \<open>processed_events\<close>.\<close>

record event_row =
  er_id :: int
  er_args :: event_args

record kafka_record =
  kr_Topic :: string
  kr_Key :: string
  kr_Value :: bytes
  kr_Headers :: "(string \<times> string) list"

record services_view =
  sv_rows :: "event_row list"
  sv_replay :: "string \<rightharpoonup> bytes"
  sv_keys :: "string set"
  sv_log :: "kafka_record list"

text \<open>
  One update of a Prometheus series: an addition to a counter, a sample of a histogram, a value
  of a gauge, with the label values.
\<close>

datatype metric =
    CounterAdd string "string list" nat
  | Observe string "string list"
  | GaugeSet string "string list" int

abbreviation Inc :: "string \<Rightarrow> string list \<Rightarrow> metric" where
  "Inc name labels \<equiv> CounterAdd name labels 1"

definition row_uuids :: "event_row list \<Rightarrow> string set" where
  "row_uuids rows = (\<lambda>r. ea_event_uuid (er_args r)) ` set rows"

lemma row_uuids_simps [simp]:
  "row_uuids [] = {}"
  "row_uuids (xs @ ys) = row_uuids xs \<union> row_uuids ys"
  "row_uuids (x # xs) = insert (ea_event_uuid (er_args x)) (row_uuids xs)"
  by (auto simp: row_uuids_def)

section \<open>The contract\<close>

locale services =
  fixes insert_event :: "event_args \<Rightarrow> ('w, int) call"
    and select_replay :: "string \<Rightarrow> ('w, bytes option) call"
    and upsert_replay :: "string \<Rightarrow> bytes option \<Rightarrow> 'w action"
    and exists_key :: "duration \<Rightarrow> string \<Rightarrow> ('w, int) call"
    and set_key :: "duration \<Rightarrow> string \<Rightarrow> duration \<Rightarrow> 'w action"
    and produce_sync :: "duration \<Rightarrow> kafka_record \<Rightarrow> 'w action"
    and meter :: "metric \<Rightarrow> 'w \<Rightarrow> 'w"
    and view :: "'w \<Rightarrow> services_view"
  assumes insert_ok: "insert_event a w = (Inr i, w') \<Longrightarrow>
      ea_event_uuid a \<notin> row_uuids (sv_rows (view w)) \<and>
      view w' = (view w)\<lparr>sv_rows := sv_rows (view w) @ [\<lparr>er_id = i, er_args = a\<rparr>]\<rparr>"
    and insert_conflict: "insert_event a w = (Inl e, w') \<Longrightarrow> errors_Is e PgxErrNoRows \<Longrightarrow>
      ea_event_uuid a \<in> row_uuids (sv_rows (view w)) \<and> view w' = view w"
    and insert_err: "insert_event a w = (Inl e, w') \<Longrightarrow> view w' = view w \<or>
      (ea_event_uuid a \<notin> row_uuids (sv_rows (view w)) \<and>
       (\<exists>i. view w' = (view w)\<lparr>sv_rows := sv_rows (view w) @ [\<lparr>er_id = i, er_args = a\<rparr>]\<rparr>))"
    and select_ok: "select_replay topic w = (Inr r, w') \<Longrightarrow>
      r \<noteq> None \<and> r = sv_replay (view w) topic \<and> view w' = view w"
    and select_err: "select_replay topic w = (Inl e, w') \<Longrightarrow>
      view w' = view w \<and> (errors_Is e PgxErrNoRows \<longrightarrow> sv_replay (view w) topic = None)"
    and upsert_ok: "upsert_replay topic rid w = (None, w') \<Longrightarrow>
      rid \<noteq> None \<and> view w' = (view w)\<lparr>sv_replay := (sv_replay (view w))(topic := rid)\<rparr>"
    and upsert_err: "upsert_replay topic rid w = (Some e, w') \<Longrightarrow>
      view w' = view w \<or> view w' = (view w)\<lparr>sv_replay := (sv_replay (view w))(topic := rid)\<rparr>"
    and exists_ok: "exists_key timeout k w = (Inr n, w') \<Longrightarrow>
      (0 < n \<longrightarrow> k \<in> sv_keys (view w)) \<and> view w' = view w"
    and exists_err: "exists_key timeout k w = (Inl e, w') \<Longrightarrow> view w' = view w"
    and set_ok: "set_key timeout k ttl w = (None, w') \<Longrightarrow>
      view w' = (view w)\<lparr>sv_keys := insert k (sv_keys (view w))\<rparr>"
    and set_err: "set_key timeout k ttl w = (Some e, w') \<Longrightarrow>
      view w' = view w \<or> view w' = (view w)\<lparr>sv_keys := insert k (sv_keys (view w))\<rparr>"
    and produce_ok: "produce_sync timeout rec w = (None, w') \<Longrightarrow>
      view w' = (view w)\<lparr>sv_log := sv_log (view w) @ [rec]\<rparr>"
    and produce_err: "produce_sync timeout rec w = (Some e, w') \<Longrightarrow>
      view w' = view w \<or> view w' = (view w)\<lparr>sv_log := sv_log (view w) @ [rec]\<rparr>"
    and meter_view: "view (meter m w) = view w"

section \<open>The SQL statements and a faulty environment\<close>

abbreviation NotNullViolation :: go_error where
  "NotNullViolation \<equiv> Foreign ''null value in column violates not-null constraint (SQLSTATE 23502)''"

text \<open>
  \<^verbatim>\<open>INSERT INTO processed_events ... ON CONFLICT (event_uuid) DO NOTHING RETURNING id\<close>: a NULL
  replay ID violates the column's constraint, a known UUID returns no row, a new one gets the
  given serial number.
\<close>

definition sql_insert_event :: "int \<Rightarrow> event_args \<Rightarrow> services_view \<Rightarrow> (go_error + int) \<times> services_view" where
  "sql_insert_event serial a v =
     (if ea_replay_id a = None then (Inl NotNullViolation, v)
      else if \<exists>r \<in> set (sv_rows v). ea_event_uuid (er_args r) = ea_event_uuid a then (Inl PgxErrNoRows, v)
      else (Inr serial, v\<lparr>sv_rows := sv_rows v @ [\<lparr>er_id = serial, er_args = a\<rparr>]\<rparr>))"

text \<open>\<^verbatim>\<open>SELECT replay_id FROM replay_state WHERE topic = $1\<close>\<close>

definition sql_select_replay :: "string \<Rightarrow> services_view \<Rightarrow> (go_error + bytes option) \<times> services_view" where
  "sql_select_replay topic v =
     (case sv_replay v topic of None \<Rightarrow> (Inl PgxErrNoRows, v) | Some r \<Rightarrow> (Inr (Some r), v))"

text \<open>
  \<^verbatim>\<open>INSERT INTO replay_state (topic, replay_id) ... ON CONFLICT (topic) DO UPDATE\<close>
\<close>

definition sql_upsert_replay :: "string \<Rightarrow> bytes option \<Rightarrow> services_view \<Rightarrow> go_error option \<times> services_view" where
  "sql_upsert_replay topic rid v =
     (case rid of
        None \<Rightarrow> (Some NotNullViolation, v)
      | Some r \<Rightarrow> (None, v\<lparr>sv_replay := (sv_replay v)(topic \<mapsto> r)\<rparr>))"

text \<open>
  The environment the theorems are exercised in: the services, the next serial number, and a
  script that decides for each call whether it works, fails on the way or loses its reply. Past
  its end every call works.
\<close>

datatype fault = Works | Fails | ReplyLost

record env =
  ev_view :: services_view
  ev_serial :: int
  ev_script :: "fault list"
  ev_metrics :: "metric list"

definition net_error :: go_error where
  "net_error = Foreign ''connection reset''"

definition next_fault :: "env \<Rightarrow> fault \<times> env" where
  "next_fault w = (case ev_script w of [] \<Rightarrow> (Works, w) | f # fs \<Rightarrow> (f, w\<lparr>ev_script := fs\<rparr>))"

definition env_call :: "(services_view \<Rightarrow> (go_error + 'a) \<times> services_view) \<Rightarrow> env \<Rightarrow> (go_error + 'a) \<times> env" where
  "env_call stmt w =
     (case next_fault w of
        (Works, w1) \<Rightarrow> (fst (stmt (ev_view w1)), w1\<lparr>ev_view := snd (stmt (ev_view w1))\<rparr>)
      | (Fails, w1) \<Rightarrow> (Inl net_error, w1)
      | (ReplyLost, w1) \<Rightarrow> (Inl net_error, w1\<lparr>ev_view := snd (stmt (ev_view w1))\<rparr>))"

definition env_act :: "(services_view \<Rightarrow> go_error option \<times> services_view) \<Rightarrow> env \<Rightarrow> go_error option \<times> env" where
  "env_act stmt w =
     (case next_fault w of
        (Works, w1) \<Rightarrow> (fst (stmt (ev_view w1)), w1\<lparr>ev_view := snd (stmt (ev_view w1))\<rparr>)
      | (Fails, w1) \<Rightarrow> (Some net_error, w1)
      | (ReplyLost, w1) \<Rightarrow> (Some net_error, w1\<lparr>ev_view := snd (stmt (ev_view w1))\<rparr>))"

definition env_insert_event :: "event_args \<Rightarrow> (env, int) call" where
  "env_insert_event a w = env_call (sql_insert_event (ev_serial w) a) (w\<lparr>ev_serial := ev_serial w + 1\<rparr>)"

definition env_select_replay :: "string \<Rightarrow> (env, bytes option) call" where
  "env_select_replay topic = env_call (sql_select_replay topic)"

definition env_upsert_replay :: "string \<Rightarrow> bytes option \<Rightarrow> env action" where
  "env_upsert_replay topic rid = env_act (sql_upsert_replay topic rid)"

definition env_exists_key :: "duration \<Rightarrow> string \<Rightarrow> (env, int) call" where
  "env_exists_key timeout k = env_call (\<lambda>v. (Inr (if k \<in> sv_keys v then 1 else 0), v))"

definition env_set_key :: "duration \<Rightarrow> string \<Rightarrow> duration \<Rightarrow> env action" where
  "env_set_key timeout k ttl = env_act (\<lambda>v. (None, v\<lparr>sv_keys := insert k (sv_keys v)\<rparr>))"

definition env_produce_sync :: "duration \<Rightarrow> kafka_record \<Rightarrow> env action" where
  "env_produce_sync timeout r = env_act (\<lambda>v. (None, v\<lparr>sv_log := sv_log v @ [r]\<rparr>))"

definition env_meter :: "metric \<Rightarrow> env \<Rightarrow> env" where
  "env_meter m w = w\<lparr>ev_metrics := ev_metrics w @ [m]\<rparr>"

lemmas env_defs = env_insert_event_def env_select_replay_def env_upsert_replay_def
  env_exists_key_def env_set_key_def env_produce_sync_def

lemmas sql_defs = sql_insert_event_def sql_select_replay_def sql_upsert_replay_def

lemma next_fault_view [simp]: "next_fault w = (f, w1) \<Longrightarrow> ev_view w1 = ev_view w"
  by (auto simp: next_fault_def split: list.splits)

lemma env_call_cases:
  assumes "env_call stmt w = (r, w')"
  obtains (works) "r = fst (stmt (ev_view w))" "ev_view w' = snd (stmt (ev_view w))"
  | (fails) "r = Inl net_error" "ev_view w' = ev_view w"
  | (lost) "r = Inl net_error" "ev_view w' = snd (stmt (ev_view w))"
proof (cases "next_fault w")
  case (Pair f w1)
  then show thesis using assms works fails lost by (cases f) (auto simp: env_call_def)
qed

lemma env_act_cases:
  assumes "env_act stmt w = (r, w')"
  obtains (works) "r = fst (stmt (ev_view w))" "ev_view w' = snd (stmt (ev_view w))"
  | (fails) "r = Some net_error" "ev_view w' = ev_view w"
  | (lost) "r = Some net_error" "ev_view w' = snd (stmt (ev_view w))"
proof (cases "next_fault w")
  case (Pair f w1)
  then show thesis using assms works fails lost by (cases f) (auto simp: env_act_def)
qed

lemma row_uuids_mem: "(\<exists>r \<in> set rows. ea_event_uuid (er_args r) = u) \<longleftrightarrow> u \<in> row_uuids rows"
  by (auto simp: row_uuids_def)

interpretation env: services env_insert_event env_select_replay env_upsert_replay env_exists_key
  env_set_key env_produce_sync env_meter ev_view
  by unfold_locales
     (unfold env_defs sql_defs row_uuids_mem,
      (erule env_call_cases env_act_cases; auto simp: net_error_def split: if_splits option.splits)+,
      simp add: env_meter_def)

end
