(* ===== verification/Base64.thy ===== *)
theory Base64
  imports Go_Prelude
begin

text \<open>
  \<open>base64.StdEncoding.EncodeToString\<close>, which \<open>ForwardHandler\<close> applies to the opaque replay ID
  (\<open>src/internal/handler/kafka.go\<close>), and the reference decoder that shows the encoding loses
  nothing.
\<close>

definition b64_alphabet :: string where
  "b64_alphabet = ''ABCDEFGHIJKLMNOPQRSTUVWXYZabcdefghijklmnopqrstuvwxyz0123456789+/''"

definition b64_char :: "nat \<Rightarrow> char" where
  "b64_char k = b64_alphabet ! (k mod 64)"

fun EncodeToString :: "bytes \<Rightarrow> string" where
  "EncodeToString [] = []"
| "EncodeToString [a] =
     (let n = unat a * 65536
      in [b64_char (n div 262144), b64_char (n div 4096), CHR ''='', CHR ''=''])"
| "EncodeToString [a, b] =
     (let n = unat a * 65536 + unat b * 256
      in [b64_char (n div 262144), b64_char (n div 4096), b64_char (n div 64), CHR ''=''])"
| "EncodeToString (a # b # c # bs) =
     (let n = unat a * 65536 + unat b * 256 + unat c
      in b64_char (n div 262144) # b64_char (n div 4096) # b64_char (n div 64) # b64_char n
           # EncodeToString bs)"

section \<open>The reference decoder\<close>

definition b64_value :: "char \<Rightarrow> nat option" where
  "b64_value c = map_of (zip b64_alphabet [0..<64]) c"

fun DecodeString :: "string \<Rightarrow> bytes option" where
  "DecodeString [] = Some []"
| "DecodeString (p # q # r # s # cs) =
     (case (b64_value p, b64_value q) of
        (Some i, Some j) \<Rightarrow>
          (if r = CHR ''='' then
             (if s = CHR ''='' \<and> cs = [] then Some [word_of_nat (i * 4 + j div 16)] else None)
           else (case b64_value r of
               None \<Rightarrow> None
             | Some k \<Rightarrow>
                 if s = CHR ''='' then
                   (if cs = [] then Some [word_of_nat (i * 4 + j div 16),
                                          word_of_nat (j mod 16 * 16 + k div 4)] else None)
                 else (case (b64_value s, DecodeString cs) of
                     (Some l, Some bs) \<Rightarrow>
                       Some (word_of_nat (i * 4 + j div 16) # word_of_nat (j mod 16 * 16 + k div 4)
                               # word_of_nat (k mod 4 * 64 + l) # bs)
                   | _ \<Rightarrow> None)))
      | _ \<Rightarrow> None)"
| "DecodeString _ = None"

lemma b64_alphabet_length [simp]: "length b64_alphabet = 64"
  by (simp add: b64_alphabet_def)

lemma b64_alphabet_distinct: "distinct b64_alphabet"
  by (simp add: b64_alphabet_def)

lemma b64_value_char [simp]: "b64_value (b64_char k) = Some (k mod 64)"
proof -
  have "map_of (zip b64_alphabet [0..<64]) (b64_alphabet ! (k mod 64)) = Some ([0..<64] ! (k mod 64))"
    by (rule map_of_zip_nth) (simp_all add: b64_alphabet_distinct)
  then show ?thesis by (simp add: b64_value_def b64_char_def)
qed

lemma b64_char_no_pad [simp]: "b64_char k \<noteq> CHR ''=''"
proof -
  have "b64_char k \<in> set b64_alphabet" by (simp add: b64_char_def)
  then show ?thesis by (auto simp: b64_alphabet_def)
qed

lemma unat_byte: "unat (a :: byte) < 256"
  using unsigned_less [of a, where ?'a = nat] by simp

text \<open>The four digits of a group, and the three bytes they give back.\<close>

lemma div_mod_digit:
  fixes q r m n :: nat
  assumes "n = q * m + r" "r < m"
  shows "n div m = q" "n mod m = r"
  using assms by auto

lemma group_digits:
  fixes a b c :: nat
  assumes "a < 256" "b < 256" "c < 256" and n: "n = a * 65536 + b * 256 + c"
  shows "n div 262144 mod 64 = a div 4"
    and "n div 4096 mod 64 = a mod 4 * 16 + b div 16"
    and "n div 64 mod 64 = b mod 16 * 4 + c div 64"
    and "n mod 64 = c mod 64"
proof -
  have "n div 262144 = a div 4" using assms by linarith
  then show "n div 262144 mod 64 = a div 4" using assms(1) by simp
  have "n div 4096 = a * 16 + b div 16" using assms by linarith
  also have "\<dots> = a div 4 * 64 + (a mod 4 * 16 + b div 16)"
    using div_mult_mod_eq [of a 4] by linarith
  finally have "n div 4096 = a div 4 * 64 + (a mod 4 * 16 + b div 16)" .
  moreover have "a mod 4 * 16 + b div 16 < 64" using assms(2) mod_less_divisor [of 4 a] by linarith
  ultimately show "n div 4096 mod 64 = a mod 4 * 16 + b div 16" by (rule div_mod_digit(2))
  have "n div 64 = (a * 1024 + b * 4) + c div 64" using assms by linarith
  also have "\<dots> = (a * 16 + b div 16) * 64 + (b mod 16 * 4 + c div 64)" by presburger
  finally have "n div 64 = (a * 16 + b div 16) * 64 + (b mod 16 * 4 + c div 64)" .
  moreover have "b mod 16 * 4 + c div 64 < 64" using assms(3) mod_less_divisor [of 16 b] by linarith
  ultimately show "n div 64 mod 64 = b mod 16 * 4 + c div 64" by (rule div_mod_digit(2))
  have "n = c + (a * 1024 + b * 4) * 64" using n by simp
  then show "n mod 64 = c mod 64" by (simp only: mod_mult_self1)
qed

lemma group_bytes:
  fixes a b c :: byte
  assumes n: "n = unat a * 65536 + unat b * 256 + unat c"
  shows "word_of_nat (n div 262144 mod 64 * 4 + n div 4096 mod 64 div 16) = a"
    and "word_of_nat (n div 4096 mod 64 mod 16 * 16 + n div 64 mod 64 div 4) = b"
    and "word_of_nat (n div 64 mod 64 mod 4 * 64 + n mod 64) = c"
proof -
  note d = group_digits [OF unat_byte unat_byte unat_byte n]
  have b: "unat b div 16 < 16" and c: "unat c div 64 < 4"
    using unat_byte [of b] unat_byte [of c] by auto
  have "n div 262144 mod 64 * 4 + n div 4096 mod 64 div 16 = unat a"
    unfolding d div_mod_digit(1) [OF refl b] by simp
  then show "word_of_nat (n div 262144 mod 64 * 4 + n div 4096 mod 64 div 16) = a" by simp
  have "n div 4096 mod 64 mod 16 * 16 + n div 64 mod 64 div 4 = unat b"
    unfolding d div_mod_digit(2) [OF refl b] div_mod_digit(1) [OF refl c] by simp
  then show "word_of_nat (n div 4096 mod 64 mod 16 * 16 + n div 64 mod 64 div 4) = b" by simp
  have "n div 64 mod 64 mod 4 * 64 + n mod 64 = unat c"
    unfolding d div_mod_digit(2) [OF refl c] by simp
  then show "word_of_nat (n div 64 mod 64 mod 4 * 64 + n mod 64) = c" by simp
qed

lemmas b64_run = EncodeToString.simps DecodeString.simps Let_def b64_value_char b64_char_no_pad
  option.case prod.case if_True if_False simp_thms

lemma DecodeString_EncodeToString: "DecodeString (EncodeToString bs) = Some bs"
proof (induction bs rule: EncodeToString.induct)
  case (2 a)
  show ?case using group_bytes(1) [of "unat a * 65536" a 0 0] by (simp only: b64_run) simp
next
  case (3 a b)
  show ?case
    using group_bytes(1,2) [of "unat a * 65536 + unat b * 256" a b 0] by (simp only: b64_run) simp
next
  case (4 a b c bs)
  then show ?case
    using group_bytes [of "unat a * 65536 + unat b * 256 + unat c" a b c] by (simp only: b64_run)
qed simp

section \<open>Properties\<close>

text \<open>
  The replay ID in a forwarded envelope loses nothing: decoding its base64 text gives back the
  bytes, for every length.
\<close>

lemma base64_round_trip: "DecodeString (EncodeToString bs) = Some bs"
  by (rule DecodeString_EncodeToString)

end
