(* ===== verification/Handlers.thy ===== *)
theory Handlers
  imports Events Base64
begin

text \<open>
  The handlers of \<open>src/internal/handler\<close>. Each takes a decoded event and the outside world and
  returns an error or \<open>nil\<close>; the interfaces they call (\<open>EventStore\<close>, \<open>SeenCache\<close>,
  \<open>RecordProducer\<close>, the wrapped \<open>Handler\<close>) are parameters, and the locales state what they may
  rely on.
\<close>

type_synonym ('v, 'w) handler = "'v DecodedEvent \<Rightarrow> 'w action"

section \<open>Persist\<close>

definition PersistHandler_Handle :: "('v DecodedEvent \<Rightarrow> ('w, bool) call) \<Rightarrow> ('v, 'w) handler" where
  "PersistHandler_Handle persistEvent e w =
     (case persistEvent e w of
        (Inl err, w') \<Rightarrow> (Some (Errorf ''persist event %q: %w'' [de_EventID e] (Some err)), w')
      | (Inr inserted, w') \<Rightarrow> (None, w'))"

section \<open>Forward\<close>

record 'v Envelope =
  env_EventID :: string
  env_Topic :: string
  env_SchemaID :: string
  env_ReplayID :: string
  env_ReceivedAt :: int
  env_Payload :: "'v payload"

text \<open>\<open>EncodeToString(nil)\<close> is the empty string, as for an empty slice.\<close>

definition envelope :: "'v DecodedEvent \<Rightarrow> 'v Envelope" where
  "envelope e = \<lparr>env_EventID = de_EventID e, env_Topic = de_Topic e, env_SchemaID = de_SchemaID e,
     env_ReplayID = EncodeToString (case de_ReplayID e of None \<Rightarrow> [] | Some b \<Rightarrow> b),
     env_ReceivedAt = de_ReceivedAt e, env_Payload = de_Payload e\<rparr>"

definition forward_headers :: "'v DecodedEvent \<Rightarrow> (string \<times> string) list" where
  "forward_headers e =
     [(''event_id'', de_EventID e), (''schema_id'', de_SchemaID e), (''sf_topic'', de_Topic e)]"

text \<open>\<open>marshal\<close> is \<open>json.Marshal\<close> on the envelope: it fails on a payload value JSON cannot hold.\<close>

definition ForwardHandler_Handle ::
  "('v Envelope \<Rightarrow> go_error + bytes) \<Rightarrow> (string \<Rightarrow> bytes \<Rightarrow> (string \<times> string) list \<Rightarrow> 'w action) \<Rightarrow>
   ('v, 'w) handler"
where
  "ForwardHandler_Handle marshal produce e w =
     (case marshal (envelope e) of
        Inl err \<Rightarrow> (Some (Errorf ''marshal envelope for %q: %w'' [de_EventID e] (Some err)), w)
      | Inr value \<Rightarrow>
          (case produce (de_Topic e) value (forward_headers e) w of
             (Some err, w') \<Rightarrow> (Some (Errorf ''forward event %q: %w'' [de_EventID e] (Some err)), w')
           | (None, w') \<Rightarrow> (None, w')))"

section \<open>Log\<close>

text \<open>The logged fields of an event, and the handler that only logs them.\<close>

definition LogHandler_Handle :: "'v DecodedEvent \<Rightarrow> (string \<times> string \<times> string \<times> nat) list action" where
  "LogHandler_Handle e entries =
     (None, entries @ [(de_Topic e, de_EventID e, de_SchemaID e, length (de_Payload e))])"

section \<open>Chain\<close>

fun chain_from :: "nat \<Rightarrow> ('v, 'w) handler list \<Rightarrow> ('v, 'w) handler" where
  "chain_from i [] e w = (None, w)"
| "chain_from i (h # hs) e w =
     (case h e w of
        (Some err, w') \<Rightarrow> (Some (Errorf ''chain step %d: %w'' [itoa i] (Some err)), w')
      | (None, w') \<Rightarrow> chain_from (Suc i) hs e w')"

definition Chain_Handle :: "('v, 'w) handler list \<Rightarrow> ('v, 'w) handler" where
  "Chain_Handle hs = chain_from 0 hs"

section \<open>Dedup\<close>

definition DedupHandler_Handle ::
  "(string \<Rightarrow> ('w, bool) call) \<Rightarrow> (string \<Rightarrow> 'w action) \<Rightarrow> ('v, 'w) handler \<Rightarrow> ('v, 'w) handler"
where
  "DedupHandler_Handle seen markSeen nxt e w =
     (case seen (de_EventID e) w of
        (Inr True, w1) \<Rightarrow> (None, w1)
      | (_, w1) \<Rightarrow>
          (case nxt e w1 of
             (Some err, w2) \<Rightarrow> (Some err, w2)
           | (None, w2) \<Rightarrow> (None, snd (markSeen (de_EventID e) w2))))"

section \<open>The Handler interface\<close>

text \<open>
  \<open>finished\<close> is what a handler promises when it returns \<open>nil\<close>: the effect of every stage it
  stands for, for the event's UUID. Handlers run again after a failure and for other events, so
  the promise has to survive every later call, and it may rest on an invariant of the world.
\<close>

locale event_handler =
  fixes handle :: "('v, 'w) handler"
    and inv :: "'w \<Rightarrow> bool"
    and finished :: "string \<Rightarrow> 'w \<Rightarrow> bool"
  assumes handle_ok: "inv w \<Longrightarrow> handle e w = (None, w') \<Longrightarrow> finished (de_EventID e) w'"
    and handle_inv: "inv w \<Longrightarrow> handle e w = (r, w') \<Longrightarrow> inv w'"
    and handle_keeps: "inv w \<Longrightarrow> handle e w = (r, w') \<Longrightarrow> finished i w \<Longrightarrow> finished i w'"

text \<open>
  Stages that can be chained: each keeps the invariant and everything any stage has promised.
\<close>

locale chain_stages =
  fixes stages :: "(('v, 'w) handler \<times> (string \<Rightarrow> 'w \<Rightarrow> bool)) list"
    and inv :: "'w \<Rightarrow> bool"
  assumes stage_ok: "(h, f) \<in> set stages \<Longrightarrow> inv w \<Longrightarrow> h e w = (None, w') \<Longrightarrow> f (de_EventID e) w'"
    and stage_inv: "(h, f) \<in> set stages \<Longrightarrow> inv w \<Longrightarrow> h e w = (r, w') \<Longrightarrow> inv w'"
    and stage_keeps: "(h, f) \<in> set stages \<Longrightarrow> (h', g) \<in> set stages \<Longrightarrow> inv w \<Longrightarrow>
      h e w = (r, w') \<Longrightarrow> g i w \<Longrightarrow> g i w'"
begin

lemma chain_from_run:
  assumes "set xs \<subseteq> set stages" "inv w" "chain_from n (map fst xs) e w = (r, w')"
  shows "inv w' \<and> (\<forall>x \<in> set stages. \<forall>i. snd x i w \<longrightarrow> snd x i w') \<and>
    (r = None \<longrightarrow> (\<forall>x \<in> set xs. snd x (de_EventID e) w'))"
  using assms
proof (induction xs arbitrary: n w)
  case Nil
  then show ?case by auto
next
  case (Cons x xs)
  obtain h f where x: "x = (h, f)" by (cases x)
  obtain r1 w1 where h: "h e w = (r1, w1)" by (cases "h e w")
  have mem: "(h, f) \<in> set stages" using Cons.prems(1) x by simp
  have inv1: "inv w1" using stage_inv [OF mem Cons.prems(2) h] .
  have keep1: "\<forall>x \<in> set stages. \<forall>i. snd x i w \<longrightarrow> snd x i w1"
    using stage_keeps [OF mem _ Cons.prems(2) h] by auto
  show ?case
  proof (cases r1)
    case (Some err)
    then show ?thesis using Cons.prems(3) x h inv1 keep1 by auto
  next
    case None
    then have rest: "chain_from (Suc n) (map fst xs) e w1 = (r, w')"
      using Cons.prems(3) x h by simp
    have "f (de_EventID e) w1" using stage_ok [OF mem Cons.prems(2)] h None by simp
    moreover have "inv w' \<and> (\<forall>x \<in> set stages. \<forall>i. snd x i w1 \<longrightarrow> snd x i w') \<and>
        (r = None \<longrightarrow> (\<forall>x \<in> set xs. snd x (de_EventID e) w'))"
      using Cons.IH [OF _ inv1 rest] Cons.prems(1) by simp
    ultimately show ?thesis using keep1 mem unfolding x by auto
  qed
qed

lemma chain_is_handler:
  "event_handler (Chain_Handle (map fst stages)) inv (\<lambda>i w. \<forall>x \<in> set stages. snd x i w)"
proof
  fix w e w' assume "inv w" "Chain_Handle (map fst stages) e w = (None, w')"
  then show "\<forall>x \<in> set stages. snd x (de_EventID e) w'"
    using chain_from_run [of stages w 0 e None w'] by (simp add: Chain_Handle_def)
next
  fix w e r w' assume "inv w" "Chain_Handle (map fst stages) e w = (r, w')"
  then show "inv w'" using chain_from_run [of stages w 0 e r w'] by (simp add: Chain_Handle_def)
next
  fix w e r w' i
  assume "inv w" "Chain_Handle (map fst stages) e w = (r, w')" "\<forall>x \<in> set stages. snd x i w"
  then show "\<forall>x \<in> set stages. snd x i w'"
    using chain_from_run [of stages w 0 e r w'] by (fastforce simp: Chain_Handle_def)
qed

end

sublocale chain_stages \<subseteq> event_handler "Chain_Handle (map fst stages)" inv
  "\<lambda>i w. \<forall>x \<in> set stages. snd x i w"
  by (rule chain_is_handler)

text \<open>
  The interface \<open>SeenCache\<close> around a handler: a hit is a UUID that was marked, only \<open>MarkSeen\<close>
  adds one, and neither side disturbs the other.
\<close>

locale dedup_stage = wrapped: event_handler nxt inv finished
  for nxt :: "('v, 'w) handler" and inv :: "'w \<Rightarrow> bool" and finished :: "string \<Rightarrow> 'w \<Rightarrow> bool" +
  fixes seen :: "string \<Rightarrow> ('w, bool) call"
    and markSeen :: "string \<Rightarrow> 'w action"
    and marked :: "'w \<Rightarrow> string set"
  assumes seen_hit: "seen i w = (Inr True, w') \<Longrightarrow> i \<in> marked w"
    and seen_frame: "seen i w = (r, w') \<Longrightarrow>
      marked w' = marked w \<and> (inv w \<longrightarrow> inv w') \<and> (\<forall>j. finished j w' = finished j w)"
    and mark_frame: "markSeen i w = (q, w') \<Longrightarrow>
      marked w' \<subseteq> insert i (marked w) \<and> (inv w \<longrightarrow> inv w') \<and> (\<forall>j. finished j w' = finished j w)"
    and next_frame: "nxt e w = (q, w') \<Longrightarrow> marked w' = marked w"
begin

definition dedup_inv :: "'w \<Rightarrow> bool" where
  "dedup_inv w \<longleftrightarrow> inv w \<and> (\<forall>i \<in> marked w. finished i w)"

lemma dedup_run:
  assumes I: "dedup_inv w" and H: "DedupHandler_Handle seen markSeen nxt e w = (r, w')"
  shows "dedup_inv w' \<and> (\<forall>i. finished i w \<longrightarrow> finished i w') \<and> (r = None \<longrightarrow> finished (de_EventID e) w')"
proof -
  obtain s w1 where s: "seen (de_EventID e) w = (s, w1)" by (cases "seen (de_EventID e) w")
  have I1: "dedup_inv w1" and F1: "\<forall>j. finished j w1 = finished j w"
    using I seen_frame [OF s] by (auto simp: dedup_inv_def)
  show ?thesis
  proof (cases "s = Inr True")
    case True
    then have "r = None" "w' = w1" using H s by (auto simp: DedupHandler_Handle_def)
    moreover have "finished (de_EventID e) w" using I s True by (auto simp: dedup_inv_def dest: seen_hit)
    ultimately show ?thesis using I1 F1 by simp
  next
    case False
    obtain q w2 where n: "nxt e w1 = (q, w2)" by (cases "nxt e w1")
    have H': "(case q of Some err \<Rightarrow> (Some err, w2) | None \<Rightarrow> (None, snd (markSeen (de_EventID e) w2))) = (r, w')"
      using H s n False by (auto simp: DedupHandler_Handle_def split: sum.splits bool.splits)
    have I2: "dedup_inv w2" and F2: "\<forall>i. finished i w \<longrightarrow> finished i w2"
      using I1 F1 next_frame [OF n] wrapped.handle_inv [OF _ n] wrapped.handle_keeps [OF _ n]
      by (auto simp: dedup_inv_def)
    show ?thesis
    proof (cases q)
      case (Some err)
      then show ?thesis using H' I2 F2 by auto
    next
      case None
      then have fin: "finished (de_EventID e) w2"
        using wrapped.handle_ok n I1 by (auto simp: dedup_inv_def)
      obtain m w3 where "markSeen (de_EventID e) w2 = (m, w3)" by (cases "markSeen (de_EventID e) w2")
      then show ?thesis using mark_frame None H' I2 F2 fin by (fastforce simp: dedup_inv_def)
    qed
  qed
qed

lemma dedup_is_handler: "event_handler (DedupHandler_Handle seen markSeen nxt) dedup_inv finished"
  by unfold_locales (use dedup_run in blast)+

end

sublocale dedup_stage \<subseteq> dedup: event_handler "DedupHandler_Handle seen markSeen nxt" dedup_inv finished
  by (rule dedup_is_handler)

section \<open>Properties\<close>

lemma chain_from_error:
  "chain_from i hs e w = (Some err, w') \<longleftrightarrow>
     (\<exists>n < length hs. \<exists>cause wn. chain_from i (take n hs) e w = (None, wn) \<and> (hs ! n) e wn = (Some cause, w') \<and>
        err = Errorf ''chain step %d: %w'' [itoa (i + n)] (Some cause))"
proof (induction hs arbitrary: i w)
  case Nil
  then show ?case by simp
next
  case (Cons h hs)
  obtain q w1 where h: "h e w = (q, w1)" by (cases "h e w")
  show ?case
  proof (cases q)
    case (Some c)
    then show ?thesis using h by (auto simp: Ex_less_Suc2)
  next
    case None
    then show ?thesis using h Cons.IH [of "Suc i" w1] by (simp add: Ex_less_Suc2)
  qed
qed

text \<open>
  A chain fails exactly when some handler fails after all handlers before it have returned nil;
  the error names that handler's position and wraps its error, and no later handler runs: the
  world is the one the failing handler left. In the service this is what keeps an event that is
  not yet stored from reaching Kafka.
\<close>

lemma chain_stops_at_first_failure:
  "Chain_Handle hs e w = (Some err, w') \<longleftrightarrow>
     (\<exists>n < length hs. \<exists>cause wn. Chain_Handle (take n hs) e w = (None, wn) \<and> (hs ! n) e wn = (Some cause, w') \<and>
        err = Errorf ''chain step %d: %w'' [itoa n] (Some cause))"
  using chain_from_error [of 0 hs e w err w'] by (simp add: Chain_Handle_def)

end
