(* ===== verification/Storage.thy ===== *)
theory Storage
  imports Services Handlers Committer
begin

text \<open>
  The repositories and the store facade of \<open>src/internal/storage\<close>, over the SQL calls of
  \<open>Services\<close>. The store provides the interfaces \<open>EventStore\<close> (for the persist handler),
  \<open>CursorStore\<close> (for the committer) and \<open>CursorLoader\<close> (for the subscriber).
\<close>

section \<open>Repositories\<close>

definition isNoRows :: "go_error \<Rightarrow> bool" where
  "isNoRows err = errors_Is err PgxErrNoRows"

text \<open>\<open>marshal\<close> is \<open>json.Marshal\<close> on the payload.\<close>

definition EventRepo_Upsert ::
  "('v payload \<Rightarrow> go_error + bytes) \<Rightarrow> (event_args \<Rightarrow> ('w, int) call) \<Rightarrow> 'v DecodedEvent \<Rightarrow> ('w, bool) call"
where
  "EventRepo_Upsert marshal insert_event e w =
     (case marshal (de_Payload e) of
        Inl err \<Rightarrow> (Inl (Errorf ''marshal payload: %w'' [] (Some err)), w)
      | Inr payload \<Rightarrow>
          (case insert_event
                  \<lparr>ea_event_uuid = de_EventID e, ea_topic = de_Topic e, ea_schema_id = de_SchemaID e,
                   ea_replay_id = de_ReplayID e, ea_payload = payload,
                   ea_received_at = de_ReceivedAt e\<rparr> w of
             (Inl err, w') \<Rightarrow>
               if isNoRows err then (Inr False, w')
               else (Inl (Errorf ''insert event %q: %w'' [de_EventID e] (Some err)), w')
           | (Inr i, w') \<Rightarrow> (Inr True, w')))"

definition ReplayRepo_Get :: "(string \<Rightarrow> ('w, bytes option) call) \<Rightarrow> string \<Rightarrow> ('w, bytes option) call" where
  "ReplayRepo_Get select_replay topic w =
     (case select_replay topic w of
        (Inl err, w') \<Rightarrow>
          if isNoRows err then (Inr None, w')
          else (Inl (Errorf ''load replay for %q: %w'' [topic] (Some err)), w')
      | (Inr rid, w') \<Rightarrow> (Inr rid, w'))"

definition ReplayRepo_Set :: "(string \<Rightarrow> bytes option \<Rightarrow> 'w action) \<Rightarrow> string \<Rightarrow> bytes option \<Rightarrow> 'w action" where
  "ReplayRepo_Set upsert_replay topic rid w =
     (case upsert_replay topic rid w of
        (Some err, w') \<Rightarrow> (Some (Errorf ''set replay for %q: %w'' [topic] (Some err)), w')
      | (None, w') \<Rightarrow> (None, w'))"

section \<open>Store\<close>

definition LoadReplay :: "(string \<Rightarrow> ('w, bytes option) call) \<Rightarrow> string \<Rightarrow> ('w, bytes option) call" where
  "LoadReplay select_replay topic w = ReplayRepo_Get select_replay topic w"

definition SaveReplay :: "(string \<Rightarrow> bytes option \<Rightarrow> 'w action) \<Rightarrow> string \<Rightarrow> bytes option \<Rightarrow> 'w action" where
  "SaveReplay upsert_replay topic rid w = ReplayRepo_Set upsert_replay topic rid w"

definition PersistEvent ::
  "('v payload \<Rightarrow> go_error + bytes) \<Rightarrow> (event_args \<Rightarrow> ('w, int) call) \<Rightarrow> 'v DecodedEvent \<Rightarrow> ('w, bool) call"
where
  "PersistEvent marshal insert_event e w =
     (case EventRepo_Upsert marshal insert_event e w of
        (Inl err, w') \<Rightarrow> (Inl (Errorf ''persist event: %w'' [] (Some err)), w')
      | (Inr inserted, w') \<Rightarrow> (Inr inserted, w'))"

lemmas store_defs = EventRepo_Upsert_def ReplayRepo_Get_def ReplayRepo_Set_def LoadReplay_def
  SaveReplay_def PersistEvent_def isNoRows_def

section \<open>What the store promises\<close>

context services
begin

lemma SaveReplay_ok:
  "SaveReplay upsert_replay topic rid w = (None, w') \<Longrightarrow>
     rid \<noteq> None \<and> view w' = (view w)\<lparr>sv_replay := (sv_replay (view w))(topic := rid)\<rparr>"
  by (auto simp: store_defs dest: upsert_ok split: prod.splits option.splits)

lemma SaveReplay_err:
  "SaveReplay upsert_replay topic rid w = (Some e, w') \<Longrightarrow>
     view w' = view w \<or> view w' = (view w)\<lparr>sv_replay := (sv_replay (view w))(topic := rid)\<rparr>"
  by (auto simp: store_defs dest: upsert_err split: prod.splits option.splits)

text \<open>
  \<open>LoadReplay\<close> returns the committed cursor, \<open>nil\<close> exactly when there is none, or an error.
\<close>

lemma LoadReplay_ok:
  "LoadReplay select_replay topic w = (Inr rid, w') \<Longrightarrow> rid = sv_replay (view w) topic \<and> view w' = view w"
  by (auto simp: store_defs dest: select_ok select_err split: prod.splits sum.splits if_splits)

lemma LoadReplay_view: "LoadReplay select_replay topic w = (r, w') \<Longrightarrow> view w' = view w"
  by (auto simp: store_defs dest: select_ok select_err split: prod.splits sum.splits if_splits)

text \<open>
  The branches of \<open>PersistEvent\<close>: a new UUID adds one row, a known one adds none, an error adds
  at most the event's own row.
\<close>

lemma PersistEvent_cases:
  assumes "PersistEvent marshal insert_event e w = (r, w')"
  obtains (new) i a where "r = Inr True" "de_EventID e \<notin> row_uuids (sv_rows (view w))"
      "ea_event_uuid a = de_EventID e"
      "view w' = (view w)\<lparr>sv_rows := sv_rows (view w) @ [\<lparr>er_id = i, er_args = a\<rparr>]\<rparr>"
  | (dup) "r = Inr False" "de_EventID e \<in> row_uuids (sv_rows (view w))" "view w' = view w"
  | (err) err where "r = Inl err" "view w' = view w"
  | (lost) err i a where "r = Inl err" "de_EventID e \<notin> row_uuids (sv_rows (view w))"
      "ea_event_uuid a = de_EventID e"
      "view w' = (view w)\<lparr>sv_rows := sv_rows (view w) @ [\<lparr>er_id = i, er_args = a\<rparr>]\<rparr>"
proof (cases "marshal (de_Payload e)")
  case (Inl x)
  then show thesis using assms err by (auto simp: store_defs)
next
  case (Inr payload)
  define a where "a = \<lparr>ea_event_uuid = de_EventID e, ea_topic = de_Topic e, ea_schema_id = de_SchemaID e,
    ea_replay_id = de_ReplayID e, ea_payload = payload, ea_received_at = de_ReceivedAt e\<rparr>"
  have u: "ea_event_uuid a = de_EventID e" by (simp add: a_def)
  obtain q w1 where q: "insert_event a w = (q, w1)" by (cases "insert_event a w")
  show thesis
  proof (cases q)
    case (Inr i)
    with q have "r = Inr True" "w' = w1"
      using assms \<open>marshal (de_Payload e) = Inr payload\<close> by (auto simp: store_defs a_def)
    then show thesis using insert_ok [of a w i w1] q Inr u new by auto
  next
    case (Inl x)
    show thesis
    proof (cases "errors_Is x PgxErrNoRows")
      case True
      with q Inl have "r = Inr False" "w' = w1"
        using assms \<open>marshal (de_Payload e) = Inr payload\<close> by (auto simp: store_defs a_def)
      then show thesis using insert_conflict [of a w x w1] q Inl True u dup by auto
    next
      case False
      with q Inl have "\<exists>y. r = Inl y" "w' = w1"
        using assms \<open>marshal (de_Payload e) = Inr payload\<close> by (auto simp: store_defs a_def)
      then show thesis using insert_err [of a w x w1] q Inl u err lost by auto
    qed
  qed
qed

end

text \<open>The store is the committer's \<open>CursorStore\<close>.\<close>

sublocale services \<subseteq> store: cursor_store "SaveReplay upsert_replay" "\<lambda>w. sv_replay (view w)"
  by unfold_locales (auto dest: SaveReplay_ok SaveReplay_err)

section \<open>Properties\<close>


text \<open>A first completion, and a flush whose write is lost on the way.\<close>

definition lost_env :: env where
  "lost_env = \<lparr>ev_view = \<lparr>sv_rows = [], sv_replay = Map.empty, sv_keys = {}, sv_log = []\<rparr>,
     ev_serial = 1, ev_script = [Fails], ev_metrics = []\<rparr>"

definition one_done :: committer where
  "one_done = Done ''t'' 1 (Some [7]) NewCommitter"

lemma one_done_eq:
  "one_done = \<lparr>c_topics = [''t'' \<mapsto> \<lparr>tc_next = 2, tc_done = Map.empty, tc_replayID = Some [7], tc_dirty = True\<rparr>],
     c_commits_ok = 0, c_commits_error = 0\<rparr>"
  by (simp add: one_done_def Done_def NewCommitter_def newTopicCursor_def done_cursor_def advance.simps)

lemma lost_flush:
  "Flush (SaveReplay env_upsert_replay) [''t''] one_done lost_env =
     Some (one_done\<lparr>c_commits_error := 1\<rparr>, lost_env\<lparr>ev_script := []\<rparr>,
       Some (Errorf ''set replay for %q: %w'' [''t''] (Some net_error)))"
  by (simp add: Flush_def snapshot_def one_done_eq flush_one_def markDirty_def store_defs env_upsert_replay_def
        env_act_def next_fault_def lost_env_def fun_eq_iff)


text \<open>
  C7. A flush that reports success has stored, for every topic, the cursor as of its snapshot, and
  has left nothing to write again; a flush that reports an error leaves each topic either stored
  or marked for the next one.
\<close>

theorem flush_commits_or_retries:
  assumes "services insert_event select_replay upsert_replay exists_key set_key produce_sync meter view"
    and "Flush (SaveReplay upsert_replay) order c w = Some (c', w', firstErr)"
    and "distinct order" and "set order = dom (fst (snapshot c))"
  shows "if tc_dirty (cursor_of c topic) then
      (sv_replay (view w') topic = tc_replayID (cursor_of c topic) \<and>
       cursor_of c' topic = (cursor_of c topic)\<lparr>tc_dirty := False\<rparr>) \<or>
      (firstErr \<noteq> None \<and> cursor_of c' topic = cursor_of c topic \<and>
       sv_replay (view w') topic \<in> {sv_replay (view w) topic, tc_replayID (cursor_of c topic)})
    else sv_replay (view w') topic = sv_replay (view w) topic \<and> cursor_of c' topic = cursor_of c topic"
proof -
  have store: "cursor_store (SaveReplay upsert_replay) (\<lambda>w. sv_replay (view w))"
    using assms(1) by (auto intro!: cursor_store.intro dest: services.SaveReplay_ok services.SaveReplay_err)
  show ?thesis
    using cursor_store.Flush_topic [OF store assms(2,3), of topic] assms(4) by (auto split: if_splits)
qed

theorem flush_commits_or_retries_witness:
  "cursor_of (one_done\<lparr>c_commits_error := 1\<rparr>) ''t'' = cursor_of one_done ''t'' \<or>
   cursor_of (one_done\<lparr>c_commits_error := 1\<rparr>) ''t'' = (cursor_of one_done ''t'')\<lparr>tc_dirty := False\<rparr>"
proof -
  have "set [''t''] = dom (fst (snapshot one_done))"
    by (auto simp: snapshot_def one_done_eq split: if_splits)
  from flush_commits_or_retries [OF env.services_axioms lost_flush _ this, of "''t''"] show ?thesis
    by (auto split: if_splits)
qed

text \<open>
  C37. A cursor that was saved is the cursor the next load returns, byte for byte; a nil cursor is
  never saved.
\<close>

theorem saved_replay_is_loaded:
  assumes "services insert_event select_replay upsert_replay exists_key set_key produce_sync meter view"
    and "SaveReplay upsert_replay topic rid w = (None, w1)"
    and "LoadReplay select_replay topic w1 = (Inr rid', w2)"
  shows "rid' = rid \<and> rid \<noteq> None"
  using services.SaveReplay_ok [OF assms(1,2)] services.LoadReplay_ok [OF assms(1,3)] by simp

theorem saved_replay_is_loaded_witness:
  "snd (SaveReplay env_upsert_replay ''t'' (Some [1]) (lost_env\<lparr>ev_script := []\<rparr>)) =
     lost_env\<lparr>ev_script := [], ev_view := (ev_view lost_env)\<lparr>sv_replay := [''t'' \<mapsto> [1]]\<rparr>\<rparr> \<and>
   Some [1] = Some [1::byte] \<and> Some [1::byte] \<noteq> None"
proof -
  let ?w = "lost_env\<lparr>ev_script := []\<rparr>"
    and ?w1 = "lost_env\<lparr>ev_script := [], ev_view := (ev_view lost_env)\<lparr>sv_replay := [''t'' \<mapsto> [1]]\<rparr>\<rparr>"
  have s: "SaveReplay env_upsert_replay ''t'' (Some [1]) ?w = (None, ?w1)"
    and l: "LoadReplay env_select_replay ''t'' ?w1 = (Inr (Some [1]), ?w1)"
    by (simp_all add: store_defs env_defs env_act_def env_call_def next_fault_def sql_defs lost_env_def)
  from saved_replay_is_loaded [OF env.services_axioms s l] s show ?thesis by simp
qed

end
