(* ===== verification/Redis_Cache.thy ===== *)
theory Redis_Cache
  imports Services
begin

text \<open>
  The processed-event cache of \<open>src/internal/rediscache/cache.go\<close>. The go-redis calls \<open>Exists\<close>,
  \<open>Set\<close>, \<open>Ping\<close> and \<open>Close\<close> are parameters; each takes the deadline the code derives from the
  cache's timeout.
\<close>

record rediscache =
  rc_prefix :: string
  rc_ttl :: duration
  rc_timeout :: duration

definition key :: "rediscache \<Rightarrow> string \<Rightarrow> string" where
  "key c eventID = rc_prefix c @ eventID"

definition Seen ::
  "(duration \<Rightarrow> string \<Rightarrow> ('w, int) call) \<Rightarrow> (metric \<Rightarrow> 'w \<Rightarrow> 'w) \<Rightarrow> rediscache \<Rightarrow> string \<Rightarrow> ('w, bool) call"
where
  "Seen exists_key meter c eventID w =
     (case exists_key (rc_timeout c) (key c eventID) w of
        (Inl err, w') \<Rightarrow>
          (Inl (Errorf ''redis exists: %w'' [] (Some err)), meter (Inc ''dedup_cache_errors_total'' [''seen'']) w')
      | (Inr n, w') \<Rightarrow>
          if n > 0 then (Inr True, meter (Inc ''dedup_cache_hits_total'' []) w')
          else (Inr False, meter (Inc ''dedup_cache_misses_total'' []) w'))"

definition MarkSeen ::
  "(duration \<Rightarrow> string \<Rightarrow> duration \<Rightarrow> 'w action) \<Rightarrow> (metric \<Rightarrow> 'w \<Rightarrow> 'w) \<Rightarrow> rediscache \<Rightarrow> string \<Rightarrow> 'w action"
where
  "MarkSeen set_key meter c eventID w =
     (case set_key (rc_timeout c) (key c eventID) (rc_ttl c) w of
        (Some err, w') \<Rightarrow>
          (Some (Errorf ''redis set: %w'' [] (Some err)), meter (Inc ''dedup_cache_errors_total'' [''mark'']) w')
      | (None, w') \<Rightarrow> (None, w'))"

definition Cache_Check :: "(duration \<Rightarrow> 'w action) \<Rightarrow> rediscache \<Rightarrow> 'w action" where
  "Cache_Check ping c w =
     (case ping (rc_timeout c) w of
        (Some err, w') \<Rightarrow> (Some (Errorf ''redis ping: %w'' [] (Some err)), w')
      | (None, w') \<Rightarrow> (None, w'))"

abbreviation RedisErrClosed :: go_error where
  "RedisErrClosed \<equiv> Sentinel ''redis: client is closed''"

definition Cache_Close :: "'w action \<Rightarrow> 'w action" where
  "Cache_Close close w =
     (case close w of
        (Some err, w') \<Rightarrow>
          if \<not> errors_Is err RedisErrClosed then (Some (Errorf ''close redis: %w'' [] (Some err)), w')
          else (None, w')
      | (None, w') \<Rightarrow> (None, w'))"

lemmas cache_defs = key_def Seen_def MarkSeen_def Cache_Check_def Cache_Close_def

lemma key_inject: "key c i = key c j \<longleftrightarrow> i = j"
  by (simp add: key_def)

section \<open>What the cache promises\<close>

text \<open>The UUIDs the cache has marked: those whose prefixed key is in Redis.\<close>

definition marked :: "rediscache \<Rightarrow> services_view \<Rightarrow> string set" where
  "marked c v = {i. key c i \<in> sv_keys v}"

context services
begin

lemma Seen_hit:
  "Seen exists_key meter c i w = (Inr True, w') \<Longrightarrow> i \<in> marked c (view w)"
  by (auto simp: Seen_def marked_def dest!: exists_ok split: prod.splits sum.splits if_splits)

lemma Seen_view: "Seen exists_key meter c i w = (r, w') \<Longrightarrow> view w' = view w"
  by (auto simp: Seen_def meter_view dest!: exists_ok exists_err split: prod.splits sum.splits if_splits)

lemma MarkSeen_view:
  "MarkSeen set_key meter c i w = (r, w') \<Longrightarrow>
     view w' = view w \<or> view w' = (view w)\<lparr>sv_keys := insert (key c i) (sv_keys (view w))\<rparr>"
  by (auto simp: MarkSeen_def meter_view dest!: set_ok set_err split: prod.splits option.splits)

end

end
