(* ===== verification/Kafka_Producer.thy ===== *)
theory Kafka_Producer
  imports Services
begin

text \<open>
  The producer of \<open>src/internal/kafka/producer.go\<close>. The franz-go calls (\<open>ProduceSync\<close>,
  \<open>CreateTopic\<close>, \<open>Ping\<close>) and its typed broker errors are parameters.
\<close>

record producer =
  kp_topic :: string
  kp_timeout :: duration
  kp_partitions :: int
  kp_replication :: int

definition Produce ::
  "(duration \<Rightarrow> kafka_record \<Rightarrow> 'w action) \<Rightarrow> (metric \<Rightarrow> 'w \<Rightarrow> 'w) \<Rightarrow> producer \<Rightarrow>
   string \<Rightarrow> bytes \<Rightarrow> (string \<times> string) list \<Rightarrow> 'w action"
where
  "Produce produce_sync meter p k value headers w =
     (case produce_sync (kp_timeout p)
             \<lparr>kr_Topic = kp_topic p, kr_Key = k, kr_Value = value, kr_Headers = headers\<rparr> w of
        (Some err, w') \<Rightarrow>
          (Some (Errorf ''produce to %q: %w'' [kp_topic p] (Some err)),
           meter (Inc ''kafka_records_failed_total'' []) (meter (Observe ''kafka_produce_duration_seconds'' []) w'))
      | (None, w') \<Rightarrow>
          (None,
           meter (CounterAdd ''kafka_record_bytes_total'' [] (length value))
             (meter (Inc ''kafka_records_produced_total'' [])
               (meter (Observe ''kafka_produce_duration_seconds'' []) w'))))"

text \<open>\<open>kerr_code\<close> is the code of the broker error that \<open>errors.As\<close> finds, if any.\<close>

definition isTopicAlreadyExists :: "(go_error \<Rightarrow> int option) \<Rightarrow> int \<Rightarrow> go_error \<Rightarrow> bool" where
  "isTopicAlreadyExists kerr_code topicAlreadyExists err = (kerr_code err = Some topicAlreadyExists)"

definition EnsureTopic ::
  "(go_error \<Rightarrow> int option) \<Rightarrow> int \<Rightarrow> (duration \<Rightarrow> int \<Rightarrow> int \<Rightarrow> string \<Rightarrow> 'w action) \<Rightarrow> producer \<Rightarrow> 'w action"
where
  "EnsureTopic kerr_code topicAlreadyExists createTopic p w =
     (case createTopic (kp_timeout p) (kp_partitions p) (kp_replication p) (kp_topic p) w of
        (Some err, w') \<Rightarrow>
          if \<not> isTopicAlreadyExists kerr_code topicAlreadyExists err
          then (Some (Errorf ''create topic %q: %w'' [kp_topic p] (Some err)), w')
          else (None, w')
      | (None, w') \<Rightarrow> (None, w'))"

definition Producer_Check :: "'w action \<Rightarrow> 'w action" where
  "Producer_Check ping w =
     (case ping w of
        (Some err, w') \<Rightarrow> (Some (Errorf ''kafka ping: %w'' [] (Some err)), w')
      | (None, w') \<Rightarrow> (None, w'))"

context services
begin

lemma Produce_ok:
  "Produce produce_sync meter p k value headers w = (None, w') \<Longrightarrow>
     view w' = (view w)\<lparr>sv_log := sv_log (view w) @
       [\<lparr>kr_Topic = kp_topic p, kr_Key = k, kr_Value = value, kr_Headers = headers\<rparr>]\<rparr>"
  by (auto simp: Produce_def meter_view dest!: produce_ok split: prod.splits option.splits)

lemma Produce_err:
  "Produce produce_sync meter p k value headers w = (Some e, w') \<Longrightarrow>
     view w' = view w \<or> view w' = (view w)\<lparr>sv_log := sv_log (view w) @
       [\<lparr>kr_Topic = kp_topic p, kr_Key = k, kr_Value = value, kr_Headers = headers\<rparr>]\<rparr>"
  by (auto simp: Produce_def meter_view dest!: produce_err split: prod.splits option.splits)

end

end
