(* ===== verification/Root_Handler.thy ===== *)
theory Root_Handler
  imports Storage Redis_Cache Kafka_Producer
begin

text \<open>
  The handler the application builds (\<open>src/internal/app/app.go\<close>, \<open>New\<close>): persist, then forward
  when the Kafka sink is enabled, the chain wrapped by the dedup cache when Redis is enabled.
\<close>

record handler_config =
  hc_kafka :: "producer option"
  hc_redis :: "rediscache option"

definition persist_stage ::
  "('v payload \<Rightarrow> go_error + bytes) \<Rightarrow> (event_args \<Rightarrow> ('w, int) call) \<Rightarrow> ('v, 'w) handler" where
  "persist_stage marshal insert_event = PersistHandler_Handle (PersistEvent marshal insert_event)"

definition forward_stage ::
  "('v Envelope \<Rightarrow> go_error + bytes) \<Rightarrow> (duration \<Rightarrow> kafka_record \<Rightarrow> 'w action) \<Rightarrow> (metric \<Rightarrow> 'w \<Rightarrow> 'w) \<Rightarrow>
   producer \<Rightarrow> ('v, 'w) handler" where
  "forward_stage marshal_env produce_sync meter p = ForwardHandler_Handle marshal_env (Produce produce_sync meter p)"

definition root_handler ::
  "('v payload \<Rightarrow> go_error + bytes) \<Rightarrow> ('v Envelope \<Rightarrow> go_error + bytes) \<Rightarrow>
   (event_args \<Rightarrow> ('w, int) call) \<Rightarrow> (duration \<Rightarrow> string \<Rightarrow> ('w, int) call) \<Rightarrow>
   (duration \<Rightarrow> string \<Rightarrow> duration \<Rightarrow> 'w action) \<Rightarrow> (duration \<Rightarrow> kafka_record \<Rightarrow> 'w action) \<Rightarrow>
   (metric \<Rightarrow> 'w \<Rightarrow> 'w) \<Rightarrow> handler_config \<Rightarrow> ('v, 'w) handler"
where
  "root_handler marshal marshal_env insert_event exists_key set_key produce_sync meter cfg =
     (let handlers = [persist_stage marshal insert_event] @
            (case hc_kafka cfg of
               None \<Rightarrow> []
             | Some p \<Rightarrow> [forward_stage marshal_env produce_sync meter p]);
          root = Chain_Handle handlers
      in case hc_redis cfg of
           None \<Rightarrow> root
         | Some c \<Rightarrow> DedupHandler_Handle (Seen exists_key meter c) (MarkSeen set_key meter c) root)"

section \<open>What it promises\<close>

definition persisted :: "string \<Rightarrow> services_view \<Rightarrow> bool" where
  "persisted i v \<longleftrightarrow> i \<in> row_uuids (sv_rows v)"

definition forwarded :: "string \<Rightarrow> services_view \<Rightarrow> bool" where
  "forwarded i v \<longleftrightarrow> (\<exists>r \<in> set (sv_log v). (''event_id'', i) \<in> set (kr_Headers r))"

text \<open>An event is finished when every configured stage has taken effect for its UUID.\<close>

definition event_finished :: "handler_config \<Rightarrow> string \<Rightarrow> services_view \<Rightarrow> bool" where
  "event_finished cfg i v \<longleftrightarrow> persisted i v \<and> (hc_kafka cfg \<noteq> None \<longrightarrow> forwarded i v)"

text \<open>
  The invariant of the dedup cache: an event it remembers has finished every stage. It has to
  hold when the service starts, e.g. because Redis is empty, or because the same configuration
  filled it.
\<close>

definition cache_sound :: "handler_config \<Rightarrow> services_view \<Rightarrow> bool" where
  "cache_sound cfg v \<longleftrightarrow>
     (\<forall>c. hc_redis cfg = Some c \<longrightarrow> (\<forall>i \<in> marked c v. event_finished cfg i v))"

text \<open>The UNIQUE constraint: no event UUID has two rows.\<close>

definition rows_unique :: "services_view \<Rightarrow> bool" where
  "rows_unique v \<longleftrightarrow> distinct (map (\<lambda>r. ea_event_uuid (er_args r)) (sv_rows v))"

text \<open>What no stage of the chain touches, or breaks.\<close>

definition stage_keeps_view :: "services_view \<Rightarrow> services_view \<Rightarrow> bool" where
  "stage_keeps_view v v' \<longleftrightarrow>
     sv_keys v' = sv_keys v \<and> sv_replay v' = sv_replay v \<and> (rows_unique v \<longrightarrow> rows_unique v')"

lemma stage_keeps_view_refl [simp]: "stage_keeps_view v v"
  by (simp add: stage_keeps_view_def)

lemma stage_keeps_view_trans: "stage_keeps_view u v \<Longrightarrow> stage_keeps_view v v' \<Longrightarrow> stage_keeps_view u v'"
  by (simp add: stage_keeps_view_def)

lemma rows_unique_snoc:
  "rows_unique v \<Longrightarrow> ea_event_uuid a \<notin> row_uuids (sv_rows v) \<Longrightarrow>
     rows_unique (v\<lparr>sv_rows := sv_rows v @ [\<lparr>er_id = i, er_args = a\<rparr>]\<rparr>)"
  by (simp add: rows_unique_def row_uuids_def)

lemmas finished_defs = persisted_def forwarded_def event_finished_def

text \<open>What a pass through the forward stage appends to the topic.\<close>

abbreviation forwarded_record :: "producer \<Rightarrow> bytes \<Rightarrow> 'v DecodedEvent \<Rightarrow> kafka_record" where
  "forwarded_record p val e \<equiv> \<lparr>kr_Topic = kp_topic p, kr_Key = de_Topic e, kr_Value = val, kr_Headers = forward_headers e\<rparr>"

context services
begin

lemma persist_run:
  assumes "persist_stage marshal insert_event e w = (r, w')"
  shows "sv_keys (view w') = sv_keys (view w) \<and> sv_log (view w') = sv_log (view w) \<and>
    stage_keeps_view (view w) (view w') \<and>
    (persisted i (view w) \<longrightarrow> persisted i (view w')) \<and> (r = None \<longrightarrow> persisted (de_EventID e) (view w'))"
proof (cases "PersistEvent marshal insert_event e w")
  case (Pair q w1)
  with assms have "w' = w1" "r = None \<longrightarrow> (\<exists>b. q = Inr b)"
    by (auto simp: persist_stage_def PersistHandler_Handle_def split: sum.splits)
  with Pair show ?thesis by (cases rule: PersistEvent_cases)
      (auto simp: persisted_def stage_keeps_view_def intro: rows_unique_snoc)
qed

lemma forward_run:
  assumes "forward_stage marshal_env produce_sync meter p e w = (r, w')"
  shows "sv_keys (view w') = sv_keys (view w) \<and> sv_rows (view w') = sv_rows (view w) \<and>
    stage_keeps_view (view w) (view w') \<and>
    (forwarded i (view w) \<longrightarrow> forwarded i (view w')) \<and> (r = None \<longrightarrow> forwarded (de_EventID e) (view w'))"
proof (cases "marshal_env (envelope e)")
  case (Inl x)
  then show ?thesis using assms by (auto simp: forward_stage_def ForwardHandler_Handle_def)
next
  case (Inr bs)
  obtain q w1 where q: "Produce produce_sync meter p (de_Topic e) bs (forward_headers e) w = (q, w1)"
    by (cases "Produce produce_sync meter p (de_Topic e) bs (forward_headers e) w")
  have "w' = w1" "r = None \<longrightarrow> q = None"
    using assms Inr q by (auto simp: forward_stage_def ForwardHandler_Handle_def split: option.splits)
  then show ?thesis
    using q Produce_ok [of p _ bs _ w w1] Produce_err [of p _ bs _ w _ w1]
    by (cases q) (fastforce simp: forwarded_def forward_headers_def stage_keeps_view_def rows_unique_def)+
qed

lemma forward_log:
  assumes "forward_stage marshal_env produce_sync meter p e w = (r, w')"
  shows "(r = None \<and> (\<exists>val. marshal_env (envelope e) = Inr val \<and> sv_log (view w') = sv_log (view w) @ [forwarded_record p val e])) \<or>
    (r \<noteq> None \<and> (sv_log (view w') = sv_log (view w) \<or>
       (\<exists>val. marshal_env (envelope e) = Inr val \<and> sv_log (view w') = sv_log (view w) @ [forwarded_record p val e])))"
  using assms
  by (auto simp: forward_stage_def ForwardHandler_Handle_def dest!: Produce_ok Produce_err split: result_splits)

lemma stage_frame:
  "persist_stage marshal insert_event e w = (r, w') \<Longrightarrow>
     stage_keeps_view (view w) (view w')"
  "forward_stage marshal_env produce_sync meter p e w = (r, w') \<Longrightarrow>
     stage_keeps_view (view w) (view w')"
  by (simp_all add: persist_run forward_run)

definition stages_of where
  "stages_of marshal marshal_env cfg =
     (persist_stage marshal insert_event, \<lambda>i w. persisted i (view w)) #
     (case hc_kafka cfg of
        None \<Rightarrow> []
      | Some p \<Rightarrow> [(forward_stage marshal_env produce_sync meter p, \<lambda>i w. forwarded i (view w))])"

lemma persist_keeps_forwarded:
  "persist_stage marshal insert_event e w = (r, w') \<Longrightarrow> forwarded i (view w') = forwarded i (view w)"
  using persist_run [of marshal e w r w' i] by (simp add: forwarded_def)

lemma forward_keeps_persisted:
  "forward_stage marshal_env produce_sync meter p e w = (r, w') \<Longrightarrow> persisted i (view w') = persisted i (view w)"
  using forward_run [of marshal_env p e w r w' i] by (simp add: persisted_def)

lemma chain_stages_of: "chain_stages (stages_of marshal marshal_env cfg) (\<lambda>_. True)"
proof (cases "hc_kafka cfg")
  case None
  then show ?thesis
    by unfold_locales (auto simp: stages_of_def dest: persist_run)
next
  case (Some p)
  then show ?thesis
    by unfold_locales
       (auto simp: stages_of_def persist_keeps_forwarded forward_keeps_persisted
             dest: persist_run forward_run)
qed

lemma chain_handler:
  "event_handler (Chain_Handle (map fst (stages_of marshal marshal_env cfg))) (\<lambda>_. True)
     (\<lambda>i w. event_finished cfg i (view w))"
proof -
  have "(\<lambda>i w. \<forall>x \<in> set (stages_of marshal marshal_env cfg). snd x i w) =
      (\<lambda>i w. event_finished cfg i (view w))"
    by (auto simp: fun_eq_iff stages_of_def event_finished_def split: option.split)
  with chain_stages.chain_is_handler [OF chain_stages_of, of marshal marshal_env cfg]
  show ?thesis by simp
qed

lemma chain_frame:
  assumes "set xs \<subseteq> set (stages_of marshal marshal_env cfg)" "chain_from n (map fst xs) e w = (r, w')"
  shows "stage_keeps_view (view w) (view w')"
  using assms
proof (induction xs arbitrary: n w)
  case Nil
  then show ?case by simp
next
  case (Cons x xs)
  obtain q w1 where q: "fst x e w = (q, w1)" by (cases "fst x e w")
  have "x \<in> set (stages_of marshal marshal_env cfg)" using Cons.prems(1) by simp
  then have "fst x = persist_stage marshal insert_event \<or> (\<exists>p. fst x = forward_stage marshal_env produce_sync meter p)"
    by (auto simp: stages_of_def split: option.splits)
  with q have "stage_keeps_view (view w) (view w1)"
    using stage_frame by metis
  then show ?case using Cons q by (auto split: option.splits intro: stage_keeps_view_trans)
qed

text \<open>The chain is a handler, and so is the chain behind the cache.\<close>

lemma Chain_frame:
  "Chain_Handle (map fst (stages_of marshal marshal_env cfg)) e w = (r, w') \<Longrightarrow>
     stage_keeps_view (view w) (view w')"
  unfolding Chain_Handle_def by (rule chain_frame [OF order_refl])

lemma event_finished_keys [simp]:
  "event_finished cfg i (v\<lparr>sv_keys := ks\<rparr>) = event_finished cfg i v"
  by (simp add: finished_defs)

lemma dedup_stage_of:
  "dedup_stage (Chain_Handle (map fst (stages_of marshal marshal_env cfg))) (\<lambda>_. True)
     (\<lambda>i w. event_finished cfg i (view w)) (Seen exists_key meter c) (MarkSeen set_key meter c)
     (\<lambda>w. marked c (view w))"
proof (intro dedup_stage.intro chain_handler dedup_stage_axioms.intro)
  fix i w w' assume "Seen exists_key meter c i w = (Inr True, w')"
  then show "i \<in> marked c (view w)" by (rule Seen_hit)
next
  fix i w r w' assume "Seen exists_key meter c i w = (r, w')"
  then show "marked c (view w') = marked c (view w) \<and> (True \<longrightarrow> True) \<and>
      (\<forall>j. event_finished cfg j (view w') = event_finished cfg j (view w))"
    by (simp add: Seen_view)
next
  fix i w q w' assume "MarkSeen set_key meter c i w = (q, w')"
  then show "marked c (view w') \<subseteq> insert i (marked c (view w)) \<and> (True \<longrightarrow> True) \<and>
      (\<forall>j. event_finished cfg j (view w') = event_finished cfg j (view w))"
    by (auto simp: marked_def key_inject dest!: MarkSeen_view)
next
  fix e w q w' assume "Chain_Handle (map fst (stages_of marshal marshal_env cfg)) e w = (q, w')"
  then show "marked c (view w') = marked c (view w)" using Chain_frame by (fastforce simp: marked_def stage_keeps_view_def)
qed

lemma root_handler_stages:
  "root_handler marshal marshal_env insert_event exists_key set_key produce_sync meter cfg =
     (case hc_redis cfg of
        None \<Rightarrow> Chain_Handle (map fst (stages_of marshal marshal_env cfg))
      | Some c \<Rightarrow> DedupHandler_Handle (Seen exists_key meter c) (MarkSeen set_key meter c)
                    (Chain_Handle (map fst (stages_of marshal marshal_env cfg))))"
  by (simp add: root_handler_def stages_of_def split: option.split)

theorem root_is_handler:
  "event_handler (root_handler marshal marshal_env insert_event exists_key set_key produce_sync meter cfg)
     (\<lambda>w. cache_sound cfg (view w)) (\<lambda>i w. event_finished cfg i (view w))"
proof (cases "hc_redis cfg")
  case None
  then show ?thesis
    using chain_handler [of marshal marshal_env cfg]
    by (simp add: root_handler_stages cache_sound_def)
next
  case (Some c)
  note D = dedup_stage_of [of marshal marshal_env cfg c]
  have "dedup_stage.dedup_inv (\<lambda>_. True) (\<lambda>i w. event_finished cfg i (view w)) (\<lambda>w. marked c (view w)) =
      (\<lambda>w. cache_sound cfg (view w))"
    using Some by (auto simp: fun_eq_iff dedup_stage.dedup_inv_def [OF D] cache_sound_def)
  with dedup_stage.dedup_is_handler [OF D] Some show ?thesis by (simp add: root_handler_stages)
qed

text \<open>
  No stage touches the replay cursor, only the committer moves it; and no stage stores an event
  twice.
\<close>

lemma root_handler_frame:
  assumes "root_handler marshal marshal_env insert_event exists_key set_key produce_sync meter cfg e w = (r, w')"
  shows "sv_replay (view w') = sv_replay (view w) \<and> (rows_unique (view w) \<longrightarrow> rows_unique (view w'))"
proof (cases "hc_redis cfg")
  case None
  then show ?thesis using assms by (auto simp: root_handler_stages stage_keeps_view_def dest: Chain_frame)
next
  case (Some c)
  obtain s w1 where s: "Seen exists_key meter c (de_EventID e) w = (s, w1)"
    by (cases "Seen exists_key meter c (de_EventID e) w")
  obtain q w2 where q: "Chain_Handle (map fst (stages_of marshal marshal_env cfg)) e w1 = (q, w2)"
    by (cases "Chain_Handle (map fst (stages_of marshal marshal_env cfg)) e w1")
  obtain m w3 where m: "MarkSeen set_key meter c (de_EventID e) w2 = (m, w3)"
    by (cases "MarkSeen set_key meter c (de_EventID e) w2")
  have "w' = w1 \<or> w' = w2 \<or> w' = w3"
    using assms Some s q m
    by (auto simp: root_handler_stages DedupHandler_Handle_def split: sum.splits bool.splits option.splits)
  moreover have "view w1 = view w" using Seen_view [OF s] .
  moreover have "stage_keeps_view (view w1) (view w2)" using Chain_frame [OF q] .
  moreover have "sv_replay (view w3) = sv_replay (view w2)" "sv_rows (view w3) = sv_rows (view w2)"
    using MarkSeen_view [OF m] by auto
  ultimately show ?thesis by (auto simp: stage_keeps_view_def rows_unique_def)
qed

lemma persist_redelivered:
  assumes "persist_stage marshal insert_event e w = (r, w')" "persisted (de_EventID e) (view w)"
  shows "view w' = view w"
proof (cases "PersistEvent marshal insert_event e w")
  case (Pair q w1)
  with assms have "w' = w1" by (auto simp: persist_stage_def PersistHandler_Handle_def split: sum.splits)
  with Pair assms(2) show ?thesis by (cases rule: PersistEvent_cases) (auto simp: persisted_def)
qed

lemma chain_redelivered:
  assumes "Chain_Handle (map fst (stages_of marshal marshal_env cfg)) e w = (r, w')" "persisted (de_EventID e) (view w)"
  shows "sv_rows (view w') = sv_rows (view w)"
proof -
  obtain q w1 where p: "persist_stage marshal insert_event e w = (q, w1)" by fastforce
  then have v: "view w1 = view w" using persist_redelivered assms(2) by blast
  show ?thesis
    using assms(1) p v
    by (cases q; cases "hc_kafka cfg")
       (auto simp: Chain_Handle_def stages_of_def dest!: forward_run split: prod.splits option.splits)
qed

lemma root_redelivered:
  assumes "root_handler marshal marshal_env insert_event exists_key set_key produce_sync meter cfg e w = (r, w')"
    "persisted (de_EventID e) (view w)"
  shows "sv_rows (view w') = sv_rows (view w)"
proof (cases "hc_redis cfg")
  case None
  then show ?thesis using assms by (simp add: root_handler_stages chain_redelivered)
next
  case (Some c)
  obtain s w1 where s: "Seen exists_key meter c (de_EventID e) w = (s, w1)" by fastforce
  obtain q w2 where q: "Chain_Handle (map fst (stages_of marshal marshal_env cfg)) e w1 = (q, w2)" by fastforce
  obtain m w3 where m: "MarkSeen set_key meter c (de_EventID e) w2 = (m, w3)" by fastforce
  have "w' = w1 \<or> w' = w2 \<or> w' = w3"
    using assms(1) Some s q m
    by (auto simp: root_handler_stages DedupHandler_Handle_def split: sum.splits bool.splits option.splits)
  moreover have v: "view w1 = view w" using Seen_view [OF s] .
  moreover have "sv_rows (view w2) = sv_rows (view w1)" using chain_redelivered [OF q] assms(2) v by simp
  moreover have "sv_rows (view w3) = sv_rows (view w2)" using MarkSeen_view [OF m] by auto
  ultimately show ?thesis by auto
qed

end

section \<open>The handler locales on the environment\<close>

interpretation env_chain: chain_stages "env.stages_of marshal marshal_env cfg" "\<lambda>_. True"
  for marshal marshal_env cfg
  by (rule env.chain_stages_of)

interpretation env_dedup: dedup_stage "Chain_Handle (map fst (env.stages_of marshal marshal_env cfg))" "\<lambda>_. True"
  "\<lambda>i w. event_finished cfg i (ev_view w)" "Seen env_exists_key env_meter c" "MarkSeen env_set_key env_meter c"
  "\<lambda>w. marked c (ev_view w)"
  for marshal marshal_env cfg c
  by (rule env.dedup_stage_of)

interpretation env_root: event_handler
  "root_handler marshal marshal_env env_insert_event env_exists_key env_set_key env_produce_sync env_meter cfg"
  "\<lambda>w. cache_sound cfg (ev_view w)" "\<lambda>i w. event_finished cfg i (ev_view w)"
  for marshal marshal_env cfg
  by (rule env.root_is_handler)

section \<open>Properties\<close>

text \<open>An event, a full configuration and an environment for the witnesses.\<close>

definition sample_event :: "bytes DecodedEvent" where
  "sample_event = \<lparr>de_Topic = ''/event/A'', de_EventID = ''u1'', de_SchemaID = ''s1'', de_ReplayID = Some [9],
     de_Payload = [(''f'', [1])], de_ReceivedAt = 0\<rparr>"

definition full_config :: handler_config where
  "full_config =
     \<lparr>hc_kafka = Some \<lparr>kp_topic = ''out'', kp_timeout = 10, kp_partitions = 1, kp_replication = 1\<rparr>,
      hc_redis = Some \<lparr>rc_prefix = ''p:'', rc_ttl = 10, rc_timeout = 1\<rparr>\<rparr>"

definition empty_env :: env where
  "empty_env = \<lparr>ev_view = \<lparr>sv_rows = [], sv_replay = Map.empty, sv_keys = {}, sv_log = []\<rparr>,
     ev_serial = 1, ev_script = [], ev_metrics = []\<rparr>"

abbreviation env_handler :: "handler_config \<Rightarrow> (bytes, env) handler" where
  "env_handler \<equiv> root_handler (\<lambda>p. Inr (concat (map snd p))) (\<lambda>_. Inr [0]) env_insert_event env_exists_key
     env_set_key env_produce_sync env_meter"

lemmas env_run_defs = root_handler_def persist_stage_def forward_stage_def Chain_Handle_def DedupHandler_Handle_def
  PersistHandler_Handle_def ForwardHandler_Handle_def Seen_def MarkSeen_def Produce_def key_def store_defs env_defs
  env_call_def env_act_def next_fault_def sql_defs env_meter_def empty_env_def full_config_def sample_event_def

text \<open>
  C9. When the root handler returns nil, every configured stage has taken effect for the event: its
  row is in the database and, with Kafka enabled, a record with its ID is in the topic. This also
  holds on a dedup hit, because the handler keeps the cache sound whatever fails on the way: a
  UUID it remembers is one whose stages have all taken effect.
\<close>

theorem handled_event_is_finished:
  assumes "services insert_event select_replay upsert_replay exists_key set_key produce_sync meter view"
    and "cache_sound cfg (view w)"
    and "root_handler marshal marshal_env insert_event exists_key set_key produce_sync meter cfg e w = (r, w')"
  shows "cache_sound cfg (view w') \<and> (r = None \<longrightarrow> event_finished cfg (de_EventID e) (view w'))"
  using services.root_is_handler [OF assms(1), of marshal marshal_env cfg] assms(2,3)
  by (auto dest: event_handler.handle_inv event_handler.handle_ok)

theorem handled_event_is_finished_witness:
  "fst (env_handler full_config sample_event empty_env) = None \<and>
   event_finished full_config ''u1'' (ev_view (snd (env_handler full_config sample_event empty_env)))"
proof -
  obtain w' where run: "env_handler full_config sample_event empty_env = (None, w')" by (simp add: env_run_defs)
  have "cache_sound full_config (ev_view empty_env)"
    by (simp add: cache_sound_def marked_def empty_env_def)
  from handled_event_is_finished [OF env.services_axioms this run] run show ?thesis
    by (simp add: sample_event_def)
qed

text \<open>
  C10. The handler never touches a replay cursor, keeps the UNIQUE constraint of the event table,
  and an event that is already stored gets no second row, whatever the outcome of the call: a
  redelivered event is absorbed.
\<close>

theorem handler_keeps_store:
  assumes "services insert_event select_replay upsert_replay exists_key set_key produce_sync meter view"
    and "root_handler marshal marshal_env insert_event exists_key set_key produce_sync meter cfg e w = (r, w')"
  shows "sv_replay (view w') = sv_replay (view w) \<and> (rows_unique (view w) \<longrightarrow> rows_unique (view w')) \<and>
    (persisted (de_EventID e) (view w) \<longrightarrow> sv_rows (view w') = sv_rows (view w))"
  using services.root_handler_frame [OF assms] services.root_redelivered [OF assms] by simp

theorem handler_keeps_store_witness:
  "\<exists>r w'. env_handler full_config sample_event (empty_env\<lparr>ev_script := [Fails, ReplyLost]\<rparr>) = (r, w') \<and>
     sv_replay (ev_view w') = sv_replay (ev_view empty_env) \<and> rows_unique (ev_view w')"
proof -
  let ?w = "empty_env\<lparr>ev_script := [Fails, ReplyLost]\<rparr>"
  obtain r w' where run: "env_handler full_config sample_event ?w = (r, w')" by fastforce
  have "rows_unique (ev_view ?w)" by (simp add: rows_unique_def empty_env_def)
  with handler_keeps_store [OF env.services_axioms run] run show ?thesis by simp
qed



end
