(* ===== verification/Schema_Cache.thy ===== *)
theory Schema_Cache
  imports Services
begin

text \<open>
  The schema cache and the payload decoder of \<open>src/internal/schema\<close>. Fetching the schema text
  (\<open>Source\<close>), parsing it (\<open>avro.Parse\<close>) and decoding a payload with it (\<open>avro.Unmarshal\<close>) are
  parameters; \<open>'sch\<close> is the library's schema type.
\<close>

record 'sch cache =
  ca_parsed :: "string \<rightharpoonup> 'sch"

definition NewCache :: "'sch cache" where
  "NewCache = \<lparr>ca_parsed = Map.empty\<rparr>"

text \<open>The function \<open>singleflight\<close> runs for a missing schema ID, at most one at a time per ID.\<close>

definition fetch_schema ::
  "(string \<Rightarrow> ('w, string) call) \<Rightarrow> (string \<Rightarrow> go_error + 'sch) \<Rightarrow> string \<Rightarrow> ('sch cache \<times> 'w, 'sch) call"
where
  "fetch_schema src parse i = (\<lambda>(c, w).
     (case ca_parsed c i of
        Some sch \<Rightarrow> (Inr sch, (c, w))
      | None \<Rightarrow>
          (case src i w of
             (Inl err, w') \<Rightarrow> (Inl (Errorf ''fetch schema %q: %w'' [i] (Some err)), (c, w'))
           | (Inr raw, w') \<Rightarrow>
               (case parse raw of
                  Inl err \<Rightarrow> (Inl (Errorf ''parse schema %q: %w'' [i] (Some err)), (c, w'))
                | Inr sch \<Rightarrow> (Inr sch, (c\<lparr>ca_parsed := (ca_parsed c)(i \<mapsto> sch)\<rparr>, w'))))))"

definition Cache_Get ::
  "(string \<Rightarrow> ('w, string) call) \<Rightarrow> (string \<Rightarrow> go_error + 'sch) \<Rightarrow> (metric \<Rightarrow> 'w \<Rightarrow> 'w) \<Rightarrow> string \<Rightarrow>
   ('sch cache \<times> 'w, 'sch) call"
where
  "Cache_Get src parse meter i = (\<lambda>(c, w).
     (case ca_parsed c i of
        Some sch \<Rightarrow> (Inr sch, (c, meter (Inc ''schema_cache_hits_total'' []) w))
      | None \<Rightarrow> fetch_schema src parse i (c, meter (Inc ''schema_cache_misses_total'' []) w)))"

text \<open>\<open>len(payload) == 0\<close> holds for \<open>nil\<close> and for an empty slice.\<close>

definition Decode ::
  "('sch \<Rightarrow> bytes \<Rightarrow> go_error + 'p) \<Rightarrow> 'sch option \<Rightarrow> bytes option \<Rightarrow> go_error + 'p"
where
  "Decode unmarshal schema payload =
     (case schema of
        None \<Rightarrow> Inl (ErrorsNew ''nil schema'')
      | Some sch \<Rightarrow>
          (case payload of
             None \<Rightarrow> Inl (ErrorsNew ''empty payload'')
           | Some bs \<Rightarrow>
               if bs = [] then Inl (ErrorsNew ''empty payload'')
               else (case unmarshal sch bs of
                       Inl err \<Rightarrow> Inl (Errorf ''avro unmarshal: %w'' [] (Some err))
                     | Inr result \<Rightarrow> Inr result)))"

section \<open>What the cache promises\<close>

text \<open>
  The schema texts the source can return for an ID. Every entry of the cache is the parse of one
  of them.
\<close>

definition source_texts :: "(string \<Rightarrow> ('w, string) call) \<Rightarrow> string \<Rightarrow> string set" where
  "source_texts src i = {raw. \<exists>w w'. src i w = (Inr raw, w')}"

definition schema_for :: "(string \<Rightarrow> ('w, string) call) \<Rightarrow> (string \<Rightarrow> go_error + 'sch) \<Rightarrow> string \<Rightarrow> 'sch \<Rightarrow> bool" where
  "schema_for src parse i sch \<longleftrightarrow> (\<exists>raw \<in> source_texts src i. parse raw = Inr sch)"

definition cache_ok :: "(string \<Rightarrow> ('w, string) call) \<Rightarrow> (string \<Rightarrow> go_error + 'sch) \<Rightarrow> 'sch cache \<Rightarrow> bool" where
  "cache_ok src parse c \<longleftrightarrow> (\<forall>i sch. ca_parsed c i = Some sch \<longrightarrow> schema_for src parse i sch)"

lemma NewCache_ok: "cache_ok src parse NewCache"
  by (simp add: cache_ok_def NewCache_def)

lemma Cache_Get_cases:
  assumes "Cache_Get src parse meter i (c, w) = (r, (c', w'))"
  obtains (hit) sch where "ca_parsed c i = Some sch" "r = Inr sch" "c' = c"
  | (fetched) sch where "ca_parsed c i = None" "schema_for src parse i sch" "r = Inr sch"
      "c' = c\<lparr>ca_parsed := (ca_parsed c)(i \<mapsto> sch)\<rparr>"
  | (failed) err where "ca_parsed c i = None" "r = Inl err" "c' = c"
proof (cases "ca_parsed c i")
  case (Some sch)
  then show thesis using assms by (intro hit) (auto simp: Cache_Get_def)
next
  case None
  let ?w = "meter (Inc ''schema_cache_misses_total'' []) w"
  obtain q w1 where q: "src i ?w = (q, w1)" by (cases "src i ?w")
  show thesis
  proof (cases q)
    case (Inl err)
    then show thesis using assms None q by (intro failed) (auto simp: Cache_Get_def fetch_schema_def)
  next
    case (Inr raw)
    then have raw: "raw \<in> source_texts src i" using q by (auto simp: source_texts_def)
    show thesis
    proof (cases "parse raw")
      case (Inl err)
      then show thesis
        using assms None q \<open>q = Inr raw\<close> by (intro failed) (auto simp: Cache_Get_def fetch_schema_def)
    next
      case (Inr sch)
      then have "schema_for src parse i sch" using raw by (auto simp: schema_for_def)
      then show thesis
        using assms None q \<open>q = Inr raw\<close> Inr by (intro fetched) (auto simp: Cache_Get_def fetch_schema_def)
    qed
  qed
qed

lemma Cache_Get_ok:
  assumes "cache_ok src parse c" "Cache_Get src parse meter i (c, w) = (r, (c', w'))"
  shows "cache_ok src parse c' \<and> (\<forall>sch. r = Inr sch \<longrightarrow> schema_for src parse i sch)"
  using assms(2) by (cases rule: Cache_Get_cases) (use assms(1) in \<open>auto simp: cache_ok_def map_upd_Some_iff\<close>)

text \<open>A cached schema never changes, and once cached it is served without the source.\<close>

lemma Cache_Get_keeps:
  assumes "Cache_Get src parse meter i (c, w) = (r, (c', w'))" "ca_parsed c j = Some sch"
  shows "ca_parsed c' j = Some sch"
  using assms(1) by (cases rule: Cache_Get_cases) (use assms(2) in auto)

lemma Cache_Get_caches:
  assumes "Cache_Get src parse meter i (c, w) = (Inr sch, (c', w'))"
  shows "ca_parsed c' i = Some sch"
  using assms by (cases rule: Cache_Get_cases) auto

lemma Cache_Get_hit:
  "ca_parsed c i = Some sch \<Longrightarrow>
     Cache_Get src parse meter i (c, w) = (Inr sch, (c, meter (Inc ''schema_cache_hits_total'' []) w))"
  by (simp add: Cache_Get_def)

section \<open>One caller\<close>

text \<open>
  The schema cache returns for an ID only the parse of a text the source returned for that ID;
  once it has answered, the same ID is answered with the same schema and without the source; a
  failed lookup (source or parse error) caches nothing, so the next call tries again.
\<close>

lemma cache_serves_fetched_schema:
  assumes "cache_ok src parse c" "Cache_Get src parse meter i (c, w) = (r, (c', w'))"
  shows "cache_ok src parse c' \<and>
    (\<forall>sch. r = Inr sch \<longrightarrow> schema_for src parse i sch \<and>
       (\<forall>w2. Cache_Get src parse meter i (c', w2) =
          (Inr sch, (c', meter (Inc ''schema_cache_hits_total'' []) w2)))) \<and>
    (\<forall>err. r = Inl err \<longrightarrow> c' = c)"
proof -
  have failed: "\<forall>err. r = Inl err \<longrightarrow> c' = c" using assms(2) by (cases rule: Cache_Get_cases) auto
  have "ca_parsed c' i = Some sch" if "r = Inr sch" for sch
    using assms(2) that by (intro Cache_Get_caches) simp
  then have hit: "Cache_Get src parse meter i (c', w2) = (Inr sch, (c', meter (Inc ''schema_cache_hits_total'' []) w2))"
    if "r = Inr sch" for sch w2
    using that by (intro Cache_Get_hit) simp
  show ?thesis using Cache_Get_ok [OF assms] failed by (intro conjI allI impI hit) simp_all
qed

end
