(* ===== verification/Worker_Pool.thy ===== *)
theory Worker_Pool
  imports Schema_Cache Events
begin

text \<open>
  The worker pool of \<open>src/internal/worker/pool.go\<close>: the retry loop and the processing of one
  event. The state \<open>'s\<close> is everything the callbacks act on; \<open>canceled\<close> reads \<open>ctx.Err()\<close>, and
  \<open>sleep\<close> is the \<open>select\<close> between \<open>ctx.Done()\<close> and the backoff timer (\<open>True\<close>: canceled first).
\<close>

definition retryMinDelay :: duration where "retryMinDelay = 100 * 10 ^ 6"
definition retryMaxDelay :: duration where "retryMaxDelay = 10 * 10 ^ 9"

definition next_delay :: "duration \<Rightarrow> duration" where
  "next_delay delay = min (delay * 2) retryMaxDelay"

text \<open>
  The loop has no bound: it runs until \<open>fn\<close> succeeds or the context is canceled, so the function
  is partial; \<open>None\<close> is the loop that never returns. The inner option is the boolean result
  together with what the closure assigned.
\<close>

partial_function (option) retry_from ::
  "('s \<Rightarrow> bool) \<Rightarrow> (duration \<Rightarrow> 's \<Rightarrow> bool \<times> 's) \<Rightarrow> (metric \<Rightarrow> 's \<Rightarrow> 's) \<Rightarrow> string \<Rightarrow>
   ('s, 'a) call \<Rightarrow> duration \<Rightarrow> 's \<Rightarrow> ('a option \<times> 's) option"
where
  "retry_from canceled sleep meter stage fn delay s =
     (case fn s of
        (Inr a, s1) \<Rightarrow> Some (Some a, s1)
      | (Inl err, s1) \<Rightarrow>
          if canceled s1 then Some (None, s1)
          else (case sleep delay (meter (Inc ''events_failed_total'' [stage]) s1) of
                  (stopped, s2) \<Rightarrow>
                    if stopped then Some (None, s2)
                    else retry_from canceled sleep meter stage fn (next_delay delay) s2))"

definition retry ::
  "('s \<Rightarrow> bool) \<Rightarrow> (duration \<Rightarrow> 's \<Rightarrow> bool \<times> 's) \<Rightarrow> (metric \<Rightarrow> 's \<Rightarrow> 's) \<Rightarrow> string \<Rightarrow>
   ('s, 'a) call \<Rightarrow> 's \<Rightarrow> ('a option \<times> 's) option"
where
  "retry canceled sleep meter stage fn = retry_from canceled sleep meter stage fn retryMinDelay"

definition decoded_event :: "RawEvent \<Rightarrow> 'v payload \<Rightarrow> 'v DecodedEvent" where
  "decoded_event raw payload =
     \<lparr>de_Topic = re_Topic raw, de_EventID = GetId (GetEvent (re_Event raw)),
      de_SchemaID = GetSchemaId (GetEvent (re_Event raw)), de_ReplayID = GetReplayId (re_Event raw),
      de_Payload = payload, de_ReceivedAt = re_ReceivedAt raw\<rparr>"

text \<open>An \<open>error\<close>-returning call as a call that returns a unit.\<close>

definition as_call :: "'s action \<Rightarrow> ('s, unit) call" where
  "as_call act s = (case act s of (Some err, s') \<Rightarrow> (Inl err, s') | (None, s') \<Rightarrow> (Inr (), s'))"

definition process ::
  "('s \<Rightarrow> bool) \<Rightarrow> (duration \<Rightarrow> 's \<Rightarrow> bool \<times> 's) \<Rightarrow> (metric \<Rightarrow> 's \<Rightarrow> 's) \<Rightarrow>
   (string \<Rightarrow> ('s, 'sch) call) \<Rightarrow> ('sch \<Rightarrow> bytes \<Rightarrow> go_error + 'v payload) \<Rightarrow>
   ('v DecodedEvent \<Rightarrow> 's action) \<Rightarrow> (RawEvent \<Rightarrow> 's \<Rightarrow> 's) \<Rightarrow> RawEvent \<Rightarrow> 's \<Rightarrow> 's option"
where
  "process canceled sleep meter get unmarshal handle ack raw s =
     (case retry canceled sleep meter ''schema'' (get (GetSchemaId (GetEvent (re_Event raw)))) s of
        None \<Rightarrow> None
      | Some (None, s1) \<Rightarrow> Some s1
      | Some (Some sch, s1) \<Rightarrow>
          (case Decode unmarshal (Some sch) (GetPayload (GetEvent (re_Event raw))) of
             Inl err \<Rightarrow> Some (ack raw (meter (Inc ''events_failed_total'' [''decode'']) s1))
           | Inr payload \<Rightarrow>
               (case retry canceled sleep meter ''handler''
                       (as_call (handle (decoded_event raw payload))) s1 of
                  None \<Rightarrow> None
                | Some (None, s2) \<Rightarrow> Some s2
                | Some (Some _, s2) \<Rightarrow>
                    Some (ack raw (meter (Observe ''processing_latency_seconds'' [])
                                    (meter (Inc ''events_processed_total'' []) s2))))))"

section \<open>The retry loop\<close>

text \<open>The state before attempt \<open>n\<close>, and the delay after it, when every earlier attempt fails.\<close>

fun attempt_state ::
  "(duration \<Rightarrow> 's \<Rightarrow> bool \<times> 's) \<Rightarrow> (metric \<Rightarrow> 's \<Rightarrow> 's) \<Rightarrow> string \<Rightarrow> ('s, 'a) call \<Rightarrow> duration \<Rightarrow> nat \<Rightarrow> 's \<Rightarrow> 's"
where
  "attempt_state sleep meter stage fn delay 0 s = s"
| "attempt_state sleep meter stage fn delay (Suc n) s =
     attempt_state sleep meter stage fn (next_delay delay) n
       (snd (sleep delay (meter (Inc ''events_failed_total'' [stage]) (snd (fn s)))))"

text \<open>Attempt \<open>n\<close> fails and the loop goes on: no cancellation before or during the backoff.\<close>

definition fails_at ::
  "('s \<Rightarrow> bool) \<Rightarrow> (duration \<Rightarrow> 's \<Rightarrow> bool \<times> 's) \<Rightarrow> (metric \<Rightarrow> 's \<Rightarrow> 's) \<Rightarrow> string \<Rightarrow> ('s, 'a) call \<Rightarrow>
   duration \<Rightarrow> 's \<Rightarrow> bool"
where
  "fails_at canceled sleep meter stage fn delay s \<longleftrightarrow>
     (\<exists>err. fst (fn s) = Inl err) \<and> \<not> canceled (snd (fn s)) \<and>
     \<not> fst (sleep delay (meter (Inc ''events_failed_total'' [stage]) (snd (fn s))))"

fun delay_at :: "nat \<Rightarrow> duration \<Rightarrow> duration" where
  "delay_at 0 delay = delay"
| "delay_at (Suc n) delay = delay_at n (next_delay delay)"

lemma retry_from_step:
  "fails_at canceled sleep meter stage fn delay s \<Longrightarrow>
     retry_from canceled sleep meter stage fn delay s =
       retry_from canceled sleep meter stage fn (next_delay delay)
         (snd (sleep delay (meter (Inc ''events_failed_total'' [stage]) (snd (fn s)))))"
  by (subst retry_from.simps) (auto simp: fails_at_def split: prod.splits sum.splits)

lemma retry_from_reaches:
  assumes "\<forall>k < n. fails_at canceled sleep meter stage fn (delay_at k delay)
             (attempt_state sleep meter stage fn delay k s)"
  shows "retry_from canceled sleep meter stage fn delay s =
    retry_from canceled sleep meter stage fn (delay_at n delay) (attempt_state sleep meter stage fn delay n s)"
  using assms
proof (induction n arbitrary: delay s)
  case 0
  then show ?case by simp
next
  case (Suc n)
  have "fails_at canceled sleep meter stage fn delay s" using Suc.prems by force
  moreover have "\<forall>k < n. fails_at canceled sleep meter stage fn (delay_at k (next_delay delay))
      (attempt_state sleep meter stage fn (next_delay delay) k
        (snd (sleep delay (meter (Inc ''events_failed_total'' [stage]) (snd (fn s))))))"
    using Suc.prems by (metis Suc_less_eq attempt_state.simps(2) delay_at.simps(2))
  ultimately show ?case by (simp add: retry_from_step Suc.IH)
qed

lemma retry_from_done:
  "fn s = (Inr a, s') \<Longrightarrow> retry_from canceled sleep meter stage fn delay s = Some (Some a, s')"
  by (subst retry_from.simps) simp

text \<open>
  An invariant rule: what \<open>fn\<close>, the metric and the timer keep holds when the loop returns, and a
  returned value comes from a successful call.
\<close>

definition loop_inv ::
  "('s \<Rightarrow> bool) \<Rightarrow> ('s, 'a) call \<Rightarrow> (metric \<Rightarrow> 's \<Rightarrow> 's) \<Rightarrow> (duration \<Rightarrow> 's \<Rightarrow> bool \<times> 's) \<Rightarrow> bool"
where
  "loop_inv I fn meter sleep \<longleftrightarrow>
     (\<forall>t. I t \<longrightarrow> I (snd (fn t))) \<and> (\<forall>m t. I t \<longrightarrow> I (meter m t)) \<and> (\<forall>d t. I t \<longrightarrow> I (snd (sleep d t)))"

text \<open>
  What one call of the loop can return: the value of a successful attempt made in a state that
  satisfies \<open>I\<close>, or nothing, once the context is canceled.
\<close>

definition retry_result ::
  "('s \<Rightarrow> bool) \<Rightarrow> ('s \<Rightarrow> bool) \<Rightarrow> (duration \<Rightarrow> 's \<Rightarrow> bool \<times> 's) \<Rightarrow> ('s, 'a) call \<Rightarrow> 'a option \<times> 's \<Rightarrow> bool" where
  "retry_result I canceled sleep fn y \<longleftrightarrow>
     I (snd y) \<and> (\<forall>a. fst y = Some a \<longrightarrow> (\<exists>t. I t \<and> fn t = (Inr a, snd y))) \<and>
     (fst y = None \<longrightarrow> canceled (snd y) \<or> (\<exists>d t. sleep d t = (True, snd y)))"

lemma retry_round:
  assumes L: "loop_inv I fn meter sleep" and I: "I s"
    and eq: "(case fn s of
        (Inr a, s1) \<Rightarrow> Some (Some a, s1)
      | (Inl err, s1) \<Rightarrow>
          if canceled s1 then Some (None, s1)
          else (case sleep delay (meter (Inc ''events_failed_total'' [stage]) s1) of
                  (stopped, s2) \<Rightarrow> if stopped then Some (None, s2) else rest s2)) = Some y"
    and rest: "\<And>s2. rest s2 = Some y \<Longrightarrow> I s2 \<Longrightarrow> retry_result I canceled sleep fn y"
  shows "retry_result I canceled sleep fn y"
proof -
  obtain q s1 where f1: "fn s = (q, s1)" by (cases "fn s")
  obtain b s2 where f2: "sleep delay (meter (Inc ''events_failed_total'' [stage]) s1) = (b, s2)"
    by (cases "sleep delay (meter (Inc ''events_failed_total'' [stage]) s1)")
  have I1: "I s1" using L I f1 unfolding loop_inv_def by (metis snd_conv)
  have I2: "I s2" using L I1 f2 unfolding loop_inv_def by (metis snd_conv)
  consider (ok) a where "q = Inr a" "y = (Some a, s1)" | (canceled) "canceled s1" "y = (None, s1)"
    | (slept) b "y = (None, s2)" | (again) "rest s2 = Some y"
    using eq f1 f2 by (cases q; cases "canceled s1"; cases b) auto
  then show ?thesis
    by cases (use I I1 I2 f1 f2 rest in \<open>auto simp: retry_result_def\<close>)
qed

lemma retry_from_inv:
  fixes s :: 's and fn :: "('s, 'a) call"
  assumes "retry_from canceled sleep meter stage fn delay s = Some y"
  shows "loop_inv I fn meter sleep \<longrightarrow> I s \<longrightarrow> retry_result I canceled sleep fn y"
proof (rule retry_from.raw_induct [where P = "\<lambda>canceled sleep meter stage fn delay s y.
    loop_inv I fn meter sleep \<longrightarrow> I s \<longrightarrow> retry_result I canceled sleep fn y", OF _ assms], intro impI)
  fix f :: "('s \<Rightarrow> bool) \<Rightarrow> (duration \<Rightarrow> 's \<Rightarrow> bool \<times> 's) \<Rightarrow> (metric \<Rightarrow> 's \<Rightarrow> 's) \<Rightarrow> string \<Rightarrow>
      ('s, 'a) call \<Rightarrow> duration \<Rightarrow> 's \<Rightarrow> ('a option \<times> 's) option"
    and canceled sleep meter stage and fn :: "('s, 'a) call" and delay s y
  assume IH: "\<And>canceled sleep meter stage fn delay s y. f canceled sleep meter stage fn delay s = Some y \<Longrightarrow>
      loop_inv I fn meter sleep \<longrightarrow> I s \<longrightarrow> retry_result I canceled sleep fn y"
    and L: "loop_inv I fn meter sleep" and I: "I s"
    and eq: "(case fn s of
        (Inr a, s1) \<Rightarrow> Some (Some a, s1)
      | (Inl err, s1) \<Rightarrow>
          if canceled s1 then Some (None, s1)
          else (case sleep delay (meter (Inc ''events_failed_total'' [stage]) s1) of
                  (stopped, s2) \<Rightarrow>
                    if stopped then Some (None, s2)
                    else f canceled sleep meter stage fn (next_delay delay) s2)) = Some y"
  show "retry_result I canceled sleep fn y" using retry_round [OF L I eq] IH L by blast
qed

text \<open>The backoff schedule: it doubles from 100 ms and stops at 10 s.\<close>

lemma delay_at_cap: "delay_at n retryMaxDelay = retryMaxDelay"
  by (induction n) (simp_all add: next_delay_def retryMaxDelay_def)

lemma delay_at_eq: "0 < d \<Longrightarrow> d \<le> retryMaxDelay \<Longrightarrow> delay_at n d = min (d * 2 ^ n) retryMaxDelay"
proof (induction n arbitrary: d)
  case 0
  then show ?case by simp
next
  case (Suc n)
  show ?case
  proof (cases "d * 2 \<le> retryMaxDelay")
    case True
    then show ?thesis using Suc by (simp add: next_delay_def min_def mult.assoc mult.left_commute)
  next
    case False
    have "d * 2 \<le> d * 2 ^ Suc n" using Suc.prems by simp
    then show ?thesis using False by (simp add: next_delay_def min_def delay_at_cap del: power_Suc)
  qed
qed

section \<open>Processing one event\<close>

text \<open>
  The three ways \<open>process\<close> returns: abandoned on cancellation without an ack, skipped because the
  payload does not decode, or handled. \<open>I\<close> is any property the callbacks other than \<open>ack\<close> keep.
\<close>

lemma stage_outcome:
  assumes "retry canceled sleep meter stage fn s = Some (f, s1)" "loop_inv I fn meter sleep" "I s"
  obtains (stopped) "f = None" "I s1" "canceled s1 \<or> (\<exists>d t. sleep d t = (True, s1))"
  | (ok) a t where "f = Some a" "I s1" "I t" "fn t = (Inr a, s1)"
  using retry_from_inv [OF assms(1) [unfolded retry_def], of I] assms(2,3) by (cases f) (auto simp: retry_result_def)

lemma process_result:
  assumes run: "process canceled sleep meter get unmarshal handle ack raw s = Some s'" and I: "I s"
    and G: "\<And>i. loop_inv I (get i) meter sleep" and H: "\<And>e. loop_inv I (as_call (handle e)) meter sleep"
  obtains (abandoned) "I s'" "canceled s' \<or> (\<exists>d t. sleep d t = (True, s'))"
  | (skipped) sch err t s1 where "I s1" "get (GetSchemaId (GetEvent (re_Event raw))) t = (Inr sch, s1)"
      "Decode unmarshal (Some sch) (GetPayload (GetEvent (re_Event raw))) = Inl err"
      "s' = ack raw (meter (Inc ''events_failed_total'' [''decode'']) s1)"
  | (handled) sch payload t s2 where "I t" "I s2"
      "Decode unmarshal (Some sch) (GetPayload (GetEvent (re_Event raw))) = Inr payload"
      "handle (decoded_event raw payload) t = (None, s2)"
      "s' = ack raw (meter (Observe ''processing_latency_seconds'' [])
                      (meter (Inc ''events_processed_total'' []) s2))"
proof -
  let ?get = "get (GetSchemaId (GetEvent (re_Event raw)))"
  obtain f s1 where f: "retry canceled sleep meter ''schema'' ?get s = Some (f, s1)"
    using run by (auto simp: process_def split: option.splits)
  from f G I show thesis
  proof (cases rule: stage_outcome)
    case stopped
    then show thesis using run f by (intro abandoned) (simp_all add: process_def)
  next
    case (ok sch t)
    show thesis
    proof (cases "Decode unmarshal (Some sch) (GetPayload (GetEvent (re_Event raw)))")
      case (Inl err)
      then show thesis using run f ok by (intro skipped) (auto simp: process_def)
    next
      case (Inr payload)
      let ?h = "as_call (handle (decoded_event raw payload))"
      obtain h s2 where h: "retry canceled sleep meter ''handler'' ?h s1 = Some (h, s2)"
        using run f ok(1) Inr by (auto simp: process_def split: option.splits)
      from h H ok(2) show thesis
      proof (cases rule: stage_outcome)
        case stopped
        then show thesis using run f ok(1) Inr h by (intro abandoned) (simp_all add: process_def)
      next
        case (ok u v)
        then have "handle (decoded_event raw payload) v = (None, s2)"
          by (auto simp: as_call_def split: prod.splits option.splits)
        then show thesis
          using run f \<open>f = Some sch\<close> Inr h ok by (intro handled) (auto simp: process_def)
      qed
    qed
  qed
qed

text \<open>
  A call that fails in every state the loop can be in, with no cancellation, never returns.
\<close>

lemma retry_from_forever:
  fixes s :: 's and fn :: "('s, 'a) call"
  assumes ret: "retry_from canceled sleep meter stage fn delay s = Some y"
  shows "\<not> (I s \<and> (\<forall>d t. I t \<longrightarrow> fails_at canceled sleep meter stage fn d t \<and>
      I (snd (sleep d (meter (Inc ''events_failed_total'' [stage]) (snd (fn t)))))))"
proof (rule retry_from.raw_induct [where P = "\<lambda>canceled sleep meter stage fn delay s y.
    \<not> (I s \<and> (\<forall>d t. I t \<longrightarrow> fails_at canceled sleep meter stage fn d t \<and>
      I (snd (sleep d (meter (Inc ''events_failed_total'' [stage]) (snd (fn t)))))))", OF _ ret], rule notI)
  fix f :: "('s \<Rightarrow> bool) \<Rightarrow> (duration \<Rightarrow> 's \<Rightarrow> bool \<times> 's) \<Rightarrow> (metric \<Rightarrow> 's \<Rightarrow> 's) \<Rightarrow> string \<Rightarrow>
      ('s, 'a) call \<Rightarrow> duration \<Rightarrow> 's \<Rightarrow> ('a option \<times> 's) option"
    and canceled sleep meter stage and fn :: "('s, 'a) call" and delay s y
  assume IH: "\<And>canceled sleep meter stage fn delay s y. f canceled sleep meter stage fn delay s = Some y \<Longrightarrow>
      \<not> (I s \<and> (\<forall>d t. I t \<longrightarrow> fails_at canceled sleep meter stage fn d t \<and>
        I (snd (sleep d (meter (Inc ''events_failed_total'' [stage]) (snd (fn t)))))))"
    and eq: "(case fn s of
        (Inr a, s1) \<Rightarrow> Some (Some a, s1)
      | (Inl err, s1) \<Rightarrow>
          if canceled s1 then Some (None, s1)
          else (case sleep delay (meter (Inc ''events_failed_total'' [stage]) s1) of
                  (stopped, s2) \<Rightarrow>
                    if stopped then Some (None, s2)
                    else f canceled sleep meter stage fn (next_delay delay) s2)) = Some y"
    and A: "I s \<and> (\<forall>d t. I t \<longrightarrow> fails_at canceled sleep meter stage fn d t \<and>
      I (snd (sleep d (meter (Inc ''events_failed_total'' [stage]) (snd (fn t))))))"
  obtain q s1 where f1: "fn s = (q, s1)" by (cases "fn s")
  obtain b s2 where f2: "sleep delay (meter (Inc ''events_failed_total'' [stage]) s1) = (b, s2)"
    by (cases "sleep delay (meter (Inc ''events_failed_total'' [stage]) s1)")
  have "fails_at canceled sleep meter stage fn delay s" and I2: "I s2"
    using A f1 f2 by (metis snd_conv)+
  then have "f canceled sleep meter stage fn (next_delay delay) s2 = Some y"
    using eq f1 f2 by (auto simp: fails_at_def)
  then show False using IH A I2 by blast
qed

section \<open>Properties\<close>

text \<open>
  The callbacks of a pool beside a record of the acknowledgements: only \<open>ack\<close> writes to it.
\<close>

definition keep_acks :: "('s \<Rightarrow> 'a \<times> 's) \<Rightarrow> 's \<times> RawEvent list \<Rightarrow> 'a \<times> 's \<times> RawEvent list" where
  "keep_acks f = (\<lambda>(s, acks). case f s of (r, s') \<Rightarrow> (r, s', acks))"

definition record_ack :: "RawEvent \<Rightarrow> 's \<times> RawEvent list \<Rightarrow> 's \<times> RawEvent list" where
  "record_ack raw = (\<lambda>(s, acks). (s, acks @ [raw]))"

definition meter_beside :: "(metric \<Rightarrow> 's \<Rightarrow> 's) \<Rightarrow> metric \<Rightarrow> 's \<times> RawEvent list \<Rightarrow> 's \<times> RawEvent list" where
  "meter_beside meter m = (\<lambda>(s, acks). (meter m s, acks))"

lemma snd_keep_acks [simp]: "snd (snd (keep_acks f t)) = snd t"
  by (simp add: keep_acks_def split: prod.split)

lemma snd_meter_beside [simp]: "snd (meter_beside meter m t) = snd t"
  by (simp add: meter_beside_def split: prod.split)

lemma as_call_keeps [simp]: "snd (snd (as_call (keep_acks f) t)) = snd t"
  using snd_keep_acks [of f t] by (cases "keep_acks f t") (simp add: as_call_def split: option.split)

lemma keep_acks_result: "keep_acks f t = (r, u) \<Longrightarrow> f (fst t) = (r, fst u)"
  by (auto simp: keep_acks_def split: prod.splits)

text \<open>
  C12. \<open>process\<close> acknowledges an event at most once, and only when it is finished with it: the
  payload does not decode against the schema it fetched, or the handler returned nil for it. The
  one way to return without acknowledging is a cancellation, so an abandoned event holds the
  replay cursor below it.
\<close>

theorem process_acks_once:
  assumes "process (\<lambda>t. canceled (fst t)) (\<lambda>delay. keep_acks (sleep delay)) (meter_beside meter)
      (\<lambda>i. keep_acks (get i)) unmarshal (\<lambda>e. keep_acks (handle e)) record_ack raw (s, acks) = Some (s', acks')"
  shows "(acks' = acks \<and> (canceled s' \<or> (\<exists>delay t. sleep delay t = (True, s')))) \<or>
    (acks' = acks @ [raw] \<and>
       ((\<exists>t sch s1 err. get (GetSchemaId (GetEvent (re_Event raw))) t = (Inr sch, s1) \<and>
           Decode unmarshal (Some sch) (GetPayload (GetEvent (re_Event raw))) = Inl err) \<or>
        (\<exists>t payload s1. handle (decoded_event raw payload) t = (None, s1))))"
proof -
  have I0: "snd (s, acks) = acks" by simp
  have G: "loop_inv (\<lambda>t. snd t = acks) (keep_acks (get i)) (meter_beside meter) (\<lambda>delay. keep_acks (sleep delay))"
    and H: "loop_inv (\<lambda>t. snd t = acks) (as_call (keep_acks (handle e))) (meter_beside meter) (\<lambda>delay. keep_acks (sleep delay))"
    for i e by (simp_all add: loop_inv_def)
  show ?thesis
  proof (cases rule: process_result [OF assms, where I = "\<lambda>t. snd t = acks", OF I0 G H])
    case 1
    then show ?thesis by (auto dest!: keep_acks_result)
  next
    case (2 sch err t s1)
    then show ?thesis
      by (intro disjI2 conjI disjI1)
         (auto simp: record_ack_def meter_beside_def dest!: keep_acks_result split: prod.splits)
  next
    case (3 sch payload t s2)
    then show ?thesis
      by (intro disjI2 conjI)
         (auto simp: record_ack_def meter_beside_def dest!: keep_acks_result split: prod.splits)
  qed
qed

text \<open>A pool whose schema lookup, decoder and handler all succeed at once.\<close>

definition sample_raw :: RawEvent where
  "sample_raw = \<lparr>re_Topic = ''/event/A'', re_Seq = 1,
     re_Event = Some \<lparr>ce_Event = Some \<lparr>pe_Id = ''u1'', pe_SchemaId = ''s1'', pe_Payload = Some [1]\<rparr>, ce_ReplayId = Some [9]\<rparr>,
     re_ReceivedAt = 0\<rparr>"

theorem process_acks_once_witness:
  "\<exists>acks'. process (\<lambda>t. False) (\<lambda>delay. keep_acks (\<lambda>s. (False, s))) (meter_beside (\<lambda>m s. s))
      (\<lambda>i. keep_acks (\<lambda>s :: nat. (Inr (), s))) (\<lambda>sch bs. Inr [(''f'', bs)]) (\<lambda>e. keep_acks (\<lambda>s. (None, s + 1)))
      record_ack sample_raw (0, []) = Some (1, acks') \<and> (acks' = [] \<or> acks' = [sample_raw])"
proof -
  have run: "process (\<lambda>t. False) (\<lambda>delay. keep_acks (\<lambda>s. (False, s))) (meter_beside (\<lambda>m s. s))
      (\<lambda>i. keep_acks (\<lambda>s :: nat. (Inr (), s))) (\<lambda>sch bs. Inr [(''f'', bs)]) (\<lambda>e. keep_acks (\<lambda>s. (None, s + 1)))
      record_ack sample_raw (0, []) = Some (1, [sample_raw])"
    by (simp add: process_def retry_def retry_from_done keep_acks_def Decode_def sample_raw_def getter_defs
          as_call_def record_ack_def meter_beside_def)
  from process_acks_once [of "\<lambda>t. False", OF run] run show ?thesis by auto
qed

text \<open>
  C13. The retry loop returns as soon as an attempt succeeds: if the attempts before attempt \<open>n\<close>
  fail and nothing is canceled, and attempt \<open>n\<close> succeeds, then \<open>retry\<close> returns its value; the wait
  after attempt \<open>k\<close> (from 0) is 100 ms times \<open>2^k\<close>, at most 10 s.
\<close>

theorem retry_returns:
  assumes "\<And>k. k < n \<Longrightarrow> fails_at canceled sleep meter stage fn (min (retryMinDelay * 2 ^ k) retryMaxDelay)
      (attempt_state sleep meter stage fn retryMinDelay k s)"
    and "fn (attempt_state sleep meter stage fn retryMinDelay n s) = (Inr a, s')"
  shows "retry canceled sleep meter stage fn s = Some (Some a, s')"
proof -
  have D: "delay_at k retryMinDelay = min (retryMinDelay * 2 ^ k) retryMaxDelay" for k
    by (rule delay_at_eq) (simp_all add: retryMinDelay_def retryMaxDelay_def)
  have "retry canceled sleep meter stage fn s =
      retry_from canceled sleep meter stage fn (delay_at n retryMinDelay) (attempt_state sleep meter stage fn retryMinDelay n s)"
    using assms(1) unfolding retry_def by (intro retry_from_reaches) (simp add: D)
  then show ?thesis using retry_from_done [of fn _ a s'] assms(2) by simp
qed

text \<open>A call that fails twice: it counts its attempts in the state, next to the waits.\<close>

definition third_time :: "(nat \<times> duration list, nat) call" where
  "third_time = (\<lambda>(n, ds). (if n < 2 then Inl (ErrorsNew ''not yet'') else Inr n, (Suc n, ds)))"

theorem retry_returns_witness:
  "retry (\<lambda>_. False) (\<lambda>delay (n, ds). (False, n, ds @ [delay])) (\<lambda>m s. s) ''handler'' third_time (0, []) =
     Some (Some 2, 3, [100 * 10 ^ 6, 200 * 10 ^ 6])"
proof (rule retry_returns [of 2])
  fix k :: nat assume "k < 2"
  then have "k = 0 \<or> k = 1" by auto
  then show "fails_at (\<lambda>_. False) (\<lambda>delay (n, ds). (False, n, ds @ [delay])) (\<lambda>m s. s) ''handler'' third_time
      (min (retryMinDelay * 2 ^ k) retryMaxDelay)
      (attempt_state (\<lambda>delay (n, ds). (False, n, ds @ [delay])) (\<lambda>m s. s) ''handler'' third_time retryMinDelay k (0, []))"
    by (auto simp: fails_at_def third_time_def)
next
  show "third_time (attempt_state (\<lambda>delay (n, ds). (False, n, ds @ [delay])) (\<lambda>m s. s) ''handler'' third_time retryMinDelay 2 (0, [])) =
      (Inr 2, 3, [100 * 10 ^ 6, 200 * 10 ^ 6])"
    by (simp add: third_time_def numeral_2_eq_2 next_delay_def retryMinDelay_def retryMaxDelay_def)
qed

end
