(* ===== verification/Backoff.thy ===== *)
theory Backoff
  imports Go_Prelude
begin

text \<open>
  The jittered exponential backoffs: \<open>reconnectDelay\<close> (\<open>src/internal/pubsub/subscriber.go\<close>) and
  \<open>backoffDelay\<close> (\<open>src/internal/pubsub/interceptor.go\<close>). \<open>rnd\<close> is what \<open>rand.Int64N(2*spread)\<close>
  returned; the library documents \<open>0 \<le> rnd < 2*spread\<close>.

  A shift of an \<open>int64\<close> drops the bits above 64, so it is a multiplication that wraps. The
  product \<open>float64(d) * 0.25\<close> is exact for the values that reach it (below \<open>2^53\<close>), and the
  conversion back truncates: \<open>d div 4\<close>.
\<close>

definition shl64 :: "int \<Rightarrow> nat \<Rightarrow> int" where
  "shl64 d n = int64_wrap (d * 2 ^ n)"

definition spread_of :: "duration \<Rightarrow> duration" where
  "spread_of d = d div 4"

definition jittered :: "duration \<Rightarrow> int \<Rightarrow> duration" where
  "jittered d rnd = (if spread_of d \<le> 0 then d else d + (rnd - spread_of d))"

definition reconnectMinDelay :: duration where "reconnectMinDelay = 1 * 10 ^ 9"
definition reconnectMaxDelay :: duration where "reconnectMaxDelay = 30 * 10 ^ 9"

definition reconnect_base :: "nat \<Rightarrow> duration" where
  "reconnect_base attempt =
     (let d = shl64 reconnectMinDelay attempt
      in if d > reconnectMaxDelay \<or> d \<le> 0 then reconnectMaxDelay else d)"

definition reconnectDelay :: "nat \<Rightarrow> int \<Rightarrow> duration" where
  "reconnectDelay attempt rnd = jittered (reconnect_base attempt) rnd"

definition baseRetryDelay :: duration where "baseRetryDelay = 100 * 10 ^ 6"
definition maxRetryDelay :: duration where "maxRetryDelay = 5 * 10 ^ 9"

definition backoff_base :: "nat \<Rightarrow> duration" where
  "backoff_base attempt =
     (let d = shl64 baseRetryDelay attempt in if d > maxRetryDelay then maxRetryDelay else d)"

definition backoffDelay :: "nat \<Rightarrow> int \<Rightarrow> duration" where
  "backoffDelay attempt rnd = jittered (backoff_base attempt) rnd"

section \<open>Bounds\<close>

lemma jittered_bounds:
  assumes "0 \<le> rnd" "rnd < 2 * spread_of d"
  shows "d - d div 4 \<le> jittered d rnd \<and> jittered d rnd < d + d div 4"
  using assms by (auto simp: jittered_def spread_of_def)

text \<open>
  A wrapped shift keeps the trailing zeros of the product: \<open>10^9\<close> has nine of them, so from
  attempt 34 on the result is a multiple of \<open>2^43\<close>.
\<close>

lemma int64_wrap_dvd: "(2::int) ^ k dvd n \<Longrightarrow> k \<le> 63 \<Longrightarrow> 2 ^ k dvd int64_wrap n"
proof -
  assume n: "(2::int) ^ k dvd n" and k: "k \<le> 63"
  have "(2::int) ^ k dvd 2 ^ 63" "(2::int) ^ k dvd 2 ^ 64" using k by (intro le_imp_power_dvd; simp)+
  then have "2 ^ k dvd (n + 2 ^ 63) mod 2 ^ 64" using n by (intro dvd_mod dvd_add)
  then show ?thesis using \<open>2 ^ k dvd 2 ^ 63\<close> unfolding int64_wrap_def by (rule dvd_diff)
qed

lemma dvd_pos_ge: "(m::int) dvd n \<Longrightarrow> 0 < n \<Longrightarrow> m \<le> n"
  by (rule zdvd_imp_le)

lemma reconnect_base_small: "attempt < 5 \<Longrightarrow> reconnect_base attempt = 10 ^ 9 * 2 ^ attempt"
proof -
  assume "attempt < 5"
  then consider "attempt = 0" | "attempt = 1" | "attempt = 2" | "attempt = 3" | "attempt = 4" by linarith
  then show ?thesis
    by cases (simp_all add: reconnect_base_def shl64_def int64_wrap_def reconnectMinDelay_def reconnectMaxDelay_def)
qed

lemma reconnect_base_large:
  assumes "5 \<le> attempt"
  shows "reconnect_base attempt = reconnectMaxDelay"
proof (cases "attempt \<le> 33")
  case True
  have "(2::int) ^ 5 \<le> 2 ^ attempt" "(2::int) ^ attempt \<le> 2 ^ 33"
    using assms True by (intro power_increasing; simp)+
  then have "32 * 10 ^ 9 \<le> (10 ^ 9 * 2 ^ attempt :: int)" "(10 ^ 9 * 2 ^ attempt :: int) < 2 ^ 63" by simp_all
  then have "shl64 reconnectMinDelay attempt = 10 ^ 9 * 2 ^ attempt"
    by (simp add: shl64_def reconnectMinDelay_def int64_wrap_id)
  then show ?thesis
    using \<open>32 * 10 ^ 9 \<le> (10 ^ 9 * 2 ^ attempt :: int)\<close>
    by (simp add: reconnect_base_def reconnectMaxDelay_def)
next
  case False
  have "(2::int) ^ 43 dvd 2 ^ (9 + attempt)"
    using False by (intro le_imp_power_dvd) simp
  then have "(2::int) ^ 43 dvd 2 ^ 9 * 2 ^ attempt" by (simp only: power_add)
  then have "(2::int) ^ 43 dvd 1953125 * (2 ^ 9 * 2 ^ attempt)" by (rule dvd_mult)
  then have "(2::int) ^ 43 dvd 10 ^ 9 * 2 ^ attempt" by (simp add: mult.assoc)
  then have "2 ^ 43 dvd shl64 reconnectMinDelay attempt"
    unfolding shl64_def reconnectMinDelay_def mult_1 by (rule int64_wrap_dvd) simp
  then have "shl64 reconnectMinDelay attempt \<le> 0 \<or> 2 ^ 43 \<le> shl64 reconnectMinDelay attempt"
    using dvd_pos_ge by fastforce
  then show ?thesis by (auto simp: reconnect_base_def reconnectMaxDelay_def)
qed

lemma backoff_base_small: "attempt < 5 \<Longrightarrow> backoff_base attempt = 10 ^ 8 * 2 ^ attempt"
proof -
  assume "attempt < 5"
  then consider "attempt = 0" | "attempt = 1" | "attempt = 2" | "attempt = 3" | "attempt = 4" by linarith
  then show ?thesis
    by cases (simp_all add: backoff_base_def shl64_def int64_wrap_def baseRetryDelay_def maxRetryDelay_def)
qed

section \<open>Properties\<close>

text \<open>
  C18. Every reconnect waits a positive, bounded time, for every attempt number including those
  whose shift overflows: the delay lies within a quarter of \<open>min(2^attempt s, 30 s)\<close>.
\<close>

theorem reconnectDelay_bounds:
  assumes "0 \<le> rnd" "rnd < 2 * spread_of (reconnect_base attempt)"
  shows "reconnect_base attempt = (if attempt < 5 then 10 ^ 9 * 2 ^ attempt else 30 * 10 ^ 9) \<and>
    3 * reconnect_base attempt \<le> 4 * reconnectDelay attempt rnd \<and>
    4 * reconnectDelay attempt rnd < 5 * reconnect_base attempt \<and> 0 < reconnectDelay attempt rnd"
proof -
  let ?b = "reconnect_base attempt"
  have b: "?b = (if attempt < 5 then 10 ^ 9 * 2 ^ attempt else 30 * 10 ^ 9)"
    using reconnect_base_small reconnect_base_large by (simp add: reconnectMaxDelay_def)
  have "4 dvd ?b"
  proof (cases "attempt < 5")
    case True
    have "(4::int) dvd 10 ^ 9" by simp
    then have "(4::int) dvd 10 ^ 9 * 2 ^ attempt" by (rule dvd_mult2)
    then show ?thesis using b True by simp
  next
    case False
    then show ?thesis using b by simp
  qed
  then have "4 * (?b div 4) = ?b" by simp
  moreover have "0 < ?b" using b by simp
  ultimately show ?thesis
    using jittered_bounds [OF assms] b by (simp only: reconnectDelay_def) linarith
qed

theorem reconnectDelay_bounds_witness:
  "0 < reconnectDelay 100 0 \<and> 4 * reconnectDelay 100 0 < 5 * reconnect_base 100"
proof -
  have "0 < 2 * spread_of (reconnect_base 100)"
    by (simp add: reconnect_base_large spread_of_def reconnectMaxDelay_def)
  from reconnectDelay_bounds [OF order_refl this] show ?thesis by blast
qed

end
