(* ===== verification/Subscriber.thy ===== *)
theory Subscriber
  imports Services Backoff
begin

text \<open>
  The subscriber of \<open>src/internal/pubsub/subscriber.go\<close>: one \<open>Subscribe\<close> stream for one topic.
  Its buffered channels are part of the state: \<open>s_out\<close> is the content of \<open>out\<close> and
  \<open>s_ackWake\<close> says whether the one slot of \<open>ackWake\<close> is taken.
\<close>

section \<open>State\<close>

record subscriber =
  s_topic :: string
  s_batchSize :: int
  s_out :: "RawEvent list"
  s_seq :: "64 word"
  s_lastReplayID :: "bytes option"
  s_pendingAck :: int
  s_ackWake :: bool

definition subscriberOutBuffer :: nat where "subscriberOutBuffer = 1024"

definition maxInt32 :: int where "maxInt32 = 2 ^ 31 - 1"

definition clampToInt32 :: "int \<Rightarrow> int" where
  "clampToInt32 n = (if n > maxInt32 then maxInt32 else if n < 0 then 0 else n)"

definition NewSubscriber :: "string \<Rightarrow> int \<Rightarrow> subscriber" where
  "NewSubscriber topic batchSize =
     \<lparr>s_topic = topic, s_batchSize = clampToInt32 batchSize, s_out = [], s_seq = 0,
      s_lastReplayID = None, s_pendingAck = 0, s_ackWake = False\<rparr>"

section \<open>Flow control\<close>

text \<open>The two atomic steps of \<open>Ack\<close>: the addition, then the non-blocking send on \<open>ackWake\<close>.\<close>

definition ack_add :: "int \<Rightarrow> subscriber \<Rightarrow> subscriber" where
  "ack_add n s = s\<lparr>s_pendingAck := int64_wrap (s_pendingAck s + n)\<rparr>"

definition ack_wake :: "subscriber \<Rightarrow> subscriber" where
  "ack_wake s = s\<lparr>s_ackWake := True\<rparr>"

definition Ack :: "int \<Rightarrow> subscriber \<Rightarrow> subscriber" where
  "Ack n s = (if n \<le> 0 then s else ack_wake (ack_add n s))"

text \<open>The two atomic steps of the sender's wake branch: take the token, swap the counter.\<close>

definition sender_take :: "subscriber \<Rightarrow> subscriber" where
  "sender_take s = s\<lparr>s_ackWake := False\<rparr>"

definition sender_swap :: "subscriber \<Rightarrow> int \<times> subscriber" where
  "sender_swap s = (s_pendingAck s, s\<lparr>s_pendingAck := 0\<rparr>)"

definition replenish :: "int \<Rightarrow> FetchRequest" where
  "replenish ask = \<lparr>fr_TopicName = [], fr_ReplayPreset = LATEST, fr_ReplayId = None, fr_NumRequested = ask\<rparr>"

text \<open>\<open>runSender\<close>, one list element per iteration of its \<open>select\<close>.\<close>

datatype sender_event = SenderDone | SenderWake

fun runSender ::
  "(FetchRequest \<Rightarrow> 'w action) \<Rightarrow> sender_event list \<Rightarrow> subscriber \<Rightarrow> 'w \<Rightarrow> go_error option \<times> subscriber \<times> 'w"
where
  "runSender send [] s w = (None, s, w)"
| "runSender send (SenderDone # _) s w = (None, s, w)"
| "runSender send (SenderWake # es) s w =
     (let (n, s1) = sender_swap (sender_take s)
      in if n \<le> 0 then runSender send es s1 w
         else (case send (replenish (clampToInt32 n)) w of
                 (Some err, w') \<Rightarrow> (Some (Errorf ''send replenish: %w'' [] (Some err)), s1, w')
               | (None, w') \<Rightarrow> runSender send es s1 w'))"

section \<open>Opening a stream\<close>

definition initialFetch :: "(string \<Rightarrow> ('w, bytes option) call) \<Rightarrow> subscriber \<Rightarrow> ('w, FetchRequest) call" where
  "initialFetch loadReplay s w =
     (let req = (\<lambda>rid.
            \<lparr>fr_TopicName = s_topic s,
             fr_ReplayPreset = (if rid \<noteq> None then CUSTOM else LATEST),
             fr_ReplayId = rid,
             fr_NumRequested = s_batchSize s\<rparr>)
      in case s_lastReplayID s of
           Some rid \<Rightarrow> (Inr (req (Some rid)), w)
         | None \<Rightarrow>
             (case loadReplay (s_topic s) w of
                (Inl err, w') \<Rightarrow> (Inl (Errorf ''load replay cursor: %w'' [] (Some err)), w')
              | (Inr rid, w') \<Rightarrow> (Inr (req rid), w')))"

text \<open>
  The part of \<open>runOnce\<close> before its two goroutines: the request, the stream, the first send. The
  deferred call closes the gauge again when the send fails.
\<close>

definition open_stream ::
  "(string \<Rightarrow> ('w, bytes option) call) \<Rightarrow> 'w action \<Rightarrow> (FetchRequest \<Rightarrow> 'w action) \<Rightarrow> (metric \<Rightarrow> 'w \<Rightarrow> 'w) \<Rightarrow>
   subscriber \<Rightarrow> ('w, FetchRequest) call"
where
  "open_stream loadReplay subscribe send meter s w =
     (case initialFetch loadReplay s w of
        (Inl err, w1) \<Rightarrow> (Inl err, w1)
      | (Inr initial, w1) \<Rightarrow>
          (case subscribe w1 of
             (Some err, w2) \<Rightarrow> (Inl (Errorf ''open subscribe stream: %w'' [] (Some err)), w2)
           | (None, w2) \<Rightarrow>
               (let w3 = meter (GaugeSet ''pubsub_stream_open'' [s_topic s] 1) w2
                in case send initial w3 of
                     (Some err, w4) \<Rightarrow>
                       (Inl (Errorf ''send initial fetch: %w'' [] (Some err)),
                        meter (GaugeSet ''pubsub_stream_open'' [s_topic s] 0) w4)
                   | (None, w4) \<Rightarrow> (Inr initial, w4))))"

section \<open>Receiving\<close>

definition next_raw :: "subscriber \<Rightarrow> ConsumerEvent option \<Rightarrow> int \<Rightarrow> RawEvent" where
  "next_raw s e now = \<lparr>re_Topic = s_topic s, re_Seq = s_seq s + 1, re_Event = e, re_ReceivedAt = now\<rparr>"

text \<open>The send branch of the receiver's \<open>select\<close>, when \<open>out\<close> has room.\<close>

definition emit :: "ConsumerEvent option \<Rightarrow> int \<Rightarrow> subscriber \<Rightarrow> subscriber" where
  "emit e now s =
     s\<lparr>s_out := s_out s @ [next_raw s e now], s_seq := s_seq s + 1, s_lastReplayID := GetReplayId e\<rparr>"

text \<open>
  \<open>runReceiver\<close>: each \<open>Recv\<close> is an error or a response; each of its events is paired with the time
  it was sent, or \<open>None\<close> when the cancellation won the \<open>select\<close>. The result is the returned error
  and whether the loop has returned at all.
\<close>

fun receive_batch ::
  "(metric \<Rightarrow> 'w \<Rightarrow> 'w) \<Rightarrow> (ConsumerEvent option \<times> int option) list \<Rightarrow> subscriber \<Rightarrow> 'w \<Rightarrow> bool \<times> subscriber \<times> 'w"
where
  "receive_batch meter [] s w = (False, s, w)"
| "receive_batch meter ((e, None) # es) s w = (True, s, w)"
| "receive_batch meter ((e, Some now) # es) s w =
     receive_batch meter es (emit e now s) (meter (Inc ''pubsub_events_received_total'' [s_topic s]) w)"

fun runReceiver ::
  "(metric \<Rightarrow> 'w \<Rightarrow> 'w) \<Rightarrow> (go_error + (ConsumerEvent option \<times> int option) list) list \<Rightarrow> subscriber \<Rightarrow> 'w \<Rightarrow>
   go_error option \<times> subscriber \<times> 'w"
where
  "runReceiver meter [] s w = (None, s, w)"
| "runReceiver meter (Inl err # rs) s w = (Some err, s, w)"
| "runReceiver meter (Inr es # rs) s w =
     (case receive_batch meter es s w of
        (True, s', w') \<Rightarrow> (None, s', w')
      | (False, s', w') \<Rightarrow> runReceiver meter rs s' w')"

section \<open>Reconnecting\<close>

definition reasonFromErr :: "(go_error \<Rightarrow> string) \<Rightarrow> go_error option \<Rightarrow> string" where
  "reasonFromErr code_string err =
     (case err of
        None \<Rightarrow> ''ok''
      | Some e \<Rightarrow>
          if errors_Is e IoEOF then ''eof''
          else if errors_Is e ContextCanceled then ''canceled''
          else code_string e)"

text \<open>
  The loop of \<open>Run\<close>, one list element per round: how \<open>runOnce\<close> ended, whether the context was
  canceled by then, the random draw, and whether the cancellation won the wait. The result is
  whether \<open>Run\<close> has returned, the delays it waited for and the reconnect reasons it counted.
\<close>

record stream_round =
  rd_err :: "go_error option"
  rd_canceled :: bool
  rd_rnd :: int
  rd_stopped :: bool

fun run_rounds ::
  "(go_error \<Rightarrow> string) \<Rightarrow> nat \<Rightarrow> stream_round list \<Rightarrow> bool \<times> duration list \<times> string list"
where
  "run_rounds code_string attempt [] = (False, [], [])"
| "run_rounds code_string attempt (r # rs) =
     (if rd_canceled r then (True, [], [])
      else let reasons = (case rd_err r of None \<Rightarrow> [] | Some e \<Rightarrow> [reasonFromErr code_string (Some e)]);
               delay = reconnectDelay attempt (rd_rnd r)
           in if rd_stopped r then (True, [delay], reasons)
              else (case run_rounds code_string (Suc attempt) rs of
                      (fin, ds, later) \<Rightarrow> (fin, delay # ds, reasons @ later)))"

section \<open>Lemmas\<close>

lemma clampToInt32_range: "0 \<le> clampToInt32 n \<and> clampToInt32 n \<le> 2 ^ 31 - 1"
  by (simp add: clampToInt32_def maxInt32_def)

lemma clampToInt32_id: "0 \<le> n \<Longrightarrow> n < 2 ^ 31 \<Longrightarrow> clampToInt32 n = n"
  by (simp add: clampToInt32_def maxInt32_def)

lemma emit_simps [simp]:
  "s_topic (emit e now s) = s_topic s" "s_batchSize (emit e now s) = s_batchSize s"
  "s_out (emit e now s) = s_out s @ [next_raw s e now]" "s_seq (emit e now s) = s_seq s + 1"
  "s_lastReplayID (emit e now s) = GetReplayId e" "s_pendingAck (emit e now s) = s_pendingAck s"
  by (simp_all add: emit_def)

lemma next_raw_simps [simp]:
  "re_Topic (next_raw s e now) = s_topic s" "re_Seq (next_raw s e now) = s_seq s + 1"
  "re_Event (next_raw s e now) = e"
  by (simp_all add: next_raw_def)

lemma Ack_simps [simp]:
  "s_topic (Ack n s) = s_topic s" "s_seq (Ack n s) = s_seq s" "s_out (Ack n s) = s_out s"
  "s_lastReplayID (Ack n s) = s_lastReplayID s" "s_batchSize (Ack n s) = s_batchSize s"
  by (simp_all add: Ack_def ack_add_def ack_wake_def)

text \<open>The events a batch has sent are consecutive in \<open>out\<close>, numbered on from the last one.\<close>

lemma receive_batch_events:
  assumes "receive_batch meter es s w = (stopped, s', w')"
  shows "\<exists>n evs. n \<le> length es \<and> (\<not> stopped \<longrightarrow> n = length es) \<and> s_seq s' = s_seq s + of_nat n \<and>
    s_out s' = s_out s @ evs \<and> length evs = n \<and>
    (\<forall>i < n. re_Topic (evs ! i) = s_topic s \<and> re_Seq (evs ! i) = s_seq s + of_nat (Suc i) \<and>
       re_Event (evs ! i) = fst (es ! i)) \<and>
    s_lastReplayID s' = (if n = 0 then s_lastReplayID s else GetReplayId (fst (es ! (n - 1))))"
  using assms
proof (induction meter es s w rule: receive_batch.induct)
  case (1 meter s w)
  then show ?case by simp
next
  case (2 meter e es s w)
  then show ?case by auto
next
  case (3 meter e now es s w)
  then have "receive_batch meter es (emit e now s) (meter (Inc ''pubsub_events_received_total'' [s_topic s]) w) = (stopped, s', w')"
    by simp
  from "3.IH" [OF this] obtain n evs where IH: "n \<le> length es" "\<not> stopped \<longrightarrow> n = length es"
    "s_seq s' = s_seq s + 1 + of_nat n" "s_out s' = s_out s @ next_raw s e now # evs" "length evs = n"
    "\<forall>i < n. re_Topic (evs ! i) = s_topic s \<and> re_Seq (evs ! i) = s_seq s + 1 + of_nat (Suc i) \<and>
       re_Event (evs ! i) = fst (es ! i)"
    "s_lastReplayID s' = (if n = 0 then GetReplayId e else GetReplayId (fst (es ! (n - 1))))"
    unfolding emit_simps append_assoc append_Cons append_Nil by blast
  show ?case
    by (intro exI [of _ "Suc n"] exI [of _ "next_raw s e now # evs"])
       (use IH in \<open>auto simp: nth_Cons' add.assoc less_Suc_eq_0_disj\<close>)
qed

section \<open>Flow control between the workers and the sender\<close>

text \<open>
  \<open>Ack\<close> and the sender run in different goroutines; each is two atomic steps. \<open>fl_waking\<close> counts the
  calls of \<open>Ack\<close> between their two steps, \<open>fl_taken\<close> says that the sender has taken the token and
  not yet swapped the counter; \<open>fl_acked\<close> and \<open>fl_asked\<close> are the totals acknowledged and
  requested again.
\<close>

record flow =
  fl_sub :: subscriber
  fl_waking :: nat
  fl_taken :: bool
  fl_acked :: int
  fl_asked :: int

inductive flow_step :: "flow \<Rightarrow> flow \<Rightarrow> bool" where
  add: "0 < n \<Longrightarrow>
    flow_step f (f\<lparr>fl_sub := ack_add n (fl_sub f), fl_waking := Suc (fl_waking f), fl_acked := fl_acked f + n\<rparr>)"
| wake: "fl_waking f = Suc k \<Longrightarrow> flow_step f (f\<lparr>fl_sub := ack_wake (fl_sub f), fl_waking := k\<rparr>)"
| take: "s_ackWake (fl_sub f) \<Longrightarrow> \<not> fl_taken f \<Longrightarrow>
    flow_step f (f\<lparr>fl_sub := sender_take (fl_sub f), fl_taken := True\<rparr>)"
| swap: "fl_taken f \<Longrightarrow> sender_swap (fl_sub f) = (n, sub') \<Longrightarrow>
    flow_step f (f\<lparr>fl_sub := sub', fl_taken := False,
      fl_asked := fl_asked f + (if n \<le> 0 then 0 else clampToInt32 n)\<rparr>)"

inductive_cases flow_stepE: "flow_step f f'"

definition flow_start :: "subscriber \<Rightarrow> flow" where
  "flow_start sub = \<lparr>fl_sub = sub, fl_waking = 0, fl_taken = False, fl_acked = 0, fl_asked = 0\<rparr>"

inductive flow_reach :: "subscriber \<Rightarrow> flow \<Rightarrow> bool" for sub where
  "flow_reach sub (flow_start sub)"
| "flow_reach sub f \<Longrightarrow> flow_step f f' \<Longrightarrow> flow_reach sub f'"

definition flow_inv :: "flow \<Rightarrow> bool" where
  "flow_inv f \<longleftrightarrow>
     fl_asked f + s_pendingAck (fl_sub f) = fl_acked f \<and> 0 \<le> s_pendingAck (fl_sub f) \<and> 0 \<le> fl_asked f \<and>
     (0 < s_pendingAck (fl_sub f) \<longrightarrow> s_ackWake (fl_sub f) \<or> 0 < fl_waking f \<or> fl_taken f)"

lemmas flow_defs = ack_add_def ack_wake_def sender_take_def sender_swap_def

lemma flow_step_mono: "flow_step f f' \<Longrightarrow> fl_acked f \<le> fl_acked f'"
  by (auto elim!: flow_stepE)

lemma flow_step_inv:
  assumes "flow_step f f'" "flow_inv f" "fl_acked f' < 2 ^ 31"
  shows "flow_inv f'"
  using assms(1)
proof (cases rule: flow_step.cases)
  case (add n)
  have "int64_wrap (s_pendingAck (fl_sub f) + n) = s_pendingAck (fl_sub f) + n"
    using add assms(2,3) by (intro int64_wrap_id) (simp_all add: flow_inv_def)
  then show ?thesis using add assms(2) by (simp add: flow_inv_def flow_defs)
next
  case (wake k)
  then show ?thesis using assms(2) by (simp add: flow_inv_def flow_defs)
next
  case take
  then show ?thesis using assms(2) by (simp add: flow_inv_def flow_defs)
next
  case (swap n sub')
  then have "n = s_pendingAck (fl_sub f)" "n < 2 ^ 31" "0 \<le> n"
    using assms(2,3) by (auto simp: flow_inv_def flow_defs)
  then show ?thesis using swap assms(2) by (auto simp: flow_inv_def flow_defs clampToInt32_id)
qed

lemma flow_reach_inv:
  "flow_reach sub f \<Longrightarrow> s_pendingAck sub = 0 \<Longrightarrow> fl_acked f < 2 ^ 31 \<Longrightarrow> flow_inv f"
proof (induction rule: flow_reach.induct)
  case 1
  then show ?case by (simp add: flow_inv_def flow_start_def)
next
  case (2 f f')
  then show ?case using flow_step_inv flow_step_mono by (meson le_less_trans)
qed

section \<open>Properties\<close>

text \<open>
  C15. The receiver numbers events without a gap or a repetition: from a batch of which it sends
  \<open>n\<close> events before it stops (all of them unless it is canceled), exactly these are appended to
  \<open>out\<close>, in order, with the next \<open>n\<close> sequence numbers, and the resume position is the replay ID of
  the last one sent, never of one that was received and not sent.
\<close>

theorem receiver_numbers_events:
  assumes "receive_batch meter es s w = (stopped, s', w')"
  shows "\<exists>n \<le> length es. (\<not> stopped \<longrightarrow> n = length es) \<and> s_seq s' = s_seq s + of_nat n \<and>
    length (s_out s') = length (s_out s) + n \<and>
    (\<forall>i < n. let r = s_out s' ! (length (s_out s) + i)
             in re_Topic r = s_topic s \<and> re_Seq r = s_seq s + of_nat (Suc i) \<and> re_Event r = fst (es ! i)) \<and>
    s_lastReplayID s' = (if n = 0 then s_lastReplayID s else GetReplayId (fst (es ! (n - 1))))"
proof -
  obtain n evs where "n \<le> length es" "\<not> stopped \<longrightarrow> n = length es" "s_seq s' = s_seq s + of_nat n"
    and out: "s_out s' = s_out s @ evs" "length evs = n"
    and evs: "\<forall>i < n. re_Topic (evs ! i) = s_topic s \<and> re_Seq (evs ! i) = s_seq s + of_nat (Suc i) \<and>
       re_Event (evs ! i) = fst (es ! i)"
    and "s_lastReplayID s' = (if n = 0 then s_lastReplayID s else GetReplayId (fst (es ! (n - 1))))"
    using receive_batch_events [OF assms] by blast
  moreover have "length (s_out s') = length (s_out s) + n" using out by simp
  moreover have nth: "s_out s' ! (length (s_out s) + i) = evs ! i" for i
    using out(1) by (simp only: nth_append_length_plus)
  have "\<forall>i < n. let r = s_out s' ! (length (s_out s) + i)
      in re_Topic r = s_topic s \<and> re_Seq r = s_seq s + of_nat (Suc i) \<and> re_Event r = fst (es ! i)"
    using evs unfolding nth Let_def .
  ultimately show ?thesis by blast
qed

theorem receiver_numbers_events_witness:
  "let e = Some \<lparr>ce_Event = None, ce_ReplayId = Some [5]\<rparr>;
       s = NewSubscriber ''t'' 10
   in \<exists>s' w'. receive_batch (\<lambda>m w. w) [(e, Some 0), (e, None)] s () = (True, s', w') \<and>
        (\<exists>n \<le> 2. s_seq s' = of_nat n \<and> length (s_out s') = n)"
proof -
  let ?e = "Some \<lparr>ce_Event = None, ce_ReplayId = Some [5]\<rparr>" and ?s = "NewSubscriber ''t'' 10"
  have run: "receive_batch (\<lambda>m w. w) [(?e, Some 0), (?e, None)] ?s () = (True, emit ?e 0 ?s, ())" by simp
  have s: "s_seq ?s = 0" "s_out ?s = []" by (simp_all add: NewSubscriber_def)
  obtain n where "n \<le> 2" "s_seq (emit ?e 0 ?s) = of_nat n" "length (s_out (emit ?e 0 ?s)) = n"
    using receiver_numbers_events [OF run] s by (auto simp del: emit_simps)
  with run show ?thesis unfolding Let_def by blast
qed



lemma run_rounds_delays:
  assumes "\<forall>r \<in> set rs. \<not> rd_canceled r \<and> \<not> rd_stopped r"
  shows "fst (snd (run_rounds code_string attempt rs)) = map (\<lambda>i. reconnectDelay (attempt + i) (rd_rnd (rs ! i))) [0..<length rs]"
  using assms
proof (induction rs arbitrary: attempt)
  case Nil
  then show ?case by simp
next
  case (Cons r rs)
  have "fst (snd (run_rounds code_string attempt (r # rs))) =
      reconnectDelay attempt (rd_rnd r) # fst (snd (run_rounds code_string (Suc attempt) rs))"
    using Cons.prems by (simp add: Let_def split: prod.split)
  then show ?case using Cons by (simp add: upt_conv_Cons map_Suc_upt [symmetric] del: upt_Suc)
qed

text \<open>
  C17. The wait before reconnect number \<open>k\<close> depends on \<open>k\<close> alone: the attempt counter of \<open>Run\<close> is
  never reset, so from the sixth reconnect of a process on every wait is at least 22.5 s, however
  long the streams in between stayed healthy.
\<close>

theorem reconnect_wait_never_resets:
  assumes "\<forall>r \<in> set rs. \<not> rd_canceled r \<and> \<not> rd_stopped r"
    and "5 \<le> k" "k < length rs" "0 \<le> rd_rnd (rs ! k)" "rd_rnd (rs ! k) < 15 * 10 ^ 9"
  shows "22500 * 10 ^ 6 \<le> fst (snd (run_rounds code_string 0 rs)) ! k"
proof -
  have "fst (snd (run_rounds code_string 0 rs)) ! k = reconnectDelay k (rd_rnd (rs ! k))"
    using run_rounds_delays [OF assms(1)] assms(3) by simp
  moreover have "reconnect_base k = 30 * 10 ^ 9" using reconnect_base_large [OF assms(2)] by (simp add: reconnectMaxDelay_def)
  ultimately show ?thesis
    using jittered_bounds [of "rd_rnd (rs ! k)" "reconnect_base k"] assms(4,5)
    by (simp add: reconnectDelay_def spread_of_def)
qed

theorem reconnect_wait_never_resets_witness:
  "let rs = replicate 6 \<lparr>rd_err = Some IoEOF, rd_canceled = False, rd_rnd = 0, rd_stopped = False\<rparr>
   in 22500 * 10 ^ 6 \<le> fst (snd (run_rounds (\<lambda>_. ''Unknown'') 0 rs)) ! 5"
  unfolding Let_def by (rule reconnect_wait_never_resets) simp_all

end
