(* ===== verification/Pipeline.thy ===== *)
theory Pipeline
  imports Subscriber Worker_Pool Storage
begin

text \<open>
  The running service (\<open>src/internal/app/app.go\<close>, \<open>Run\<close>): the goroutines of the subscribers, the
  fan-in, the workers and the committer, as one transition system. A rule is one atomic step of
  one goroutine, so every interleaving the scheduler can produce is a sequence of rules.

  One attempt of a worker at its stage (a schema lookup, a pass through the handler) is one step,
  and so are \<open>App.ack\<close> and one save of a flush together with its bookkeeping; a backoff is a
  state of the worker in which every other goroutine can move.
\<close>

section \<open>State\<close>

text \<open>
  \<open>t_conn\<close> is the open stream, if any: the index in the topic's event log of the next event the
  server delivers. \<open>t_fanin\<close> is the topic's \<open>fanIn\<close> goroutine. \<open>t_base\<close> is a history variable: the
  index in the log of the event that got sequence number 1.
\<close>

datatype fanin = FanWaiting | FanHolding RawEvent | FanExited

record sub_task =
  t_sub :: subscriber
  t_conn :: "nat option"
  t_fanin :: fanin
  t_base :: nat

text \<open>
  A worker is idle at its \<open>select\<close>, in the schema stage or in the handler stage of \<open>process\<close>, in
  the backoff of either stage, or has returned.
\<close>

datatype 'v worker =
    Idle
  | Fetching RawEvent
  | FetchBackoff RawEvent
  | Handling RawEvent "'v payload"
  | HandleBackoff RawEvent "'v payload"
  | Exited

text \<open>
  \<open>p_pending\<close> is the rest of the snapshot while a flush runs (\<open>flushMu\<close> allows one at a time).
\<close>

record ('w, 'sch, 'v) pipe =
  p_subs :: "sub_task list"
  p_events :: "RawEvent list"
  p_workers :: "'v worker list"
  p_cursor :: committer
  p_pending :: "(string \<times> bytes option) list option"
  p_cache :: "'sch cache"
  p_world :: 'w
  p_canceled :: bool

text \<open>
  What the service is wired to: the event log of each topic on the server, the calls of the
  store, the stream and the metrics, the schema lookup, the Avro decoder and the root handler.
\<close>

record ('w, 'sch, 'v) deps =
  d_log :: "string \<Rightarrow> ConsumerEvent option list"
  d_load :: "string \<Rightarrow> ('w, bytes option) call"
  d_save :: "string \<Rightarrow> bytes option \<Rightarrow> 'w action"
  d_subscribe :: "'w action"
  d_send :: "FetchRequest \<Rightarrow> 'w action"
  d_meter :: "metric \<Rightarrow> 'w \<Rightarrow> 'w"
  d_get :: "string \<Rightarrow> ('sch cache \<times> 'w, 'sch) call"
  d_unmarshal :: "'sch \<Rightarrow> bytes \<Rightarrow> go_error + 'v payload"
  d_handle :: "'v DecodedEvent \<Rightarrow> 'w action"
  d_events_cap :: nat

section \<open>Starting\<close>

definition new_task :: "int \<Rightarrow> string \<Rightarrow> sub_task" where
  "new_task batchSize topic =
     \<lparr>t_sub = NewSubscriber topic batchSize, t_conn = None, t_fanin = FanWaiting, t_base = 0\<rparr>"

text \<open>A fresh process over the world an earlier one left behind.\<close>

definition boot :: "string list \<Rightarrow> int \<Rightarrow> nat \<Rightarrow> 'w \<Rightarrow> ('w, 'sch, 'v) pipe" where
  "boot topics batchSize n w =
     \<lparr>p_subs = map (new_task batchSize) topics, p_events = [], p_workers = replicate n Idle,
      p_cursor = NewCommitter, p_pending = None, p_cache = NewCache, p_world = w,
      p_canceled = False\<rparr>"

lemma boot_world [simp]: "p_world (boot topics batchSize n w) = w"
  by (simp add: boot_def)

section \<open>The server\<close>

text \<open>
  Where the server starts a stream: a CUSTOM request right after the event with the given replay
  ID, a LATEST request at the tip, wherever that is by then.
\<close>

fun server_start :: "ConsumerEvent option list \<Rightarrow> FetchRequest \<Rightarrow> nat \<Rightarrow> bool" where
  "server_start log req pos \<longleftrightarrow>
     (case fr_ReplayPreset req of
        CUSTOM \<Rightarrow> 0 < pos \<and> pos \<le> length log \<and> GetReplayId (log ! (pos - 1)) = fr_ReplayId req
      | EARLIEST \<Rightarrow> pos = 0
      | LATEST \<Rightarrow> pos \<le> length log)"

section \<open>Acknowledging\<close>

text \<open>\<open>App.ack\<close>: report the position to the committer, give the slot back to the first subscriber
  of the topic.\<close>

fun ack_first :: "string \<Rightarrow> sub_task list \<Rightarrow> sub_task list" where
  "ack_first topic [] = []"
| "ack_first topic (t # ts) =
     (if s_topic (t_sub t) = topic then t\<lparr>t_sub := Ack 1 (t_sub t)\<rparr> # ts else t # ack_first topic ts)"

definition App_ack :: "RawEvent \<Rightarrow> ('w, 'sch, 'v) pipe \<Rightarrow> ('w, 'sch, 'v) pipe" where
  "App_ack e s =
     s\<lparr>p_cursor := Done (re_Topic e) (re_Seq e) (GetReplayId (re_Event e)) (p_cursor s),
       p_subs := ack_first (re_Topic e) (p_subs s)\<rparr>"

section \<open>Steps\<close>

definition set_task :: "nat \<Rightarrow> sub_task \<Rightarrow> ('w, 'sch, 'v) pipe \<Rightarrow> ('w, 'sch, 'v) pipe" where
  "set_task i t s = s\<lparr>p_subs := (p_subs s)[i := t]\<rparr>"

definition set_worker :: "nat \<Rightarrow> 'v worker \<Rightarrow> ('w, 'sch, 'v) pipe \<Rightarrow> ('w, 'sch, 'v) pipe" where
  "set_worker j k s = s\<lparr>p_workers := (p_workers s)[j := k]\<rparr>"

abbreviation raw_schema :: "RawEvent \<Rightarrow> string" where
  "raw_schema r \<equiv> GetSchemaId (GetEvent (re_Event r))"

abbreviation raw_payload :: "RawEvent \<Rightarrow> bytes option" where
  "raw_payload r \<equiv> GetPayload (GetEvent (re_Event r))"

text \<open>
  The metrics of an attempt that ended: unless the context is canceled, \<open>Run\<close> counts a reconnect
  (\<open>runOnce\<close> returns nil only when it is); an open stream also has the deferred gauge update of \<open>runOnce\<close>
  before it. The reason is the name of whatever error ended the stream.
\<close>

definition count_reconnect :: "('w, 'sch, 'v) deps \<Rightarrow> string \<Rightarrow> string \<Rightarrow> bool \<Rightarrow> 'w \<Rightarrow> 'w" where
  "count_reconnect d topic reason canceled w =
     (if canceled then w else d_meter d (Inc ''pubsub_reconnects_total'' [topic, reason]) w)"

definition stream_closed :: "('w, 'sch, 'v) deps \<Rightarrow> string \<Rightarrow> string \<Rightarrow> bool \<Rightarrow> 'w \<Rightarrow> 'w" where
  "stream_closed d topic reason canceled w =
     count_reconnect d topic reason canceled (d_meter d (GaugeSet ''pubsub_stream_open'' [topic] 0) w)"

inductive pipe_step ::
  "('w, 'sch, 'v) deps \<Rightarrow> ('w, 'sch, 'v) pipe \<Rightarrow> ('w, 'sch, 'v) pipe \<Rightarrow> bool"
  for d :: "('w, 'sch, 'v) deps"
where
  connect:
    "i < length (p_subs s) \<Longrightarrow> t = p_subs s ! i \<Longrightarrow> t_conn t = None \<Longrightarrow>
     open_stream (d_load d) (d_subscribe d) (d_send d) (d_meter d) (t_sub t) (p_world s) = (Inr req, w') \<Longrightarrow>
     server_start (d_log d (s_topic (t_sub t))) req pos \<Longrightarrow>
     pipe_step d s (set_task i (t\<lparr>t_conn := Some pos\<rparr>) s\<lparr>p_world := w'\<rparr>)"
| connect_fails:
    "i < length (p_subs s) \<Longrightarrow> t = p_subs s ! i \<Longrightarrow> t_conn t = None \<Longrightarrow>
     open_stream (d_load d) (d_subscribe d) (d_send d) (d_meter d) (t_sub t) (p_world s) = (Inl err, w') \<Longrightarrow>
     pipe_step d s (s\<lparr>p_world := count_reconnect d (s_topic (t_sub t)) reason (p_canceled s) w'\<rparr>)"
| connect_refused:
    "i < length (p_subs s) \<Longrightarrow> t = p_subs s ! i \<Longrightarrow> t_conn t = None \<Longrightarrow>
     open_stream (d_load d) (d_subscribe d) (d_send d) (d_meter d) (t_sub t) (p_world s) = (Inr req, w') \<Longrightarrow>
     pipe_step d s (s\<lparr>p_world := stream_closed d (s_topic (t_sub t)) reason (p_canceled s) w'\<rparr>)"
| receive:
    "i < length (p_subs s) \<Longrightarrow> t = p_subs s ! i \<Longrightarrow> t_conn t = Some pos \<Longrightarrow>
     pos < length (d_log d (s_topic (t_sub t))) \<Longrightarrow> length (s_out (t_sub t)) < subscriberOutBuffer \<Longrightarrow>
     pipe_step d s
       (set_task i (t\<lparr>t_sub := emit (d_log d (s_topic (t_sub t)) ! pos) now (t_sub t),
                      t_conn := Some (Suc pos),
                      t_base := (if s_seq (t_sub t) = 0 then pos else t_base t)\<rparr>) s
          \<lparr>p_world := d_meter d (Inc ''pubsub_events_received_total'' [s_topic (t_sub t)]) (p_world s)\<rparr>)"
| stream_ends:
    "i < length (p_subs s) \<Longrightarrow> t = p_subs s ! i \<Longrightarrow> t_conn t = Some pos \<Longrightarrow>
     pipe_step d s
       (set_task i (t\<lparr>t_conn := None\<rparr>) s
          \<lparr>p_world := stream_closed d (s_topic (t_sub t)) reason (p_canceled s) (p_world s)\<rparr>)"
| sender:
    "i < length (p_subs s) \<Longrightarrow> t = p_subs s ! i \<Longrightarrow> t_conn t = Some pos \<Longrightarrow> s_ackWake (t_sub t) \<Longrightarrow>
     runSender (d_send d) [SenderWake] (t_sub t) (p_world s) = (r, sub', w') \<Longrightarrow>
     pipe_step d s
       (set_task i (t\<lparr>t_sub := sub', t_conn := (if r = None then Some pos else None)\<rparr>) s
          \<lparr>p_world := (if r = None then w'
                        else stream_closed d (s_topic (t_sub t)) reason (p_canceled s) w')\<rparr>)"
| fan_take:
    "i < length (p_subs s) \<Longrightarrow> t = p_subs s ! i \<Longrightarrow> t_fanin t = FanWaiting \<Longrightarrow> s_out (t_sub t) = e # es \<Longrightarrow>
     pipe_step d s (set_task i (t\<lparr>t_fanin := FanHolding e, t_sub := (t_sub t)\<lparr>s_out := es\<rparr>\<rparr>) s)"
| fan_push:
    "i < length (p_subs s) \<Longrightarrow> t = p_subs s ! i \<Longrightarrow> t_fanin t = FanHolding e \<Longrightarrow>
     length (p_events s) < d_events_cap d \<Longrightarrow>
     pipe_step d s (set_task i (t\<lparr>t_fanin := FanWaiting\<rparr>) s\<lparr>p_events := p_events s @ [e]\<rparr>)"
| fan_exit:
    "i < length (p_subs s) \<Longrightarrow> t = p_subs s ! i \<Longrightarrow> p_canceled s \<Longrightarrow>
     pipe_step d s (set_task i (t\<lparr>t_fanin := FanExited\<rparr>) s)"
| worker_take:
    "j < length (p_workers s) \<Longrightarrow> p_workers s ! j = Idle \<Longrightarrow> p_events s = e # es \<Longrightarrow>
     pipe_step d s (set_worker j (Fetching e) s\<lparr>p_events := es\<rparr>)"
| worker_exit:
    "j < length (p_workers s) \<Longrightarrow> p_workers s ! j = Idle \<Longrightarrow>
     p_canceled s \<or> p_events s = [] \<and> (\<forall>t \<in> set (p_subs s). t_fanin t = FanExited) \<Longrightarrow>
     pipe_step d s (set_worker j Exited s)"
| schema_ok:
    "j < length (p_workers s) \<Longrightarrow> p_workers s ! j = Fetching e \<Longrightarrow>
     d_get d (raw_schema e) (p_cache s, p_world s) = (Inr sch, (c', w')) \<Longrightarrow>
     Decode (d_unmarshal d) (Some sch) (raw_payload e) = Inr payload \<Longrightarrow>
     pipe_step d s (set_worker j (Handling e payload) s\<lparr>p_cache := c', p_world := w'\<rparr>)"
| skip:
    "j < length (p_workers s) \<Longrightarrow> p_workers s ! j = Fetching e \<Longrightarrow>
     d_get d (raw_schema e) (p_cache s, p_world s) = (Inr sch, (c', w')) \<Longrightarrow>
     Decode (d_unmarshal d) (Some sch) (raw_payload e) = Inl err \<Longrightarrow>
     pipe_step d s
       (App_ack e (set_worker j Idle s
          \<lparr>p_cache := c', p_world := d_meter d (Inc ''events_failed_total'' [''decode'']) w'\<rparr>))"
| schema_fails:
    "j < length (p_workers s) \<Longrightarrow> p_workers s ! j = Fetching e \<Longrightarrow>
     d_get d (raw_schema e) (p_cache s, p_world s) = (Inl err, (c', w')) \<Longrightarrow>
     pipe_step d s
       (if p_canceled s then set_worker j Idle s\<lparr>p_cache := c', p_world := w'\<rparr>
        else set_worker j (FetchBackoff e) s
               \<lparr>p_cache := c', p_world := d_meter d (Inc ''events_failed_total'' [''schema'']) w'\<rparr>)"
| schema_again:
    "j < length (p_workers s) \<Longrightarrow> p_workers s ! j = FetchBackoff e \<Longrightarrow>
     pipe_step d s (set_worker j (Fetching e) s)"
| handle_ok:
    "j < length (p_workers s) \<Longrightarrow> p_workers s ! j = Handling e payload \<Longrightarrow>
     d_handle d (decoded_event e payload) (p_world s) = (None, w') \<Longrightarrow>
     pipe_step d s
       (App_ack e (set_worker j Idle s
          \<lparr>p_world := d_meter d (Observe ''processing_latency_seconds'' [])
                        (d_meter d (Inc ''events_processed_total'' []) w')\<rparr>))"
| handle_fails:
    "j < length (p_workers s) \<Longrightarrow> p_workers s ! j = Handling e payload \<Longrightarrow>
     d_handle d (decoded_event e payload) (p_world s) = (Some err, w') \<Longrightarrow>
     pipe_step d s
       (if p_canceled s then set_worker j Idle s\<lparr>p_world := w'\<rparr>
        else set_worker j (HandleBackoff e payload) s
               \<lparr>p_world := d_meter d (Inc ''events_failed_total'' [''handler'']) w'\<rparr>)"
| handle_again:
    "j < length (p_workers s) \<Longrightarrow> p_workers s ! j = HandleBackoff e payload \<Longrightarrow>
     pipe_step d s (set_worker j (Handling e payload) s)"
| backoff_canceled:
    "j < length (p_workers s) \<Longrightarrow> p_canceled s \<Longrightarrow>
     p_workers s ! j = FetchBackoff e \<or> p_workers s ! j = HandleBackoff e payload \<Longrightarrow>
     pipe_step d s (set_worker j Idle s)"
| flush_begins:
    "p_pending s = None \<Longrightarrow> snapshot (p_cursor s) = (pending, c') \<Longrightarrow> distinct order \<Longrightarrow>
     set order = dom pending \<Longrightarrow>
     pipe_step d s (s\<lparr>p_cursor := c', p_pending := Some (map (\<lambda>topic. (topic, the (pending topic))) order)\<rparr>)"
| flush_saves:
    "p_pending s = Some ((topic, rid) # rest) \<Longrightarrow>
     flush_one (d_save d) topic rid (p_cursor s, p_world s, fe) = Some (c', w', fe') \<Longrightarrow>
     pipe_step d s (s\<lparr>p_cursor := c', p_world := w', p_pending := Some rest\<rparr>)"
| flush_ends:
    "p_pending s = Some [] \<Longrightarrow> pipe_step d s (s\<lparr>p_pending := None\<rparr>)"
| cancel:
    "pipe_step d s (s\<lparr>p_canceled := True\<rparr>)"

text \<open>
  The service over its whole life: it runs, stops at any point (a crash, a kill, a normal exit
  after its last flush) and is started again with the same configuration over the world it left.
\<close>

inductive service ::
  "('w, 'sch, 'v) deps \<Rightarrow> string list \<Rightarrow> int \<Rightarrow> nat \<Rightarrow> 'w \<Rightarrow> ('w, 'sch, 'v) pipe \<Rightarrow> bool"
  for d topics batchSize n w0
where
  start: "service d topics batchSize n w0 (boot topics batchSize n w0)"
| step: "service d topics batchSize n w0 s \<Longrightarrow> pipe_step d s s' \<Longrightarrow> service d topics batchSize n w0 s'"
| restart: "service d topics batchSize n w0 s \<Longrightarrow>
    service d topics batchSize n w0 (boot topics batchSize n (p_world s))"

end
