(* ===== verification/Pipeline_Safety.thy ===== *)
theory Pipeline_Safety
  imports Pipeline
begin

text \<open>
  No committed cursor ever passes an event that is still in flight, across every interleaving of
  the goroutines, every failure of the services and every restart. The locale \<open>pipeline\<close> states
  what the running service relies on; the invariant is proved once against it.
\<close>

section \<open>Positions in a topic's event log\<close>

text \<open>\<open>at_pos lg rid p\<close>: a stream resumed from \<open>rid\<close> continues with the event at index \<open>p\<close>.\<close>

definition at_pos :: "ConsumerEvent option list \<Rightarrow> bytes option \<Rightarrow> nat \<Rightarrow> bool" where
  "at_pos lg rid p \<longleftrightarrow> 0 < p \<and> p \<le> length lg \<and> GetReplayId (lg ! (p - 1)) = rid"

text \<open>
  The replay IDs of a topic identify its events: they are set and pairwise different. The bound
  keeps the \<open>uint64\<close> numbering of a run from wrapping.
\<close>

definition log_ok :: "ConsumerEvent option list \<Rightarrow> bool" where
  "log_ok lg \<longleftrightarrow>
     distinct (map GetReplayId lg) \<and> None \<notin> GetReplayId ` set lg \<and> length lg < 2 ^ 64 - 1"

lemma at_pos_unique: "log_ok lg \<Longrightarrow> at_pos lg rid p \<Longrightarrow> at_pos lg rid q \<Longrightarrow> p = q"
proof -
  assume L: "log_ok lg" and "at_pos lg rid p" "at_pos lg rid q"
  then have "map GetReplayId lg ! (p - 1) = map GetReplayId lg ! (q - 1)" "0 < p" "0 < q"
    "p \<le> length lg" "q \<le> length lg"
    by (auto simp: at_pos_def)
  moreover from this have "p - 1 = q - 1"
    using L by (subst (asm) nth_eq_iff_index_eq) (auto simp: log_ok_def)
  ultimately show "p = q" by linarith
qed

lemma at_pos_not_None: "log_ok lg \<Longrightarrow> at_pos lg rid p \<Longrightarrow> rid \<noteq> None"
proof -
  assume L: "log_ok lg" and "at_pos lg rid p"
  then have "lg ! (p - 1) \<in> set lg" "GetReplayId (lg ! (p - 1)) = rid" by (auto simp: at_pos_def)
  with L show "rid \<noteq> None" unfolding log_ok_def by (metis image_eqI)
qed

lemma server_start_pos:
  "fr_ReplayPreset req = CUSTOM \<Longrightarrow> server_start lg req pos \<longleftrightarrow> at_pos lg (fr_ReplayId req) pos"
  by (auto simp: at_pos_def)

section \<open>The part of a subscriber the invariant is about\<close>

record lane =
  l_topic :: string
  l_seq :: nat
  l_last :: "bytes option"
  l_conn :: "nat option"
  l_base :: nat

definition lane_of :: "sub_task \<Rightarrow> lane" where
  "lane_of t =
     \<lparr>l_topic = s_topic (t_sub t), l_seq = unat (s_seq (t_sub t)), l_last = s_lastReplayID (t_sub t),
      l_conn = t_conn t, l_base = t_base t\<rparr>"

abbreviation lanes :: "('w, 'sch, 'v) pipe \<Rightarrow> lane list" where
  "lanes s \<equiv> map lane_of (p_subs s)"

text \<open>The events a process holds: in the subscribers' channels, the fan-in and the workers.\<close>

fun held_by_fanin :: "fanin \<Rightarrow> RawEvent set" where
  "held_by_fanin (FanHolding e) = {e}"
| "held_by_fanin _ = {}"

fun held_by_worker :: "'v worker \<Rightarrow> RawEvent set" where
  "held_by_worker (Fetching e) = {e}"
| "held_by_worker (FetchBackoff e) = {e}"
| "held_by_worker (Handling e _) = {e}"
| "held_by_worker (HandleBackoff e _) = {e}"
| "held_by_worker _ = {}"

definition held_by_task :: "sub_task \<Rightarrow> RawEvent set" where
  "held_by_task t = set (s_out (t_sub t)) \<union> held_by_fanin (t_fanin t)"

definition in_flight :: "('w, 'sch, 'v) pipe \<Rightarrow> RawEvent set" where
  "in_flight s =
     (\<Union>t \<in> set (p_subs s). held_by_task t) \<union> set (p_events s) \<union> (\<Union>k \<in> set (p_workers s). held_by_worker k)"

lemma UN_set_update_subset:
  assumes "i < length xs" "f x \<subseteq> f (xs ! i) \<union> A"
  shows "(\<Union>y \<in> set (xs[i := x]). f y) \<subseteq> (\<Union>y \<in> set xs. f y) \<union> A"
proof -
  have "set (xs[i := x]) \<subseteq> insert x (set xs)" by (rule set_update_subset_insert)
  moreover have "f (xs ! i) \<subseteq> (\<Union>y \<in> set xs. f y)" using assms(1) nth_mem by blast
  ultimately show ?thesis using assms(2) by blast
qed

lemma map_update_same: "f x = f (xs ! i) \<Longrightarrow> map f (xs[i := x]) = map f xs"
  by (metis list_update_id map_update)

lemma set_task_simps [simp]:
  "p_subs (set_task i t s) = (p_subs s)[i := t]" "p_events (set_task i t s) = p_events s"
  "p_workers (set_task i t s) = p_workers s" "p_cursor (set_task i t s) = p_cursor s"
  "p_pending (set_task i t s) = p_pending s" "p_cache (set_task i t s) = p_cache s"
  "p_world (set_task i t s) = p_world s" "p_canceled (set_task i t s) = p_canceled s"
  by (simp_all add: set_task_def)

lemma set_worker_simps [simp]:
  "p_subs (set_worker j k s) = p_subs s" "p_events (set_worker j k s) = p_events s"
  "p_workers (set_worker j k s) = (p_workers s)[j := k]" "p_cursor (set_worker j k s) = p_cursor s"
  "p_pending (set_worker j k s) = p_pending s" "p_cache (set_worker j k s) = p_cache s"
  "p_world (set_worker j k s) = p_world s" "p_canceled (set_worker j k s) = p_canceled s"
  by (simp_all add: set_worker_def)

lemma in_flight_eq [simp]:
  "in_flight (s\<lparr>p_world := w\<rparr>) = in_flight s" "in_flight (s\<lparr>p_cache := ca\<rparr>) = in_flight s"
  "in_flight (s\<lparr>p_cursor := c\<rparr>) = in_flight s" "in_flight (s\<lparr>p_pending := pd\<rparr>) = in_flight s"
  "in_flight (s\<lparr>p_canceled := b\<rparr>) = in_flight s"
  "in_flight (set_task i t s\<lparr>p_events := p_events s\<rparr>) = in_flight (set_task i t s)"
  "in_flight (set_worker j k s\<lparr>p_events := p_events s\<rparr>) = in_flight (set_worker j k s)"
  by (simp_all add: in_flight_def)

lemma in_flight_set_task:
  assumes "i < length (p_subs s)" "held_by_task t \<subseteq> held_by_task (p_subs s ! i) \<union> A"
  shows "in_flight (set_task i t s) \<subseteq> in_flight s \<union> A"
  using UN_set_update_subset [of i "p_subs s" held_by_task t A] assms by (auto simp: in_flight_def)

lemma in_flight_set_worker:
  assumes "j < length (p_workers s)" "held_by_worker k \<subseteq> held_by_worker (p_workers s ! j) \<union> A"
  shows "in_flight (set_worker j k s) \<subseteq> in_flight s \<union> A"
  using UN_set_update_subset [of j "p_workers s" held_by_worker k A] assms by (auto simp: in_flight_def)

lemma held_in_flight:
  "i < length (p_subs s) \<Longrightarrow> held_by_task (p_subs s ! i) \<subseteq> in_flight s"
  "j < length (p_workers s) \<Longrightarrow> held_by_worker (p_workers s ! j) \<subseteq> in_flight s"
  "set (p_events s) \<subseteq> in_flight s"
  unfolding in_flight_def using nth_mem by blast+

lemma ack_first_lanes [simp]: "map lane_of (ack_first topic ts) = map lane_of ts"
  by (induction ts) (auto simp: lane_of_def)

lemma ack_first_held: "(\<Union>t \<in> set (ack_first topic ts). held_by_task t) = (\<Union>t \<in> set ts. held_by_task t)"
  by (induction ts) (auto simp: held_by_task_def)

lemma App_ack_simps [simp]:
  "lanes (App_ack e s) = lanes s" "in_flight (App_ack e s) = in_flight s"
  "p_cursor (App_ack e s) = Done (re_Topic e) (re_Seq e) (GetReplayId (re_Event e)) (p_cursor s)"
  "p_pending (App_ack e s) = p_pending s" "p_cache (App_ack e s) = p_cache s"
  "p_world (App_ack e s) = p_world s"
  by (simp_all add: App_ack_def in_flight_def ack_first_held)

lemma held_by_task_simps [simp]:
  "held_by_task (t\<lparr>t_conn := x\<rparr>) = held_by_task t" "held_by_task (t\<lparr>t_base := b\<rparr>) = held_by_task t"
  by (simp_all add: held_by_task_def)

lemma lane_of_simps [simp]:
  "lane_of (t\<lparr>t_conn := x\<rparr>) = (lane_of t)\<lparr>l_conn := x\<rparr>" "lane_of (t\<lparr>t_fanin := f\<rparr>) = lane_of t"
  "l_topic (lane_of t) = s_topic (t_sub t)" "l_seq (lane_of t) = unat (s_seq (t_sub t))"
  "l_last (lane_of t) = s_lastReplayID (t_sub t)" "l_conn (lane_of t) = t_conn t" "l_base (lane_of t) = t_base t"
  by (simp_all add: lane_of_def)

section \<open>The contract of the surroundings\<close>

text \<open>
  \<open>stored\<close> reads the committed cursor of a topic, \<open>fin\<close> says that an event's work is done for
  good, \<open>I\<close> is an invariant of the services (the dedup cache remembers finished events only),
  \<open>provides\<close> relates a schema ID to its schemas and \<open>cok\<close> is the invariant of the schema cache.
\<close>

definition quiet :: "('w \<Rightarrow> bool) \<Rightarrow> ('w \<Rightarrow> string \<Rightarrow> bytes option) \<Rightarrow> (string \<Rightarrow> 'w \<Rightarrow> bool) \<Rightarrow> 'w \<Rightarrow> 'w \<Rightarrow> bool" where
  "quiet I stored fin w w' \<longleftrightarrow>
     stored w' = stored w \<and> (I w \<longrightarrow> I w') \<and> (\<forall>i. fin i w \<longrightarrow> fin i w')"

locale pipeline =
  fixes d :: "('w, 'sch, 'v) deps"
    and topics :: "string list"
    and I :: "'w \<Rightarrow> bool"
    and stored :: "'w \<Rightarrow> string \<Rightarrow> bytes option"
    and fin :: "string \<Rightarrow> 'w \<Rightarrow> bool"
    and provides :: "string \<Rightarrow> 'sch \<Rightarrow> bool"
    and cok :: "'sch cache \<Rightarrow> bool"
  assumes load_law: "d_load d topic w = (r, w') \<Longrightarrow>
      quiet I stored fin w w' \<and> (\<forall>rid. r = Inr rid \<longrightarrow> rid = stored w topic)"
    and subscribe_law: "d_subscribe d w = (e, w') \<Longrightarrow> quiet I stored fin w w'"
    and send_law: "d_send d req w = (e, w') \<Longrightarrow> quiet I stored fin w w'"
    and meter_law: "quiet I stored fin w (d_meter d m w)"
    and get_law: "d_get d i (c, w) = (q, (c', w')) \<Longrightarrow> cok c \<Longrightarrow>
      quiet I stored fin w w' \<and> cok c' \<and> (\<forall>sch. q = Inr sch \<longrightarrow> provides i sch)"
    and handle_law: "d_handle d ev w = (e, w') \<Longrightarrow> I w \<Longrightarrow>
      quiet I stored fin w w' \<and> (e = None \<longrightarrow> fin (de_EventID ev) w')"
    and save_law: "d_save d topic rid w = (e, w') \<Longrightarrow>
      stored w' = (stored w)(topic := rid) \<or> e \<noteq> None \<and> stored w' = stored w"
    and save_frame: "d_save d topic rid w = (e, w') \<Longrightarrow> (I w \<longrightarrow> I w') \<and> (fin i w \<longrightarrow> fin i w')"
    and cache_law: "cok NewCache"
    and topics_law: "distinct topics"
    and log_law: "log_ok (d_log d topic)"
begin

text \<open>
  An event of the log is settled when its work is done, or when its payload does not decode
  against a schema its schema ID stands for.
\<close>

definition undecodable :: "ConsumerEvent option \<Rightarrow> bool" where
  "undecodable ev \<longleftrightarrow> (\<exists>sch err. provides (GetSchemaId (GetEvent ev)) sch \<and>
     Decode (d_unmarshal d) (Some sch) (GetPayload (GetEvent ev)) = Inl err)"

definition settled :: "'w \<Rightarrow> ConsumerEvent option \<Rightarrow> bool" where
  "settled w ev \<longleftrightarrow> fin (GetId (GetEvent ev)) w \<or> undecodable ev"

definition rid_at :: "lane \<Rightarrow> nat \<Rightarrow> bytes option" where
  "rid_at l q = GetReplayId (d_log d (l_topic l) ! (l_base l + q - 1))"

text \<open>A subscriber that has emitted \<open>l_seq\<close> events emitted those from \<open>l_base\<close> on, without a gap.\<close>

definition lane_ok :: "bytes option \<Rightarrow> lane \<Rightarrow> bool" where
  "lane_ok b l \<longleftrightarrow>
     (if l_seq l = 0 then
        l_last l = None \<and>
        (\<forall>pos. l_conn l = Some pos \<longrightarrow> b \<noteq> None \<longrightarrow> at_pos (d_log d (l_topic l)) b pos)
      else
        l_base l + l_seq l \<le> length (d_log d (l_topic l)) \<and> l_last l = rid_at l (l_seq l) \<and>
        (\<forall>pos. l_conn l = Some pos \<longrightarrow> pos = l_base l + l_seq l) \<and>
        (b \<noteq> None \<longrightarrow> at_pos (d_log d (l_topic l)) b (l_base l)))"

definition carried :: "lane \<Rightarrow> RawEvent \<Rightarrow> bool" where
  "carried l r \<longleftrightarrow> (re_Topic r = l_topic l \<longrightarrow>
     0 < unat (re_Seq r) \<and> unat (re_Seq r) \<le> l_seq l \<and>
     re_Event r = d_log d (l_topic l) ! (l_base l + unat (re_Seq r) - 1))"

definition hist_ok :: "lane \<Rightarrow> history \<Rightarrow> 'w \<Rightarrow> bool" where
  "hist_ok l H w \<longleftrightarrow> (\<forall>m rid. H m = Some rid \<longrightarrow>
     0 < m \<and> m \<le> l_seq l \<and> rid = rid_at l m \<and> settled w (d_log d (l_topic l) ! (l_base l + m - 1)))"

text \<open>
  The stored cursor is the one the process started with (\<open>q = 0\<close>) or that of a finished position;
  what a running flush still has to write lies at or above it and below the mark.
\<close>

definition store_ok ::
  "bytes option \<Rightarrow> lane \<Rightarrow> nat \<Rightarrow> (string \<times> bytes option) list option \<Rightarrow> 'w \<Rightarrow> bool" where
  "store_ok b l mark pd w \<longleftrightarrow>
     (\<exists>q < mark. stored w (l_topic l) = (if q = 0 then b else rid_at l q) \<and>
        (\<forall>xs rid. pd = Some xs \<longrightarrow> (l_topic l, rid) \<in> set xs \<longrightarrow>
           (\<exists>q'. q \<le> q' \<and> 0 < q' \<and> q' < mark \<and> rid = rid_at l q')))"

abbreviation mark_of :: "committer \<Rightarrow> string \<Rightarrow> nat" where
  "mark_of c topic \<equiv> unat (tc_next (cursor_of c topic))"

definition work_inv :: "lane list \<Rightarrow> RawEvent set \<Rightarrow> committer \<Rightarrow> 'w \<Rightarrow> bool" where
  "work_inv L R c w \<longleftrightarrow>
     (\<forall>r \<in> R. re_Topic r \<in> set topics \<and> (\<forall>l \<in> set L. carried l r)) \<and>
     (\<exists>Hs. committer_repr Hs c \<and> (\<forall>l \<in> set L. hist_ok l (Hs (l_topic l)) w))"

definition flush_inv ::
  "(string \<Rightarrow> bytes option) \<Rightarrow> lane list \<Rightarrow> committer \<Rightarrow> (string \<times> bytes option) list option \<Rightarrow> 'w \<Rightarrow> bool" where
  "flush_inv B L c pd w \<longleftrightarrow>
     (\<forall>l \<in> set L. store_ok (B (l_topic l)) l (mark_of c (l_topic l)) pd w) \<and>
     (\<forall>topic \<in> set topics. tc_dirty (cursor_of c topic) \<longrightarrow> 1 < mark_of c topic) \<and>
     (\<forall>xs. pd = Some xs \<longrightarrow> distinct (map fst xs))"

definition run_inv ::
  "(string \<Rightarrow> bytes option) \<Rightarrow> lane list \<Rightarrow> RawEvent set \<Rightarrow> committer \<Rightarrow>
   (string \<times> bytes option) list option \<Rightarrow> 'sch cache \<Rightarrow> 'w \<Rightarrow> bool" where
  "run_inv B L R c pd ca w \<longleftrightarrow>
     map l_topic L = topics \<and> (\<forall>l \<in> set L. lane_ok (B (l_topic l)) l) \<and>
     work_inv L R c w \<and> flush_inv B L c pd w \<and> cok ca \<and> I w"

abbreviation inv :: "(string \<Rightarrow> bytes option) \<Rightarrow> ('w, 'sch, 'v) pipe \<Rightarrow> bool" where
  "inv B s \<equiv> run_inv B (lanes s) (in_flight s) (p_cursor s) (p_pending s) (p_cache s) (p_world s)"

section \<open>Frame lemmas\<close>

lemma settled_mono: "settled w ev \<Longrightarrow> quiet I stored fin w w' \<Longrightarrow> settled w' ev"
  by (auto simp: settled_def quiet_def)

lemma quiet_trans: "quiet I stored fin u v \<Longrightarrow> quiet I stored fin v w \<Longrightarrow> quiet I stored fin u w"
  by (simp add: quiet_def)

lemma quiet_refl: "quiet I stored fin w w"
  by (simp add: quiet_def)

lemma quiet_meter: "quiet I stored fin w w' \<Longrightarrow> quiet I stored fin w (d_meter d m w')"
  using quiet_trans meter_law by blast

lemma run_inv_frame:
  assumes "run_inv B L R c pd ca w" "quiet I stored fin w w'" "R' \<subseteq> R" "cok ca'"
  shows "run_inv B L R' c pd ca' w'"
proof -
  have "work_inv L R' c w'"
    using assms unfolding run_inv_def work_inv_def hist_ok_def by (meson settled_mono subsetD)
  moreover have "flush_inv B L c pd w'" "I w'"
    using assms by (auto simp: run_inv_def flush_inv_def store_ok_def quiet_def)
  ultimately show ?thesis using assms by (simp add: run_inv_def)
qed

lemma store_ok_cong:
  assumes "l_topic l' = l_topic l" "rid_at l' = rid_at l"
  shows "store_ok b l' k pd w = store_ok b l k pd w"
  unfolding store_ok_def assms ..

lemma run_inv_facts:
  assumes "run_inv B L R c pd ca w"
  shows "cok ca" "I w" "map l_topic L = topics" "work_inv L R c w" "flush_inv B L c pd w"
  using assms by (simp_all add: run_inv_def)

section \<open>Marks\<close>

lemma mark_bounds:
  assumes "work_inv L R c w" "l \<in> set L"
  shows "0 < mark_of c (l_topic l)" "mark_of c (l_topic l) \<le> Suc (l_seq l)"
    "0 < m \<Longrightarrow> m < mark_of c (l_topic l) \<Longrightarrow>
       m \<le> l_seq l \<and> settled w (d_log d (l_topic l) ! (l_base l + m - 1))"
proof -
  obtain H where R: "cursor_repr H (cursor_of c (l_topic l))" and H: "hist_ok l H w"
    using assms unfolding work_inv_def committer_repr_def by blast
  then have below: "m \<in> dom H" if "0 < m" "m < mark_of c (l_topic l)" for m
    using that by (simp add: cursor_repr_def repr_pre_def)
  show pos: "0 < mark_of c (l_topic l)" using R by (simp add: cursor_repr_def repr_pre_def)
  show fin: "m \<le> l_seq l \<and> settled w (d_log d (l_topic l) ! (l_base l + m - 1))"
    if "0 < m" "m < mark_of c (l_topic l)" for m
    using below [OF that] H by (auto simp: hist_ok_def)
  show "mark_of c (l_topic l) \<le> Suc (l_seq l)"
    using fin [of "mark_of c (l_topic l) - 1"] pos by linarith
qed

lemma stored_at_start:
  assumes "run_inv B L R c pd ca w" "l \<in> set L" "l_seq l = 0"
  shows "stored w (l_topic l) = B (l_topic l)"
proof -
  have "mark_of c (l_topic l) \<le> 1" using assms mark_bounds(2) [of L R c w l] by (simp add: run_inv_def)
  then show ?thesis using assms by (auto simp: run_inv_def flush_inv_def store_ok_def)
qed

lemma no_flight_at_start:
  assumes "run_inv B L R c pd ca w" "l \<in> set L" "l_seq l = 0" "r \<in> R"
  shows "re_Topic r \<noteq> l_topic l"
proof -
  have "carried l r" using assms unfolding run_inv_def work_inv_def by blast
  then show ?thesis using assms(3) by (auto simp: carried_def)
qed

section \<open>Changing one lane\<close>

lemma lane_update_mem:
  assumes "map l_topic L = topics" "i < length L" "l2 \<in> set (L[i := l'])" "l2 \<noteq> l'"
  shows "l2 \<in> set L \<and> l_topic l2 \<noteq> l_topic (L ! i)"
proof -
  obtain k where k: "k < length L" "l2 = L[i := l'] ! k" using assms(3) by (auto simp: in_set_conv_nth)
  have "k \<noteq> i" using k assms by auto
  moreover have "distinct (map l_topic L)" using assms(1) topics_law by simp
  then have "inj_on (\<lambda>k. map l_topic L ! k) {..<length L}" by (auto intro: inj_on_nth)
  ultimately have "l_topic (L ! k) \<noteq> l_topic (L ! i)"
    using k assms(2) unfolding inj_on_def by (metis lessThan_iff nth_map)
  then show ?thesis using k \<open>k \<noteq> i\<close> by auto
qed

lemma run_inv_lane:
  assumes inv: "run_inv B L R c pd ca w" and i: "i < length L"
    and T: "l_topic l' = l_topic (L ! i)" and ok: "lane_ok (B (l_topic l')) l'"
    and new: "\<forall>r \<in> R'. carried l' r \<and> (r \<in> R \<or> re_Topic r = l_topic l')"
    and H: "\<And>H. hist_ok (L ! i) H w \<Longrightarrow> hist_ok l' H w"
    and st: "store_ok (B (l_topic l')) (L ! i) (mark_of c (l_topic l')) pd w \<Longrightarrow>
      store_ok (B (l_topic l')) l' (mark_of c (l_topic l')) pd w"
  shows "run_inv B (L[i := l']) R' c pd ca w"
proof -
  have top: "map l_topic L = topics" using inv by (simp add: run_inv_def)
  have top': "map l_topic (L[i := l']) = topics" using top T map_update_same by metis
  note old = lane_update_mem [OF top i]
  have topic: "l_topic l' \<in> set topics" using top T i by (metis length_map nth_map nth_mem)
  have mem: "L ! i \<in> set L" using i by simp
  have "carried l2 r" if "l2 \<in> set (L[i := l'])" "r \<in> R'" for l2 r
    using that old [OF that(1)] new T inv by (fastforce simp: carried_def run_inv_def work_inv_def)
  moreover have "re_Topic r \<in> set topics" if "r \<in> R'" for r
    using that new topic inv by (auto simp: run_inv_def work_inv_def)
  moreover obtain Hs where Hs: "committer_repr Hs c" "\<forall>l \<in> set L. hist_ok l (Hs (l_topic l)) w"
    using inv by (auto simp: run_inv_def work_inv_def)
  have "hist_ok l2 (Hs (l_topic l2)) w" if "l2 \<in> set (L[i := l'])" for l2
    using that old [OF that] H Hs(2) mem T by metis
  ultimately have "work_inv (L[i := l']) R' c w" using Hs(1) unfolding work_inv_def by blast
  moreover have "store_ok (B (l_topic l2)) l2 (mark_of c (l_topic l2)) pd w" if "l2 \<in> set (L[i := l'])" for l2
    using that old [OF that] st mem T inv unfolding run_inv_def flush_inv_def by metis
  then have "flush_inv B (L[i := l']) c pd w" using inv by (simp add: run_inv_def flush_inv_def)
  moreover have "lane_ok (B (l_topic l2)) l2" if "l2 \<in> set (L[i := l'])" for l2
    using that old [OF that] ok inv unfolding run_inv_def by metis
  ultimately show ?thesis using inv top' by (simp add: run_inv_def)
qed

lemma lane_conn_simps [simp]:
  "rid_at (l\<lparr>l_conn := x\<rparr>) q = rid_at l q" "carried (l\<lparr>l_conn := x\<rparr>) r = carried l r"
  "hist_ok (l\<lparr>l_conn := x\<rparr>) H w = hist_ok l H w" "store_ok b (l\<lparr>l_conn := x\<rparr>) k pd w = store_ok b l k pd w"
  by (simp_all add: rid_at_def carried_def hist_ok_def store_ok_def)

lemma run_inv_conn:
  assumes "run_inv B L R c pd ca w" "i < length L" "lane_ok (B (l_topic (L ! i))) ((L ! i)\<lparr>l_conn := x\<rparr>)"
  shows "run_inv B (L[i := (L ! i)\<lparr>l_conn := x\<rparr>]) R c pd ca w"
  using assms by (intro run_inv_lane [OF assms(1,2)]) (auto simp: run_inv_def work_inv_def)

lemma run_inv_disconnect:
  assumes "run_inv B L R c pd ca w" "i < length L"
  shows "run_inv B (L[i := (L ! i)\<lparr>l_conn := None\<rparr>]) R c pd ca w"
proof (rule run_inv_conn [OF assms])
  have "lane_ok (B (l_topic (L ! i))) (L ! i)" using assms by (simp add: run_inv_def)
  then show "lane_ok (B (l_topic (L ! i))) ((L ! i)\<lparr>l_conn := None\<rparr>)" by (simp add: lane_ok_def)
qed

section \<open>Connecting and receiving\<close>

lemma open_stream_quiet:
  assumes "open_stream (d_load d) (d_subscribe d) (d_send d) (d_meter d) sub w = (r, w')"
  shows "quiet I stored fin w w'"
proof -
  obtain q w1 where q: "initialFetch (d_load d) sub w = (q, w1)" by fastforce
  then have Q1: "quiet I stored fin w w1"
    by (auto simp: initialFetch_def Let_def quiet_refl split: result_splits dest: load_law)
  obtain e w2 where e: "d_subscribe d w1 = (e, w2)" by fastforce
  note Q2 = quiet_trans [OF Q1 subscribe_law [OF e]]
  show ?thesis
    using assms q e Q1 Q2 quiet_trans [OF quiet_meter [OF Q2] send_law]
    by (auto simp: open_stream_def Let_def quiet_meter split: result_splits)
qed

lemma open_stream_request:
  assumes "open_stream (d_load d) (d_subscribe d) (d_send d) (d_meter d) sub w = (Inr req, w')"
  shows "fr_ReplayId req = (if s_lastReplayID sub = None then stored w (s_topic sub) else s_lastReplayID sub)"
    "fr_ReplayId req \<noteq> None \<Longrightarrow> fr_ReplayPreset req = CUSTOM"
proof -
  obtain w1 where "initialFetch (d_load d) sub w = (Inr req, w1)"
    using assms by (auto simp: open_stream_def Let_def split: result_splits)
  then show "fr_ReplayId req = (if s_lastReplayID sub = None then stored w (s_topic sub) else s_lastReplayID sub)"
    "fr_ReplayId req \<noteq> None \<Longrightarrow> fr_ReplayPreset req = CUSTOM"
    by (auto simp: initialFetch_def Let_def split: result_splits dest: load_law)
qed

lemma run_inv_connect:
  assumes inv: "run_inv B L R c pd ca w" and i: "i < length L" and l: "L ! i = l"
    and req: "fr_ReplayId req = (if l_last l = None then stored w (l_topic l) else l_last l)"
      "fr_ReplayId req \<noteq> None \<Longrightarrow> fr_ReplayPreset req = CUSTOM"
    and start: "server_start (d_log d (l_topic l)) req pos"
  shows "run_inv B (L[i := l\<lparr>l_conn := Some pos\<rparr>]) R c pd ca w"
proof -
  have mem: "l \<in> set L" and ok: "lane_ok (B (l_topic l)) l" using inv i l by (auto simp: run_inv_def)
  have here: "at_pos (d_log d (l_topic l)) (fr_ReplayId req) pos" if "fr_ReplayId req \<noteq> None"
    using start req(2) [OF that] server_start_pos by metis
  have "lane_ok (B (l_topic l)) (l\<lparr>l_conn := Some pos\<rparr>)"
  proof (cases "l_seq l = 0")
    case True
    then show ?thesis using ok here req stored_at_start [OF inv mem] by (simp add: lane_ok_def)
  next
    case False
    let ?p = "l_base l + l_seq l"
    have tip: "at_pos (d_log d (l_topic l)) (l_last l) ?p"
      using ok False by (auto simp: lane_ok_def at_pos_def rid_at_def)
    then have "pos = ?p"
      using here req(1) at_pos_not_None [OF log_law] at_pos_unique [OF log_law] by metis
    then show ?thesis using ok False by (simp add: lane_ok_def)
  qed
  then show ?thesis using run_inv_conn [OF inv i] l by simp
qed

lemma run_inv_receive:
  assumes inv: "run_inv B L R c pd ca w" and i: "i < length L" and l: "L ! i = l"
    and conn: "l_conn l = Some pos" "pos < length (d_log d (l_topic l))"
    and r: "re_Topic r = l_topic l" "unat (re_Seq r) = Suc (l_seq l)" "re_Event r = d_log d (l_topic l) ! pos"
    and l': "l' = l\<lparr>l_seq := Suc (l_seq l), l_last := GetReplayId (d_log d (l_topic l) ! pos),
      l_conn := Some (Suc pos), l_base := (if l_seq l = 0 then pos else l_base l)\<rparr>"
  shows "run_inv B (L[i := l']) (insert r R) c pd ca w"
proof -
  have mem: "l \<in> set L" and ok: "lane_ok (B (l_topic l)) l" and work: "work_inv L R c w"
    using inv i l by (auto simp: run_inv_def)
  have topic: "l_topic l' = l_topic l" using l' by simp
  have old: "carried l' r'" if "r' \<in> R" for r'
  proof (cases "l_seq l = 0")
    case True
    then show ?thesis using no_flight_at_start [OF inv mem True that] topic by (simp add: carried_def)
  next
    case False
    have "carried l r'" using work mem that unfolding work_inv_def by blast
    then show ?thesis using False l' by (auto simp: carried_def)
  qed
  have lane': "lane_ok (B (l_topic l')) l'" "carried l' r"
    using ok conn l' r by (auto simp: lane_ok_def carried_def rid_at_def split: if_splits)
  have "hist_ok l' H w" if "hist_ok l H w" for H
    using that l' by (fastforce simp: hist_ok_def rid_at_def)
  moreover have "store_ok b l' (mark_of c (l_topic l)) pd w" if st: "store_ok b l (mark_of c (l_topic l)) pd w" for b
  proof (cases "l_seq l = 0")
    case True
    then have m: "mark_of c (l_topic l) = Suc 0" using mark_bounds(1,2) [OF work mem] by linarith
    show ?thesis using st l' unfolding store_ok_def m by auto
  next
    case False
    then have "rid_at l' = rid_at l" using l' by (simp add: rid_at_def fun_eq_iff)
    then show ?thesis using st store_ok_cong [OF topic] by metis
  qed
  ultimately show ?thesis
    using lane' old topic l r by (intro run_inv_lane [OF inv i]) auto
qed

section \<open>Acknowledging and flushing\<close>

sublocale store: cursor_store "d_save d" stored
  by unfold_locales (use save_law in blast)+

lemma store_okI:
  assumes "q < k" "stored w (l_topic l) = (if q = 0 then b else rid_at l q)"
    "\<And>xs rid. pd = Some xs \<Longrightarrow> (l_topic l, rid) \<in> set xs \<Longrightarrow> \<exists>q'. q \<le> q' \<and> 0 < q' \<and> q' < k \<and> rid = rid_at l q'"
  shows "store_ok b l k pd w"
  using assms unfolding store_ok_def by blast

lemma store_okE:
  assumes "store_ok b l k (Some xs) w"
  obtains q where "q < k" "stored w (l_topic l) = (if q = 0 then b else rid_at l q)"
    "\<And>rid. (l_topic l, rid) \<in> set xs \<Longrightarrow> \<exists>q'. q \<le> q' \<and> 0 < q' \<and> q' < k \<and> rid = rid_at l q'"
  using assms unfolding store_ok_def by blast

lemma store_ok_mark: "store_ok b l k pd w \<Longrightarrow> k \<le> k' \<Longrightarrow> store_ok b l k' pd w"
  unfolding store_ok_def by (meson less_le_trans)

lemma lane_of_topic:
  assumes "map l_topic L = topics" "topic \<in> set topics"
  obtains l where "l \<in> set L" "l_topic l = topic"
  using assms by (metis image_iff list.set_map)

lemma run_inv_ack:
  assumes inv: "run_inv B L R c pd ca w" and r: "r \<in> R" and S: "settled w (re_Event r)"
  shows "run_inv B L R (Done (re_Topic r) (re_Seq r) (GetReplayId (re_Event r)) c) pd ca w"
proof -
  let ?t = "re_Topic r" and ?m = "unat (re_Seq r)" and ?rid = "GetReplayId (re_Event r)"
  let ?c = "Done ?t (re_Seq r) ?rid c"
  have car: "carried l r" if "l \<in> set L" for l
    using inv r that unfolding run_inv_def work_inv_def by blast
  obtain l where l: "l \<in> set L" "l_topic l = ?t"
    using inv r by (elim lane_of_topic [of L ?t, rotated -1]) (auto simp: run_inv_def work_inv_def)
  obtain Hs where Hs: "committer_repr Hs c" "\<forall>l \<in> set L. hist_ok l (Hs (l_topic l)) w"
    using inv by (auto simp: run_inv_def work_inv_def)
  have "lane_ok (B ?t) l" using inv l by (auto simp: run_inv_def)
  then have V: "valid_seq ?m"
    using car [OF l(1)] l(2) log_law [of ?t] by (auto simp: carried_def lane_ok_def valid_seq_def log_ok_def split: if_splits)
  have U: "Hs ?t ?m = None \<or> Hs ?t ?m = Some ?rid"
    using Hs(2) l car [OF l(1)] by (cases "Hs ?t ?m") (auto simp: hist_ok_def carried_def rid_at_def)
  have R': "committer_repr (Hs(?t := (Hs ?t)(?m \<mapsto> ?rid))) ?c" by (rule Done_repr [OF Hs(1) V U])
  have "hist_ok l2 ((Hs(?t := (Hs ?t)(?m \<mapsto> ?rid))) (l_topic l2)) w" if "l2 \<in> set L" for l2
    using Hs(2) that car [OF that] S by (auto simp: hist_ok_def carried_def rid_at_def)
  then have work: "work_inv L R ?c w" using inv R' unfolding run_inv_def work_inv_def by blast
  have mark: "mark_of c topic \<le> mark_of ?c topic" for topic
    using Hs(1) R' by (intro cursor_repr_mono [of "Hs topic" _ "(Hs(?t := (Hs ?t)(?m \<mapsto> ?rid))) topic"])
      (auto simp: committer_repr_def)
  have "0 < mark_of c ?t" using Hs(1) by (simp add: committer_repr_def cursor_repr_def repr_pre_def)
  then have "1 < mark_of ?c topic" if "topic \<in> set topics" "tc_dirty (cursor_of ?c topic)" for topic
    using that mark [of topic] inv done_cursor_dirtyD [of "Hs ?t" "cursor_of c ?t" "re_Seq r" ?rid] Hs(1) V U
    by (cases "topic = ?t"; cases "tc_dirty (cursor_of c topic)")
       (fastforce simp: cursor_of_Done committer_repr_def run_inv_def flush_inv_def)+
  then have "flush_inv B L ?c pd w"
    using inv mark store_ok_mark unfolding run_inv_def flush_inv_def by blast
  then show ?thesis using inv work by (simp add: run_inv_def)
qed

lemma work_inv_cursor:
  "work_inv L R c w \<Longrightarrow> (\<And>Hs. committer_repr Hs c \<Longrightarrow> committer_repr Hs c') \<Longrightarrow> work_inv L R c' w"
  unfolding work_inv_def by blast

lemma run_inv_flush_begins:
  assumes inv: "run_inv B L R c None ca w" and snap: "snapshot c = (pending, c')"
    and order: "distinct order" "set order = dom pending"
  shows "run_inv B L R c' (Some (map (\<lambda>topic. (topic, the (pending topic))) order)) ca w"
proof -
  let ?xs = "map (\<lambda>topic. (topic, the (pending topic))) order"
  have c': "c' = snd (snapshot c)" using snap by simp
  have cur: "cursor_of c' topic = (cursor_of c topic)\<lparr>tc_dirty := False\<rparr>" for topic
    using cursor_of_snapshot c' by simp
  have work: "work_inv L R c w" and fl: "flush_inv B L c None w" using inv by (auto simp: run_inv_def)
  have "store_ok (B (l_topic l)) l (mark_of c' (l_topic l)) (Some ?xs) w" if l: "l \<in> set L" for l
  proof -
    let ?k = "mark_of c (l_topic l)"
    obtain q where q: "q < ?k" "stored w (l_topic l) = (if q = 0 then B (l_topic l) else rid_at l q)"
      using fl l by (auto simp: flush_inv_def store_ok_def)
    have "rid = rid_at l (?k - 1) \<and> 1 < ?k" if "(l_topic l, rid) \<in> set ?xs" for rid
    proof -
      have p: "pending (l_topic l) = Some rid" using that order by auto
      then have "tc_dirty (cursor_of c (l_topic l))" and rid: "rid = tc_replayID (cursor_of c (l_topic l))"
        using snap by (auto simp: snapshot_def cursor_of_def split: option.splits if_splits)
      moreover have "l_topic l \<in> set topics" using inv l by (auto simp: run_inv_def)
      ultimately have k: "1 < ?k" using fl by (simp add: flush_inv_def)
      obtain H where "cursor_repr H (cursor_of c (l_topic l))" and H: "hist_ok l H w"
        using work l unfolding work_inv_def committer_repr_def by blast
      then have "?k - 1 \<in> dom H" "rid = the (H (?k - 1))"
        using k rid by (auto simp: cursor_repr_def repr_pre_def)
      then show ?thesis using H k by (auto simp: hist_ok_def)
    qed
    then have "\<exists>q'. q \<le> q' \<and> 0 < q' \<and> q' < ?k \<and> rid = rid_at l q'" if "(l_topic l, rid) \<in> set ?xs" for rid
      using that q(1) by (intro exI [of _ "?k - 1"]) fastforce
    moreover have k': "mark_of c' (l_topic l) = ?k" by (simp add: cur)
    ultimately show ?thesis unfolding k' by (intro store_okI [OF q]) (simp only: option.inject)
  qed
  then have "flush_inv B L c' (Some ?xs) w" using order by (auto simp: flush_inv_def cur comp_def)
  moreover have "work_inv L R c' w" using work c' snapshot_repr by (auto intro: work_inv_cursor)
  ultimately show ?thesis using inv by (simp add: run_inv_def)
qed

lemma flush_one_world:
  assumes "flush_one (d_save d) topic rid (c, w, fe) = Some (c', w', fe')"
  shows "I w \<longrightarrow> I w'" "fin i w \<longrightarrow> fin i w'"
    "committer_repr Hs c \<Longrightarrow> committer_repr Hs c'"
proof -
  obtain e w1 where save: "d_save d topic rid w = (e, w1)" by fastforce
  then have "w' = w1" using assms by (auto simp: flush_one_def split: option.splits)
  then show "I w \<longrightarrow> I w'" "fin i w \<longrightarrow> fin i w'" using save_frame save by blast+
  show "committer_repr Hs c'" if "committer_repr Hs c"
    using assms that save
    by (auto simp: flush_one_def split: option.splits intro: markDirty_repr [rotated])
qed

lemma store_ok_saved:
  assumes ok: "store_ok b l k (Some ((topic, rid) # rest)) w"
    and st: "stored w' = stored w \<or> stored w' = (stored w)(topic := rid)"
    and once: "\<And>x. l_topic l = topic \<Longrightarrow> (topic, x) \<notin> set rest"
  shows "store_ok b l k (Some rest) w'"
proof (rule store_okE [OF ok])
  fix q
  assume q: "q < k" "stored w (l_topic l) = (if q = 0 then b else rid_at l q)"
    and pd: "\<And>x. (l_topic l, x) \<in> set ((topic, rid) # rest) \<Longrightarrow> \<exists>q'. q \<le> q' \<and> 0 < q' \<and> q' < k \<and> x = rid_at l q'"
  show ?thesis
  proof (cases "stored w' (l_topic l) = stored w (l_topic l)")
    case True
    then show ?thesis using q pd by (intro store_okI [of q]) auto
  next
    case False
    then have t: "l_topic l = topic" and new: "stored w' (l_topic l) = rid" using st by (auto split: if_splits)
    then obtain q' where "0 < q'" "q' < k" "rid = rid_at l q'" using pd [of rid] by auto
    then show ?thesis using new t once by (intro store_okI [of q']) auto
  qed
qed

text \<open>A replay ID that is about to be saved belongs to a finished position above the stored one.\<close>

lemma pending_position:
  assumes inv: "run_inv B L R c (Some ((topic, rid) # rest)) ca w" and topic: "topic \<in> set topics"
  obtains l q q' where "l \<in> set L" "l_topic l = topic" "q \<le> q'" "0 < q'" "q' < mark_of c topic" "rid = rid_at l q'"
    "stored w topic = (if q = 0 then B topic else rid_at l q)"
proof -
  obtain l where l: "l \<in> set L" "l_topic l = topic"
    by (rule lane_of_topic [OF run_inv_facts(3) [OF inv] topic])
  have "store_ok (B topic) l (mark_of c topic) (Some ((topic, rid) # rest)) w"
    using run_inv_facts(5) [OF inv] l by (auto simp: flush_inv_def)
  then obtain q where "stored w topic = (if q = 0 then B topic else rid_at l q)"
      "\<exists>q'. q \<le> q' \<and> 0 < q' \<and> q' < mark_of c topic \<and> rid = rid_at l q'"
    using l(2) by (auto elim!: store_okE)
  then show thesis using that l by blast
qed

lemma run_inv_flush_saves:
  assumes inv: "run_inv B L R c (Some ((topic, rid) # rest)) ca w"
    and one: "flush_one (d_save d) topic rid (c, w, fe) = Some (c', w', fe')"
  shows "run_inv B L R c' (Some rest) ca w'"
proof -
  have work: "work_inv L R c w" and fl: "flush_inv B L c (Some ((topic, rid) # rest)) w"
    using inv by (auto simp: run_inv_def)
  note frame = flush_one_world [OF one]
  have "settled w' ev" if "settled w ev" for ev using that frame(2) by (auto simp: settled_def)
  then have "work_inv L R c w'" using work unfolding work_inv_def hist_ok_def by meson
  then have work': "work_inv L R c' w'" using frame(3) by (rule work_inv_cursor)
  have st: "stored w' = stored w \<or> stored w' = (stored w)(topic := rid)"
    and cur: "mark_of c' t = mark_of c t" "tc_dirty (cursor_of c' t) \<longrightarrow> tc_dirty (cursor_of c t) \<or> t = topic" for t
    using one by (auto elim!: store.flush_one_cases)
  have "store_ok (B (l_topic l)) l (mark_of c (l_topic l)) (Some rest) w'" if "l \<in> set L" for l
    using fl that by (intro store_ok_saved [OF _ st]) (force simp: flush_inv_def)+
  moreover have "1 < mark_of c topic" if "topic \<in> set topics"
    using pending_position [OF inv that] by (metis One_nat_def Suc_leI le_less_trans)
  ultimately have "flush_inv B L c' (Some rest) w'"
    using fl cur(2) unfolding flush_inv_def cur(1) by auto
  then show ?thesis using inv work' frame(1) by (simp add: run_inv_def)
qed

section \<open>Every step keeps the invariant\<close>

lemma inv_connect:
  assumes inv: "inv B s" and t: "i < length (p_subs s)" "t = p_subs s ! i"
    and opened: "open_stream (d_load d) (d_subscribe d) (d_send d) (d_meter d) (t_sub t) (p_world s) = (Inr req, w')"
    and start: "server_start (d_log d (s_topic (t_sub t))) req pos"
  shows "inv B (set_task i (t\<lparr>t_conn := Some pos\<rparr>) s\<lparr>p_world := w'\<rparr>)"
proof -
  have "run_inv B ((lanes s)[i := (lane_of t)\<lparr>l_conn := Some pos\<rparr>]) (in_flight s) (p_cursor s) (p_pending s)
      (p_cache s) (p_world s)"
    using t start open_stream_request [OF opened] by (intro run_inv_connect [OF inv]) simp_all
  moreover have "in_flight (set_task i (t\<lparr>t_conn := Some pos\<rparr>) s) \<subseteq> in_flight s"
    using t in_flight_set_task [of i s "t\<lparr>t_conn := Some pos\<rparr>" "{}"] by simp
  ultimately show ?thesis
    using run_inv_frame open_stream_quiet [OF opened] run_inv_facts(1) [OF inv] by (simp add: map_update)
qed

lemma inv_receive:
  assumes inv: "inv B s" and t: "i < length (p_subs s)" "t = p_subs s ! i" "t_conn t = Some pos"
    and pos: "pos < length (d_log d (s_topic (t_sub t)))"
    and t': "t' = t\<lparr>t_sub := emit (d_log d (s_topic (t_sub t)) ! pos) now (t_sub t), t_conn := Some (Suc pos),
      t_base := (if s_seq (t_sub t) = 0 then pos else t_base t)\<rparr>"
  shows "inv B (set_task i t' s\<lparr>p_world := d_meter d m (p_world s)\<rparr>)"
proof -
  let ?ev = "d_log d (s_topic (t_sub t)) ! pos"
  let ?l = "lane_of t" and ?r = "next_raw (t_sub t) ?ev now"
  have "lane_ok (B (l_topic ?l)) ?l" using inv t by (simp add: run_inv_def)
  then have "unat (s_seq (t_sub t)) < 2 ^ 64 - 1"
    using log_law [of "s_topic (t_sub t)"] by (auto simp: lane_ok_def log_ok_def split: if_splits)
  then have seq: "unat (s_seq (t_sub t) + 1) = Suc (unat (s_seq (t_sub t)))" by (rule unat_Suc_word)
  have "run_inv B ((lanes s)[i := lane_of t']) (insert ?r (in_flight s)) (p_cursor s) (p_pending s) (p_cache s) (p_world s)"
    using t pos seq t' by (intro run_inv_receive [OF inv, of i ?l pos]) (auto simp: lane_of_def unat_eq_0)
  moreover have "in_flight (set_task i t' s) \<subseteq> in_flight s \<union> {?r}"
    using t t' by (intro in_flight_set_task) (auto simp: held_by_task_def)
  ultimately show ?thesis
    using run_inv_frame meter_law run_inv_facts(1) [OF inv] by (simp add: map_update)
qed

lemma inv_task_flow:
  assumes inv: "inv B s" and t: "i < length (p_subs s)" "lane_of t' = lane_of (p_subs s ! i)"
    and held: "held_by_task t' \<union> set evs \<subseteq> in_flight s"
  shows "inv B (set_task i t' s\<lparr>p_events := evs\<rparr>)"
proof -
  have "in_flight (set_task i t' s) \<subseteq> in_flight s \<union> held_by_task t'"
    using t by (intro in_flight_set_task) auto
  then have "in_flight (set_task i t' s\<lparr>p_events := evs\<rparr>) \<subseteq> in_flight s"
    using held by (auto simp: in_flight_def)
  then show ?thesis
    using run_inv_frame [OF inv quiet_refl _ run_inv_facts(1) [OF inv]] t(2) by (simp add: map_update_same)
qed

lemma inv_task_move:
  assumes inv: "inv B s" and t: "i < length (p_subs s)" "lane_of t' = lane_of (p_subs s ! i)"
    and held: "held_by_task t' \<subseteq> in_flight s"
  shows "inv B (set_task i t' s)"
  using inv_task_flow [OF inv t, of "p_events s"] held held_in_flight(3) [of s] by simp

lemma inv_worker_flow:
  assumes inv: "inv B s" and j: "j < length (p_workers s)"
    and held: "held_by_worker k \<subseteq> in_flight s" "set evs \<subseteq> set (p_events s)"
    and ca: "cok ca" and q: "quiet I stored fin (p_world s) w'"
  shows "inv B (set_worker j k s\<lparr>p_events := evs, p_cache := ca, p_world := w'\<rparr>)"
proof -
  have "in_flight (set_worker j k s) \<subseteq> in_flight s \<union> held_by_worker k"
    using j by (intro in_flight_set_worker) auto
  then have "in_flight (set_worker j k s\<lparr>p_events := evs\<rparr>) \<subseteq> in_flight s"
    using held by (auto simp: in_flight_def)
  then have "in_flight (set_worker j k s\<lparr>p_events := evs, p_cache := ca, p_world := w'\<rparr>) \<subseteq> in_flight s"
    by (simp add: in_flight_def)
  then show ?thesis using run_inv_frame [OF inv q _ ca] by simp
qed

lemma inv_ack:
  assumes inv: "inv B s" and r: "r \<in> in_flight s" and S: "settled w' (re_Event r)"
    and j: "j < length (p_workers s)" and ca: "cok ca" and q: "quiet I stored fin (p_world s) w'"
  shows "inv B (App_ack r (set_worker j Idle s\<lparr>p_cache := ca, p_world := w'\<rparr>))"
proof -
  let ?s = "set_worker j Idle s\<lparr>p_cache := ca, p_world := w'\<rparr>"
  have R: "in_flight ?s \<subseteq> in_flight s"
    using in_flight_set_worker [OF j, of Idle "{}"] by simp
  have "run_inv B (lanes s) (in_flight s) (p_cursor s) (p_pending s) ca w'"
    by (rule run_inv_frame [OF inv q subset_refl ca])
  note run_inv_ack [OF this r S]
  then have "run_inv B (lanes s) (in_flight ?s) (Done (re_Topic r) (re_Seq r) (GetReplayId (re_Event r)) (p_cursor s))
      (p_pending s) ca w'"
    using run_inv_frame [OF _ quiet_refl R ca] by blast
  then show ?thesis by simp
qed

lemma runSender_wake:
  assumes "runSender (d_send d) [SenderWake] sub w = (e, sub', w')"
  shows "quiet I stored fin w w'" "s_topic sub' = s_topic sub" "s_seq sub' = s_seq sub"
    "s_lastReplayID sub' = s_lastReplayID sub" "s_out sub' = s_out sub"
  using assms
  by (auto simp: sender_swap_def sender_take_def Let_def quiet_refl split: if_splits prod.splits option.splits
           dest: send_law)

lemma count_reconnect_quiet: "quiet I stored fin w (count_reconnect d topic reason canceled w)"
  by (simp add: count_reconnect_def quiet_meter quiet_refl)

lemma stream_closed_quiet: "quiet I stored fin w (stream_closed d topic reason canceled w)"
  unfolding stream_closed_def by (rule quiet_trans [OF quiet_meter [OF quiet_refl] count_reconnect_quiet])

lemmas world_intros = quiet_refl quiet_meter stream_closed_quiet
  quiet_trans [OF _ stream_closed_quiet] quiet_trans [OF _ count_reconnect_quiet]

lemma inv_disconnect:
  assumes inv: "inv B s" and t: "i < length (p_subs s)" "t = p_subs s ! i"
    and t': "lane_of t' = (lane_of t)\<lparr>l_conn := None\<rparr>" "held_by_task t' \<subseteq> held_by_task t"
    and q: "quiet I stored fin (p_world s) w'"
  shows "inv B (set_task i t' s\<lparr>p_world := w'\<rparr>)"
proof -
  have "in_flight (set_task i t' s) \<subseteq> in_flight s"
    using in_flight_set_task [of i s t' "{}"] t t' by simp
  moreover have "run_inv B ((lanes s)[i := (lane_of t)\<lparr>l_conn := None\<rparr>]) (in_flight s) (p_cursor s) (p_pending s)
      (p_cache s) (p_world s)"
    using run_inv_disconnect [OF inv, of i] t by simp
  ultimately show ?thesis
    using run_inv_frame q run_inv_facts(1) [OF inv] t' by (simp add: map_update)
qed

lemma inv_sender:
  assumes inv: "inv B s" and t: "i < length (p_subs s)" "t = p_subs s ! i" "t_conn t = Some pos"
    and run: "runSender (d_send d) [SenderWake] (t_sub t) (p_world s) = (e, sub', w')"
  shows "inv B (set_task i (t\<lparr>t_sub := sub', t_conn := (if e = None then Some pos else None)\<rparr>) s
    \<lparr>p_world := (if e = None then w' else stream_closed d topic reason canceled w')\<rparr>)"
proof (cases e)
  case None
  let ?t = "t\<lparr>t_sub := sub', t_conn := Some pos\<rparr>"
  have "lane_of ?t = lane_of t" using t(3) runSender_wake [OF run] by (simp add: lane_of_def)
  then have "map lane_of ((p_subs s)[i := ?t]) = lanes s" using t(2) by (intro map_update_same) simp
  moreover have "in_flight (set_task i ?t s) \<subseteq> in_flight s"
    using t runSender_wake(5) [OF run] in_flight_set_task [of i s ?t "{}"] by (simp add: held_by_task_def)
  ultimately show ?thesis
    using None run_inv_frame [OF inv runSender_wake(1) [OF run] _ run_inv_facts(1) [OF inv]] by simp
next
  case (Some err)
  have "inv B (set_task i (t\<lparr>t_sub := sub', t_conn := None\<rparr>) s\<lparr>p_world := stream_closed d topic reason canceled w'\<rparr>)"
    using runSender_wake [OF run] quiet_trans [OF runSender_wake(1) [OF run] stream_closed_quiet]
    by (intro inv_disconnect [OF inv t(1,2)]) (simp_all add: lane_of_def held_by_task_def)
  then show ?thesis using Some by simp
qed

lemma inv_same_flight:
  assumes "inv B s" "quiet I stored fin (p_world s) w'"
  shows "inv B (s\<lparr>p_world := w'\<rparr>)"
  using run_inv_frame [OF assms subset_refl run_inv_facts(1) [OF assms(1)]] by simp

text \<open>The fan-in goroutine takes an event from the subscriber's channel and hands it to the pool's.\<close>

lemma inv_fan_take:
  assumes inv: "inv B s" and t: "i < length (p_subs s)" "t = p_subs s ! i" and out: "s_out (t_sub t) = e # es"
  shows "inv B (set_task i (t\<lparr>t_fanin := FanHolding e, t_sub := (t_sub t)\<lparr>s_out := es\<rparr>\<rparr>) s)"
proof (rule inv_task_move [OF inv t(1)])
  show "lane_of (t\<lparr>t_fanin := FanHolding e, t_sub := (t_sub t)\<lparr>s_out := es\<rparr>\<rparr>) = lane_of (p_subs s ! i)"
    using t(2) by (simp add: lane_of_def)
  show "held_by_task (t\<lparr>t_fanin := FanHolding e, t_sub := (t_sub t)\<lparr>s_out := es\<rparr>\<rparr>) \<subseteq> in_flight s"
    using held_in_flight(1) [OF t(1)] t(2) out by (auto simp: held_by_task_def)
qed

lemma inv_fan_push:
  assumes inv: "inv B s" and t: "i < length (p_subs s)" "t = p_subs s ! i" and f: "t_fanin t = FanHolding e"
  shows "inv B (set_task i (t\<lparr>t_fanin := FanWaiting\<rparr>) s\<lparr>p_events := p_events s @ [e]\<rparr>)"
proof -
  have "held_by_task (t\<lparr>t_fanin := FanWaiting\<rparr>) \<union> set (p_events s @ [e]) \<subseteq> in_flight s"
    using held_in_flight(1) [OF t(1)] held_in_flight(3) [of s] t(2) f by (auto simp: held_by_task_def)
  then show ?thesis using t(2) by (intro inv_task_flow [OF inv t(1)]) simp_all
qed

lemma inv_fan_exit:
  assumes inv: "inv B s" and t: "i < length (p_subs s)" "t = p_subs s ! i"
  shows "inv B (set_task i (t\<lparr>t_fanin := FanExited\<rparr>) s)"
proof -
  have "held_by_task (t\<lparr>t_fanin := FanExited\<rparr>) \<subseteq> in_flight s"
    using held_in_flight(1) [OF t(1)] t(2) by (auto simp: held_by_task_def)
  then show ?thesis using t(2) by (intro inv_task_move [OF inv t(1)]) simp_all
qed

text \<open>A worker that moves on with the event it already holds, or gives it up.\<close>

lemma inv_worker_turn:
  assumes inv: "inv B s" and j: "j < length (p_workers s)"
    and held: "held_by_worker k \<subseteq> held_by_worker (p_workers s ! j)"
    and ca: "cok ca" and q: "quiet I stored fin (p_world s) w'"
  shows "inv B (set_worker j k s\<lparr>p_cache := ca, p_world := w'\<rparr>)"
  using inv_worker_flow [OF inv j _ subset_refl ca q] subset_trans [OF held held_in_flight(2) [OF j]] by simp

lemma inv_worker_move:
  assumes inv: "inv B s" and j: "j < length (p_workers s)"
    and held: "held_by_worker k \<subseteq> held_by_worker (p_workers s ! j)"
  shows "inv B (set_worker j k s)"
  using inv_worker_turn [OF inv j held run_inv_facts(1) [OF inv] quiet_refl] by simp

lemma inv_worker_world:
  assumes inv: "inv B s" and j: "j < length (p_workers s)"
    and held: "held_by_worker k \<subseteq> held_by_worker (p_workers s ! j)" and q: "quiet I stored fin (p_world s) w'"
  shows "inv B (set_worker j k s\<lparr>p_world := w'\<rparr>)"
  using inv_worker_turn [OF inv j held run_inv_facts(1) [OF inv] q] by simp

text \<open>An event that cannot be decoded, and one the handler has finished, are acknowledged as settled.\<close>

lemma inv_skip:
  assumes inv: "inv B s" and j: "j < length (p_workers s)" "p_workers s ! j = Fetching e"
    and get: "d_get d (raw_schema e) (p_cache s, p_world s) = (Inr sch, (c', w'))"
    and bad: "Decode (d_unmarshal d) (Some sch) (raw_payload e) = Inl err"
  shows "inv B (App_ack e (set_worker j Idle s\<lparr>p_cache := c', p_world := d_meter d m w'\<rparr>))"
proof (rule inv_ack [OF inv _ _ j(1)])
  have G: "quiet I stored fin (p_world s) w'" "cok c'" "provides (raw_schema e) sch"
    using get_law [OF get run_inv_facts(1) [OF inv]] by auto
  show "e \<in> in_flight s" using held_in_flight(2) [OF j(1)] j(2) by simp
  show "settled (d_meter d m w') (re_Event e)" using G(3) bad by (auto simp: settled_def undecodable_def)
  show "cok c'" by (rule G(2))
  show "quiet I stored fin (p_world s) (d_meter d m w')" by (rule quiet_meter [OF G(1)])
qed

lemma inv_handle_ok:
  assumes inv: "inv B s" and j: "j < length (p_workers s)" "p_workers s ! j = Handling e payload"
    and run: "d_handle d (decoded_event e payload) (p_world s) = (None, w')"
  shows "inv B (App_ack e (set_worker j Idle s\<lparr>p_world := d_meter d m (d_meter d n w')\<rparr>))"
proof -
  let ?w = "d_meter d m (d_meter d n w')"
  have G: "quiet I stored fin (p_world s) w'" "fin (raw_id e) w'"
    using handle_law [OF run run_inv_facts(2) [OF inv]] by (auto simp: decoded_event_def)
  have "settled ?w (re_Event e)"
    using G(2) quiet_meter [OF meter_law] unfolding settled_def quiet_def by blast
  moreover have "e \<in> in_flight s" using held_in_flight(2) [OF j(1)] j(2) by simp
  moreover have "quiet I stored fin (p_world s) ?w" by (intro quiet_meter G(1))
  ultimately show ?thesis
    using inv_ack [OF inv _ _ j(1) run_inv_facts(1) [OF inv]] by simp
qed

lemmas worker_laws = get_law [OF _ run_inv_facts(1)] handle_law [OF _ run_inv_facts(2)]

lemma step_inv: "pipe_step d s s' \<Longrightarrow> inv B s \<Longrightarrow> inv B s'"
proof (induction rule: pipe_step.induct)
  case (receive i s t pos now)
  show ?case by (rule inv_receive [OF receive.prems receive.hyps(1-4) refl])
next
  case (stream_ends i s t pos reason)
  show ?case
    by (rule inv_disconnect [OF stream_ends.prems stream_ends.hyps(1,2)]) (simp_all add: stream_closed_quiet)
next
  case (worker_take j s e es)
  then show ?case
    using inv_worker_flow [of B s j "Fetching e" es "p_cache s" "p_world s"] held_in_flight(3) [of s]
    by (auto simp: run_inv_facts quiet_refl)
next
  case (schema_ok j s e sch c' w' payload)
  then show ?case using worker_laws(1) by (intro inv_worker_turn) simp_all
next
  case (schema_fails j s e err c' w')
  note G = worker_laws(1) [OF schema_fails.hyps(3) schema_fails.prems]
  show ?case
    using schema_fails G inv_worker_turn [of B s j Idle c' w'] inv_worker_turn [of B s j "FetchBackoff e" c'] quiet_meter
    by simp
next
  case (handle_fails j s e payload err w')
  note G = worker_laws(2) [OF handle_fails.hyps(3) handle_fails.prems]
  show ?case
    using handle_fails G inv_worker_world [of B s j Idle w'] inv_worker_world [of B s j "HandleBackoff e payload"] quiet_meter
    by simp
next
  case (flush_ends s)
  then show ?case by (auto simp: run_inv_def flush_inv_def store_ok_def)
next
  case (connect i s t req w' pos)
  then show ?case by (intro inv_connect)
next
  case (connect_fails i s t err w' reason)
  then show ?case by (intro inv_same_flight quiet_trans [OF open_stream_quiet count_reconnect_quiet])
next
  case (connect_refused i s t req w' reason)
  then show ?case by (intro inv_same_flight quiet_trans [OF open_stream_quiet stream_closed_quiet])
next
  case (sender i s t pos e sub' w' reason)
  then show ?case by (intro inv_sender)
next
  case (fan_take i s t e es)
  then show ?case by (intro inv_fan_take)
next
  case (fan_push i s t e)
  then show ?case by (intro inv_fan_push)
next
  case (fan_exit i s t)
  then show ?case by (intro inv_fan_exit)
next
  case (worker_exit j s)
  then show ?case by (intro inv_worker_move) simp_all
next
  case (skip j s e sch c' w' err)
  then show ?case by (intro inv_skip)
next
  case (schema_again j s e)
  then show ?case by (intro inv_worker_move) simp_all
next
  case (handle_ok j s e payload w')
  then show ?case by (intro inv_handle_ok)
next
  case (handle_again j s e payload)
  then show ?case by (intro inv_worker_move) simp_all
next
  case (backoff_canceled j s e payload)
  then show ?case by (intro inv_worker_move) simp_all
qed (simp_all add: run_inv_flush_begins run_inv_flush_saves)

section \<open>What the invariant gives\<close>

lemma boot_inv: "I w \<Longrightarrow> inv (stored w) (boot topics batchSize n w)"
proof -
  let ?s = "boot topics batchSize n w"
  have lane: "lane_of (new_task batchSize topic) =
      \<lparr>l_topic = topic, l_seq = 0, l_last = None, l_conn = None, l_base = 0\<rparr>" for topic
    by (simp add: lane_of_def new_task_def NewSubscriber_def)
  have "in_flight ?s = {}"
    by (auto simp: in_flight_def boot_def held_by_task_def new_task_def NewSubscriber_def)
  moreover have "mark_of NewCommitter topic = 1" "\<not> tc_dirty (cursor_of NewCommitter topic)" for topic
    by (simp_all add: cursor_of_def NewCommitter_def newTopicCursor_def)
  ultimately show "inv (stored w) ?s" if "I w"
    using that cache_law committer_repr_new
    by (auto simp: run_inv_def work_inv_def flush_inv_def store_ok_def lane_ok_def hist_ok_def boot_def lane comp_def)
qed

text \<open>Where the stored cursor of a topic is, when the process started from position \<open>k\<close>.\<close>

lemma lane_start:
  assumes inv: "inv B s" and l: "l \<in> set (lanes s)" and B: "at_pos (d_log d (l_topic l)) (B (l_topic l)) k"
    and q: "0 < q" "q < mark_of (p_cursor s) (l_topic l)"
  shows "l_base l = k" "at_pos (d_log d (l_topic l)) (rid_at l q) (k + q)"
proof -
  have "q \<le> l_seq l" using mark_bounds(3) [OF run_inv_facts(4) [OF inv] l q] by simp
  moreover have "lane_ok (B (l_topic l)) l" using inv l by (auto simp: run_inv_def)
  ultimately have ok: "l_base l + q \<le> length (d_log d (l_topic l))"
      "B (l_topic l) \<noteq> None \<longrightarrow> at_pos (d_log d (l_topic l)) (B (l_topic l)) (l_base l)"
    using q by (auto simp: lane_ok_def split: if_splits)
  show "l_base l = k"
    using ok(2) at_pos_not_None [OF log_law B] at_pos_unique [OF log_law B] by simp
  then show "at_pos (d_log d (l_topic l)) (rid_at l q) (k + q)"
    using ok(1) q by (simp add: at_pos_def rid_at_def)
qed

lemma inv_settled:
  assumes inv: "inv B s" and T: "topic \<in> set topics" and B: "at_pos (d_log d topic) (B topic) k"
  shows "\<exists>p. k \<le> p \<and> at_pos (d_log d topic) (stored (p_world s) topic) p \<and>
    (\<forall>i. k \<le> i \<longrightarrow> i < p \<longrightarrow> settled (p_world s) (d_log d topic ! i))"
proof -
  obtain l where l: "l \<in> set (lanes s)" "l_topic l = topic"
    by (rule lane_of_topic [OF run_inv_facts(3) [OF inv] T])
  obtain q where q: "q < mark_of (p_cursor s) topic" "stored (p_world s) topic = (if q = 0 then B topic else rid_at l q)"
    using inv l unfolding run_inv_def flush_inv_def store_ok_def by blast
  show ?thesis
  proof (cases "q = 0")
    case True
    then show ?thesis using q B by (intro exI [of _ k]) simp
  next
    case False
    then have base: "l_base l = k" "at_pos (d_log d topic) (rid_at l q) (k + q)"
      using lane_start [OF inv l(1), of k q] l(2) B q by simp_all
    have "settled (p_world s) (d_log d topic ! i)" if "k \<le> i" "i < k + q" for i
      using mark_bounds(3) [OF run_inv_facts(4) [OF inv] l(1), of "Suc (i - k)"] that q(1) base(1) l(2) by simp
    then show ?thesis using False q base(2) by (intro exI [of _ "k + q"]) simp
  qed
qed

lemma step_world:
  assumes "pipe_step d s s'" "inv B s"
  shows "quiet I stored fin (p_world s) (p_world s') \<or>
    (\<exists>topic rid rest fe fe'. p_pending s = Some ((topic, rid) # rest) \<and>
       flush_one (d_save d) topic rid (p_cursor s, p_world s, fe) = Some (p_cursor s', p_world s', fe'))"
  using assms
proof (cases rule: pipe_step.cases)
  case (flush_saves topic rid rest fe c' w' fe')
  then show ?thesis by (intro disjI2) auto
qed (auto simp: App_ack_def simp del: runSender.simps
       intro: world_intros
       dest!: open_stream_quiet runSender_wake(1) get_law [OF _ run_inv_facts(1) [OF assms(2)]]
         handle_law [OF _ run_inv_facts(2) [OF assms(2)]])

lemma step_settled:
  assumes "pipe_step d s s'" "inv B s" "settled (p_world s) ev"
  shows "settled (p_world s') ev"
  using step_world [OF assms(1,2)] assms(3) settled_mono flush_one_world(2) unfolding settled_def by metis

text \<open>The committed cursor of a topic never moves back.\<close>

lemma saved_forward:
  assumes inv: "run_inv B L R c (Some ((topic, rid) # rest)) ca w" and T: "topic \<in> set topics"
    and p: "at_pos (d_log d topic) (stored w topic) p"
  shows "\<exists>p'. p \<le> p' \<and> at_pos (d_log d topic) rid p'"
proof -
  obtain l q q' where l: "l \<in> set L" "l_topic l = topic" and q': "q \<le> q'" "0 < q'" "q' < mark_of c topic" "rid = rid_at l q'"
    and q: "stored w topic = (if q = 0 then B topic else rid_at l q)"
    by (rule pending_position [OF inv T])
  have "q' \<le> l_seq l" using mark_bounds(3) [OF run_inv_facts(4) [OF inv] l(1)] l(2) q' by simp
  moreover have "lane_ok (B topic) l" using inv l by (auto simp: run_inv_def)
  ultimately have ok: "l_base l + q' \<le> length (d_log d topic)"
      "B topic \<noteq> None \<longrightarrow> at_pos (d_log d topic) (B topic) (l_base l)"
    using q' l(2) by (auto simp: lane_ok_def split: if_splits)
  then have "at_pos (d_log d topic) (stored w topic) (l_base l + q)"
    using q q' l(2) at_pos_not_None [OF log_law p] by (auto simp: at_pos_def rid_at_def)
  then have "p \<le> l_base l + q'" using at_pos_unique [OF log_law p] q'(1) by simp
  moreover have "at_pos (d_log d topic) rid (l_base l + q')"
    using ok(1) q' l(2) by (auto simp: at_pos_def rid_at_def)
  ultimately show ?thesis by blast
qed

lemma step_forward:
  assumes step: "pipe_step d s s'" and inv: "inv B s" and T: "topic \<in> set topics"
    and p: "at_pos (d_log d topic) (stored (p_world s) topic) p"
  shows "\<exists>p'. p \<le> p' \<and> at_pos (d_log d topic) (stored (p_world s') topic) p'"
  using step_world [OF step inv]
proof (elim disjE exE conjE)
  assume "quiet I stored fin (p_world s) (p_world s')"
  then show ?thesis using p by (auto simp: quiet_def)
next
  fix t rid rest fe fe'
  assume pd: "p_pending s = Some ((t, rid) # rest)"
    and one: "flush_one (d_save d) t rid (p_cursor s, p_world s, fe) = Some (p_cursor s', p_world s', fe')"
  show ?thesis
  proof (cases "stored (p_world s') topic = stored (p_world s) topic")
    case True
    then show ?thesis using p by auto
  next
    case False
    then have "t = topic" "stored (p_world s') topic = rid"
      using one by (auto elim!: store.flush_one_cases split: if_splits)
    then show ?thesis using saved_forward [OF _ T p] inv pd by simp
  qed
qed

section \<open>The service over its whole life\<close>

lemma service_inv:
  assumes "service d topics batchSize n w0 s" "I w0"
  shows "\<exists>B. inv B s"
  using assms by (induction rule: service.induct) (blast intro: boot_inv step_inv run_inv_facts(2))+

lemma service_keeps:
  assumes "service d topics batchSize n w0 s" "I w0"
  shows "I (p_world s)" "settled w0 ev \<Longrightarrow> settled (p_world s) ev"
proof -
  show "I (p_world s)" using service_inv [OF assms] run_inv_facts(2) by blast
  show "settled (p_world s) ev" if "settled w0 ev"
    using assms
  proof (induction rule: service.induct)
    case (step s s')
    then obtain B where "inv B s" using service_inv by blast
    then show ?case using step step_settled by blast
  qed (use that in simp_all)
qed

lemma service_settled:
  assumes run: "service d topics batchSize n w0 s" and I: "I w0" and T: "topic \<in> set topics"
    and k: "at_pos (d_log d topic) (stored w0 topic) k"
  shows "\<exists>p. k \<le> p \<and> at_pos (d_log d topic) (stored (p_world s) topic) p \<and>
    (\<forall>i. k \<le> i \<longrightarrow> i < p \<longrightarrow> settled (p_world s) (d_log d topic ! i))"
proof -
  let ?J = "\<lambda>s B b. inv B s \<and> k \<le> b \<and> at_pos (d_log d topic) (B topic) b \<and>
    (\<forall>i. k \<le> i \<longrightarrow> i < b \<longrightarrow> settled (p_world s) (d_log d topic ! i))"
  have extend: "\<exists>p. k \<le> p \<and> at_pos (d_log d topic) (stored (p_world s) topic) p \<and>
      (\<forall>i. k \<le> i \<longrightarrow> i < p \<longrightarrow> settled (p_world s) (d_log d topic ! i))" if J: "?J s B b" for s B b
  proof -
    obtain p where "b \<le> p" "at_pos (d_log d topic) (stored (p_world s) topic) p"
      "\<forall>i. b \<le> i \<longrightarrow> i < p \<longrightarrow> settled (p_world s) (d_log d topic ! i)"
      using inv_settled [OF _ T] J by blast
    then show ?thesis using J by (intro exI [of _ p]) (meson le_trans not_le)
  qed
  from run have "\<exists>B b. ?J s B b"
  proof (induction rule: service.induct)
    case start
    then show ?case
      using boot_inv [OF I, of batchSize n] k by (intro exI [of _ "stored w0"] exI [of _ k]) auto
  next
    case (step s s')
    then obtain B b where J: "?J s B b" by blast
    then have "?J s' B b" using step_inv step_settled step.hyps(2) by blast
    then show ?case by blast
  next
    case (restart s)
    then obtain B b where J: "?J s B b" by blast
    obtain p where p: "k \<le> p" "at_pos (d_log d topic) (stored (p_world s) topic) p"
      "\<forall>i. k \<le> i \<longrightarrow> i < p \<longrightarrow> settled (p_world s) (d_log d topic ! i)"
      using extend [OF J] by blast
    have "inv (stored (p_world s)) (boot topics batchSize n (p_world s))"
      using J boot_inv run_inv_facts(2) by blast
    then have "?J (boot topics batchSize n (p_world s)) (stored (p_world s)) p" using p by simp
    then show ?case by blast
  qed
  then show ?thesis using extend by blast
qed

end

end
