(* ===== verification/Service_Wiring.thy ===== *)
theory Service_Wiring
  imports Pipeline_Safety Root_Handler
begin

text \<open>
  The pipeline wired to its real parts, as \<open>New\<close> in \<open>src/internal/app/app.go\<close> does: the store as
  cursor loader and cursor store, the schema cache over the Pub/Sub client, the root handler over
  PostgreSQL, Kafka and Redis.
\<close>

definition app_deps ::
  "(string \<Rightarrow> ConsumerEvent option list) \<Rightarrow> (string \<Rightarrow> ('w, bytes option) call) \<Rightarrow>
   (string \<Rightarrow> bytes option \<Rightarrow> 'w action) \<Rightarrow> 'w action \<Rightarrow> (FetchRequest \<Rightarrow> 'w action) \<Rightarrow> (metric \<Rightarrow> 'w \<Rightarrow> 'w) \<Rightarrow>
   (string \<Rightarrow> ('w, string) call) \<Rightarrow> (string \<Rightarrow> go_error + 'sch) \<Rightarrow> ('sch \<Rightarrow> bytes \<Rightarrow> go_error + 'v payload) \<Rightarrow>
   ('v, 'w) handler \<Rightarrow> nat \<Rightarrow> ('w, 'sch, 'v) deps"
where
  "app_deps lg select_replay upsert_replay subscribe send meter src parse unmarshal handle flow =
     \<lparr>d_log = lg, d_load = LoadReplay select_replay, d_save = SaveReplay upsert_replay,
      d_subscribe = subscribe, d_send = send, d_meter = meter, d_get = Cache_Get src parse meter,
      d_unmarshal = unmarshal, d_handle = handle, d_events_cap = flow * 2\<rparr>"

lemma app_deps_simps [simp]:
  fixes lg select_replay upsert_replay subscribe send meter src parse unmarshal handle flow
  defines "d \<equiv> app_deps lg select_replay upsert_replay subscribe send meter src parse unmarshal handle flow"
  shows "d_log d = lg" "d_load d = LoadReplay select_replay" "d_save d = SaveReplay upsert_replay"
    "d_subscribe d = subscribe" "d_send d = send" "d_meter d = meter" "d_get d = Cache_Get src parse meter"
    "d_unmarshal d = unmarshal" "d_handle d = handle" "d_events_cap d = flow * 2"
  by (simp_all add: d_def app_deps_def)

text \<open>
  The gRPC calls reach neither the database nor Kafka nor Redis; the configured topics are
  different, and Salesforce gives the events of a topic different replay IDs.
\<close>

locale wired = services insert_event select_replay upsert_replay exists_key set_key produce_sync meter view
  for insert_event :: "event_args \<Rightarrow> ('w, int) call"
    and select_replay :: "string \<Rightarrow> ('w, bytes option) call"
    and upsert_replay :: "string \<Rightarrow> bytes option \<Rightarrow> 'w action"
    and exists_key :: "duration \<Rightarrow> string \<Rightarrow> ('w, int) call"
    and set_key :: "duration \<Rightarrow> string \<Rightarrow> duration \<Rightarrow> 'w action"
    and produce_sync :: "duration \<Rightarrow> kafka_record \<Rightarrow> 'w action"
    and meter :: "metric \<Rightarrow> 'w \<Rightarrow> 'w"
    and view :: "'w \<Rightarrow> services_view" +
  fixes subscribe :: "'w action"
    and send :: "FetchRequest \<Rightarrow> 'w action"
    and src :: "string \<Rightarrow> ('w, string) call"
    and topics :: "string list"
    and lg :: "string \<Rightarrow> ConsumerEvent option list"
  assumes subscribe_view: "subscribe w = (e, w') \<Longrightarrow> view w' = view w"
    and send_view: "send req w = (e, w') \<Longrightarrow> view w' = view w"
    and src_view: "src i w = (q, w') \<Longrightarrow> view w' = view w"
    and topics_distinct: "distinct topics"
    and logs_ok: "log_ok (lg topic)"
begin

lemma Cache_Get_view: "Cache_Get src parse meter i (c, w) = (r, (c', w')) \<Longrightarrow> view w' = view w"
  by (auto simp: Cache_Get_def fetch_schema_def meter_view dest!: src_view
        split: result_splits)

lemma is_pipeline:
  "pipeline
     (app_deps lg select_replay upsert_replay subscribe send meter src parse unmarshal
        (root_handler marshal marshal_env insert_event exists_key set_key produce_sync meter cfg) flow)
     topics (\<lambda>w. cache_sound cfg (view w)) (\<lambda>w. sv_replay (view w))
     (\<lambda>i w. event_finished cfg i (view w)) (schema_for src parse) (cache_ok src parse)"
proof -
  have same: "view w' = view w \<Longrightarrow> quiet (\<lambda>w. cache_sound cfg (view w)) (\<lambda>w. sv_replay (view w))
      (\<lambda>i w. event_finished cfg i (view w)) w w'" for w w'
    by (simp add: quiet_def)
  have cursor: "cache_sound cfg (v\<lparr>sv_replay := m\<rparr>) = cache_sound cfg v"
    "event_finished cfg i (v\<lparr>sv_replay := m\<rparr>) = event_finished cfg i v" for v m i
    by (simp_all add: cache_sound_def marked_def finished_defs)
  have handled: "quiet (\<lambda>w. cache_sound cfg (view w)) (\<lambda>w. sv_replay (view w)) (\<lambda>i w. event_finished cfg i (view w)) w w' \<and>
      (r = None \<longrightarrow> event_finished cfg (de_EventID ev) (view w'))"
    if "root_handler marshal marshal_env insert_event exists_key set_key produce_sync meter cfg ev w = (r, w')"
      "cache_sound cfg (view w)" for ev w r w'
  proof -
    note H = root_is_handler [of marshal marshal_env cfg]
    show ?thesis
      using root_handler_frame [OF that(1)] event_handler.handle_ok [OF H] event_handler.handle_inv [OF H]
        event_handler.handle_keeps [OF H] that unfolding quiet_def by blast
  qed
  have saved: "view w' = view w \<and> r \<noteq> None \<or> view w' = (view w)\<lparr>sv_replay := (sv_replay (view w))(topic := rid)\<rparr>"
    if "SaveReplay upsert_replay topic rid w = (r, w')" for topic rid w r w'
    using that SaveReplay_ok SaveReplay_err by (cases r) blast+
  show ?thesis
  proof (rule pipeline.intro, unfold app_deps_simps)
    show "quiet (\<lambda>w. cache_sound cfg (view w)) (\<lambda>w. sv_replay (view w)) (\<lambda>i w. event_finished cfg i (view w)) w w' \<and>
        (\<forall>rid. r = Inr rid \<longrightarrow> rid = sv_replay (view w) topic)"
      if "LoadReplay select_replay topic w = (r, w')" for topic w r w'
      using that same LoadReplay_view LoadReplay_ok by blast
    show "quiet (\<lambda>w. cache_sound cfg (view w)) (\<lambda>w. sv_replay (view w)) (\<lambda>i w. event_finished cfg i (view w)) w w' \<and>
        cache_ok src parse c' \<and> (\<forall>sch. q = Inr sch \<longrightarrow> schema_for src parse i sch)"
      if "Cache_Get src parse meter i (c, w) = (q, c', w')" "cache_ok src parse c" for i c w q c' w'
      using same [OF Cache_Get_view [OF that(1)]] Cache_Get_ok [OF that(2,1)] by blast
    show "(cache_sound cfg (view w) \<longrightarrow> cache_sound cfg (view w')) \<and>
        (event_finished cfg i (view w) \<longrightarrow> event_finished cfg i (view w'))"
      if "SaveReplay upsert_replay topic rid w = (r, w')" for topic rid w r w' i
      using saved [OF that] cursor by auto
    show "sv_replay (view w') = (sv_replay (view w))(topic := rid) \<or> r \<noteq> None \<and> sv_replay (view w') = sv_replay (view w)"
      if "SaveReplay upsert_replay topic rid w = (r, w')" for topic rid w r w'
      using saved [OF that] by auto
  qed (use same handled subscribe_view send_view meter_view topics_distinct logs_ok NewCache_ok in blast)+
qed

end

text \<open>The wired service is a pipeline, for every configuration of the handler.\<close>

sublocale wired \<subseteq> pipe: pipeline
  "app_deps lg select_replay upsert_replay subscribe send meter src parse unmarshal
     (root_handler marshal marshal_env insert_event exists_key set_key produce_sync meter cfg) flow"
  topics "\<lambda>w. cache_sound cfg (view w)" "\<lambda>w. sv_replay (view w)"
  "\<lambda>i w. event_finished cfg i (view w)" "schema_for src parse" "cache_ok src parse"
  for parse unmarshal marshal marshal_env cfg flow
  by (rule is_pipeline)

section \<open>The faulty environment\<close>

text \<open>
  The gRPC calls of the environment fail as its script says; \<open>texts\<close> holds the schema texts the
  server knows.
\<close>

definition env_subscribe :: "env action" where
  "env_subscribe = env_act (\<lambda>v. (None, v))"

definition env_send :: "FetchRequest \<Rightarrow> env action" where
  "env_send req = env_act (\<lambda>v. (None, v))"

definition env_schema :: "(string \<rightharpoonup> string) \<Rightarrow> string \<Rightarrow> (env, string) call" where
  "env_schema texts i =
     env_call (\<lambda>v. (case texts i of None \<Rightarrow> Inl (Foreign ''NotFound'') | Some t \<Rightarrow> Inr t, v))"

lemma env_wired:
  assumes "distinct topics" "\<And>topic. log_ok (lg topic)"
  shows "wired env_insert_event env_select_replay env_upsert_replay env_exists_key env_set_key env_produce_sync
    env_meter ev_view env_subscribe env_send (env_schema texts) topics lg"
  by unfold_locales
     (auto simp: env_subscribe_def env_send_def env_schema_def assms elim!: env_call_cases env_act_cases)

section \<open>A run\<close>

text \<open>
  A topic with two events, the second of which is published while the service is down: the
  committed cursor is the first one's. The run below connects, processes the second event and
  commits its replay ID.
\<close>

definition demo_event :: "string \<Rightarrow> byte \<Rightarrow> ConsumerEvent option" where
  "demo_event i n =
     Some \<lparr>ce_Event = Some \<lparr>pe_Id = i, pe_SchemaId = ''s1'', pe_Payload = Some [n]\<rparr>, ce_ReplayId = Some [n]\<rparr>"

definition demo_log :: "string \<Rightarrow> ConsumerEvent option list" where
  "demo_log topic = (if topic = ''/event/A'' then [demo_event ''e1'' 1, demo_event ''e2'' 2] else [])"

definition demo_env :: env where
  "demo_env =
     \<lparr>ev_view = \<lparr>sv_rows = [], sv_replay = [''/event/A'' \<mapsto> [1]], sv_keys = {}, sv_log = []\<rparr>,
      ev_serial = 1, ev_script = [], ev_metrics = []\<rparr>"

definition demo_config :: handler_config where
  "demo_config = \<lparr>hc_kafka = None, hc_redis = None\<rparr>"

text \<open>A schema is its text; a payload decodes to one field with the payload's bytes.\<close>

abbreviation demo_deps :: "(env, string, bytes) deps" where
  "demo_deps \<equiv> app_deps demo_log env_select_replay env_upsert_replay env_subscribe env_send env_meter
     (env_schema [''s1'' \<mapsto> ''{}'']) Inr (\<lambda>sch bs. Inr [(''f'', bs)])
     (root_handler (\<lambda>p. Inr (concat (map snd p))) (\<lambda>e. Inr []) env_insert_event env_exists_key env_set_key
        env_produce_sync env_meter demo_config) 100"

lemma demo_log_ok: "log_ok (demo_log topic)"
  by (auto simp: log_ok_def demo_log_def demo_event_def GetReplayId_def)

interpretation demo: wired env_insert_event env_select_replay env_upsert_replay env_exists_key env_set_key
  env_produce_sync env_meter ev_view env_subscribe env_send "env_schema [''s1'' \<mapsto> ''{}'']"
  "[''/event/A'']" demo_log
  by (rule env_wired) (simp_all add: demo_log_ok)

text \<open>The subscriber task, the event it receives and the pipeline state of the run.\<close>

definition demo_task :: "RawEvent list \<Rightarrow> 64 word \<Rightarrow> bytes option \<Rightarrow> int \<Rightarrow> nat option \<Rightarrow> fanin \<Rightarrow> nat \<Rightarrow> sub_task" where
  "demo_task out sq lr acks conn fan base =
     \<lparr>t_sub = \<lparr>s_topic = ''/event/A'', s_batchSize = 100, s_out = out, s_seq = sq, s_lastReplayID = lr,
        s_pendingAck = acks, s_ackWake = (0 < acks)\<rparr>, t_conn = conn, t_fanin = fan, t_base = base\<rparr>"

definition demo_raw :: RawEvent where
  "demo_raw = \<lparr>re_Topic = ''/event/A'', re_Seq = 1, re_Event = demo_event ''e2'' 2, re_ReceivedAt = 0\<rparr>"

definition demo_state ::
  "sub_task \<Rightarrow> RawEvent list \<Rightarrow> bytes worker \<Rightarrow> committer \<Rightarrow> (string \<times> bytes option) list option \<Rightarrow>
   string cache \<Rightarrow> env \<Rightarrow> (env, string, bytes) pipe" where
  "demo_state t evs k c pd ca w =
     \<lparr>p_subs = [t], p_events = evs, p_workers = [k], p_cursor = c, p_pending = pd, p_cache = ca,
      p_world = w, p_canceled = False\<rparr>"

lemmas demo_simps = demo_state_def demo_task_def demo_raw_def demo_log_def demo_event_def getter_defs
  set_task_def set_worker_def store_defs env_defs env_call_def env_act_def next_fault_def sql_defs
  env_subscribe_def env_send_def env_schema_def env_meter_def

abbreviation demo_service :: "(env, string, bytes) pipe \<Rightarrow> bool" where
  "demo_service \<equiv> service demo_deps [''/event/A''] 100 1 demo_env"

abbreviation demo_world :: "metric list \<Rightarrow> services_view \<Rightarrow> int \<Rightarrow> env" where
  "demo_world m v n \<equiv> \<lparr>ev_view = v, ev_serial = n, ev_script = [], ev_metrics = m\<rparr>"
abbreviation demo_view :: "event_row list \<Rightarrow> bytes \<Rightarrow> services_view" where
  "demo_view rows cur \<equiv> \<lparr>sv_rows = rows, sv_replay = [''/event/A'' \<mapsto> cur], sv_keys = {}, sv_log = []\<rparr>"

lemma demo_start:
  "demo_service (demo_state (demo_task [] 0 None 0 None FanWaiting 0) [] Idle NewCommitter None NewCache (demo_world [] (demo_view [] [1]) 1))"
  using service.start [of demo_deps "[''/event/A'']" 100 1 demo_env]
  by (simp add: boot_def new_task_def NewSubscriber_def demo_state_def demo_task_def clampToInt32_def maxInt32_def demo_env_def)

lemma demo_received:
  "\<exists>m. demo_service (demo_state (demo_task [demo_raw] 1 (Some [2]) 0 (Some 2) FanWaiting 1) [] Idle NewCommitter None NewCache
     (demo_world m (demo_view [] [1]) 1))"
proof -
  let ?t = "demo_task [] 0 None 0 None FanWaiting 0"
  let ?s = "demo_state ?t [] Idle NewCommitter None NewCache (demo_world [] (demo_view [] [1]) 1)"
  have "pipe_step demo_deps ?s (demo_state (demo_task [] 0 None 0 (Some 1) FanWaiting 0) [] Idle NewCommitter None NewCache
     (demo_world [GaugeSet ''pubsub_stream_open'' [''/event/A''] 1] (demo_view [] [1]) 1))"
    using pipe_step.connect [of 0 ?s ?t demo_deps _ _ 1]
    by (simp add: demo_simps open_stream_def initialFetch_def Let_def)
  note s1 = service.step [OF demo_start this]
  let ?t1 = "demo_task [] 0 None 0 (Some 1) FanWaiting 0"
  let ?s1 = "demo_state ?t1 [] Idle NewCommitter None NewCache (demo_world [GaugeSet ''pubsub_stream_open'' [''/event/A''] 1] (demo_view [] [1]) 1)"
  have "\<exists>m. pipe_step demo_deps ?s1 (demo_state (demo_task [demo_raw] 1 (Some [2]) 0 (Some 2) FanWaiting 1) [] Idle
      NewCommitter None NewCache (demo_world m (demo_view [] [1]) 1))"
    using pipe_step.receive [of 0 ?s1 ?t1 1 demo_deps 0]
    by (auto simp: demo_simps emit_def next_raw_def subscriberOutBuffer_def numeral_2_eq_2)
  then show ?thesis using service.step [OF s1] by blast
qed

lemma demo_handling:
  "\<exists>m ca. demo_service (demo_state (demo_task [] 1 (Some [2]) 0 (Some 2) FanWaiting 1) [] (Handling demo_raw [(''f'', [2])])
     NewCommitter None ca (demo_world m (demo_view [] [1]) 1))"
proof -
  obtain m where s2: "demo_service (demo_state (demo_task [demo_raw] 1 (Some [2]) 0 (Some 2) FanWaiting 1) [] Idle NewCommitter None NewCache
     (demo_world m (demo_view [] [1]) 1))" using demo_received by blast
  let ?w = "demo_world m (demo_view [] [1]) 1"
  let ?t2 = "demo_task [demo_raw] 1 (Some [2]) 0 (Some 2) FanWaiting 1"
  let ?s2 = "demo_state ?t2 [] Idle NewCommitter None NewCache ?w"
  let ?t3 = "demo_task [] 1 (Some [2]) 0 (Some 2) (FanHolding demo_raw) 1"
  let ?s3 = "demo_state ?t3 [] Idle NewCommitter None NewCache ?w"
  let ?t4 = "demo_task [] 1 (Some [2]) 0 (Some 2) FanWaiting 1"
  let ?s4 = "demo_state ?t4 [demo_raw] Idle NewCommitter None NewCache ?w"
  let ?s5 = "demo_state ?t4 [] (Fetching demo_raw) NewCommitter None NewCache ?w"
  have "pipe_step demo_deps ?s2 ?s3"
    using pipe_step.fan_take [of 0 ?s2 ?t2 demo_raw "[]" demo_deps] by (simp add: demo_simps)
  note s3 = service.step [OF s2 this]
  have "pipe_step demo_deps ?s3 ?s4"
    using pipe_step.fan_push [of 0 ?s3 ?t3 demo_raw demo_deps] by (simp add: demo_simps)
  note s4 = service.step [OF s3 this]
  have "pipe_step demo_deps ?s4 ?s5"
    using pipe_step.worker_take [of 0 ?s4 demo_raw "[]" demo_deps] by (simp add: demo_simps)
  note s5 = service.step [OF s4 this]
  have "\<exists>m ca. pipe_step demo_deps ?s5 (demo_state ?t4 [] (Handling demo_raw [(''f'', [2])]) NewCommitter None ca (demo_world m (demo_view [] [1]) 1))"
    using pipe_step.schema_ok [of 0 ?s5 demo_raw demo_deps "''{}''" _ _ "[(''f'', [2])]"]
    by (auto simp: demo_simps Cache_Get_def fetch_schema_def NewCache_def Decode_def)
  then show ?thesis using service.step [OF s5] by blast
qed

lemma demo_done: "Done ''/event/A'' 1 (Some [2]) NewCommitter = NewCommitter\<lparr>c_topics := [''/event/A'' \<mapsto>
   \<lparr>tc_next = 2, tc_done = Map.empty, tc_replayID = Some [2], tc_dirty = True\<rparr>]\<rparr>"
  by (simp add: Done_def NewCommitter_def newTopicCursor_def done_cursor_def advance.simps)

lemma demo_commit_step:
  "\<exists>s s'. demo_service s \<and> pipe_step demo_deps s s' \<and> sv_replay (ev_view (p_world s)) ''/event/A'' = Some [1] \<and>
     sv_replay (ev_view (p_world s')) ''/event/A'' = Some [2]"
proof -
  let ?t4 = "demo_task [] 1 (Some [2]) 0 (Some 2) FanWaiting 1"
  obtain m ca where s6: "demo_service (demo_state ?t4 [] (Handling demo_raw [(''f'', [2])])
     NewCommitter None ca (demo_world m (demo_view [] [1]) 1))" using demo_handling by blast
  let ?s6 = "demo_state ?t4 [] (Handling demo_raw [(''f'', [2])]) NewCommitter None ca (demo_world m (demo_view [] [1]) 1)"
  let ?t7 = "demo_task [] 1 (Some [2]) 1 (Some 2) FanWaiting 1"
  let ?c = "Done ''/event/A'' 1 (Some [2]) NewCommitter"
  have "\<exists>m rows. pipe_step demo_deps ?s6 (demo_state ?t7 [] Idle ?c None ca (demo_world m (demo_view rows [1]) 2))"
    using pipe_step.handle_ok [of 0 ?s6 demo_raw "[(''f'', [2])]" demo_deps]
    by (auto simp: demo_simps root_handler_def persist_stage_def Chain_Handle_def demo_config_def decoded_event_def
      PersistHandler_Handle_def App_ack_def Ack_def ack_wake_def ack_add_def int64_wrap_def)
  then obtain m rows where s7: "demo_service (demo_state ?t7 [] Idle ?c None ca (demo_world m (demo_view rows [1]) 2))"
    using service.step [OF s6] by blast
  let ?s7 = "demo_state ?t7 [] Idle ?c None ca (demo_world m (demo_view rows [1]) 2)"
  let ?s8 = "demo_state ?t7 [] Idle (snd (snapshot ?c)) (Some [(''/event/A'', Some [2])]) ca (demo_world m (demo_view rows [1]) 2)"
  have "pipe_step demo_deps ?s7 ?s8"
    using pipe_step.flush_begins [of ?s7 "fst (snapshot ?c)" "snd (snapshot ?c)" "[''/event/A'']" demo_deps]
    by (simp add: demo_state_def snapshot_def demo_done dom_def)
  note s8 = service.step [OF s7 this]
  have "\<exists>c. pipe_step demo_deps ?s8 (demo_state ?t7 [] Idle c (Some []) ca (demo_world m (demo_view rows [2]) 2))"
    using pipe_step.flush_saves [of ?s8 "''/event/A''" "Some [2]" "[]" demo_deps None]
    by (auto simp: demo_simps flush_one_def)
  then obtain c where step: "pipe_step demo_deps ?s8 (demo_state ?t7 [] Idle c (Some []) ca (demo_world m (demo_view rows [2]) 2))"
    by blast
  show ?thesis
    by (rule exI [of _ ?s8], rule exI, rule conjI [OF s8 conjI [OF step]]) (simp add: demo_state_def)
qed

lemma demo_committed:
  "\<exists>s. demo_service s \<and> sv_replay (ev_view (p_world s)) ''/event/A'' = Some [2]"
proof -
  obtain s s' :: "(env, string, bytes) pipe" where s: "demo_service s" and step: "pipe_step demo_deps s s'"
    and cur: "sv_replay (ev_view (p_world s')) ''/event/A'' = Some [2]" using demo_commit_step by blast
  have "demo_service s'" by (rule service.step [OF s step])
  then show ?thesis using cur by (intro exI conjI)
qed

end
