(* ===== verification/Auth.thy ===== *)
theory Auth
  imports Services
begin

text \<open>
  The OAuth token provider of \<open>src/internal/auth/oauth.go\<close>: the cached credentials, their expiry,
  and the exchange with the token endpoint. The HTTP round trip, the JSON decoder and \<open>url.Parse\<close>
  are parameters; \<open>now\<close> reads the clock (nanoseconds).
\<close>

section \<open>State\<close>

record Credentials =
  cr_AccessToken :: string
  cr_InstanceURL :: string
  cr_TenantID :: string

record SalesforceConfig =
  sf_ClientID :: string
  sf_ClientSecret :: string
  sf_LoginURL :: string

text \<open>The HTTP client is a reference: the default one of \<open>net/http\<close> or one the caller made.\<close>

datatype http_client = DefaultClient | CustomClient nat

record provider =
  pv_cfg :: SalesforceConfig
  pv_httpClient :: http_client
  pv_refreshAhead :: duration
  pv_defaultTTL :: duration
  pv_cached :: "Credentials option"
  pv_expiresAt :: int

definition defaultRefreshAhead :: duration where "defaultRefreshAhead = 60 * 10 ^ 9"
definition defaultTTL :: duration where "defaultTTL = 3600 * 10 ^ 9"

text \<open>The functional options of the constructor.\<close>

definition WithHTTPClient :: "http_client \<Rightarrow> provider \<Rightarrow> provider" where
  "WithHTTPClient c p = p\<lparr>pv_httpClient := c\<rparr>"

definition WithDefaultTTL :: "duration \<Rightarrow> provider \<Rightarrow> provider" where
  "WithDefaultTTL d p = p\<lparr>pv_defaultTTL := d\<rparr>"

definition WithRefreshAhead :: "duration \<Rightarrow> provider \<Rightarrow> provider" where
  "WithRefreshAhead d p = p\<lparr>pv_refreshAhead := d\<rparr>"

definition NewProvider :: "SalesforceConfig \<Rightarrow> (provider \<Rightarrow> provider) list \<Rightarrow> provider" where
  "NewProvider cfg opts = fold (\<lambda>opt p. opt p) opts
     \<lparr>pv_cfg = cfg, pv_httpClient = DefaultClient, pv_refreshAhead = defaultRefreshAhead, pv_defaultTTL = defaultTTL,
      pv_cached = None, pv_expiresAt = 0\<rparr>"

record tokenResponse =
  tr_AccessToken :: string
  tr_InstanceURL :: string
  tr_ID :: string
  tr_TokenType :: string
  tr_IssuedAt :: string
  tr_ExpiresIn :: int

section \<open>Strings\<close>

text \<open>\<open>strings.TrimRight(s, "/")\<close>, \<open>strings.Trim(s, "/")\<close> and \<open>strings.Split(s, "/")\<close>.\<close>

definition trim_right_slash :: "string \<Rightarrow> string" where
  "trim_right_slash s = rev (dropWhile (\<lambda>c. c = CHR ''/'') (rev s))"

definition trim_slash :: "string \<Rightarrow> string" where
  "trim_slash s = trim_right_slash (dropWhile (\<lambda>c. c = CHR ''/'') s)"

fun split_slash :: "string \<Rightarrow> string list" where
  "split_slash [] = [[]]"
| "split_slash (c # cs) =
     (if c = CHR ''/'' then [] # split_slash cs
      else (case split_slash cs of p # ps \<Rightarrow> (c # p) # ps | [] \<Rightarrow> [[c]]))"

text \<open>\<open>url.QueryEscape\<close> and \<open>url.Values.Encode\<close>, whose keys come out sorted.\<close>

definition hex_digit :: "nat \<Rightarrow> char" where
  "hex_digit n = ''0123456789ABCDEF'' ! (n mod 16)"

definition unreserved :: "char \<Rightarrow> bool" where
  "unreserved c \<longleftrightarrow>
     c \<in> set ''ABCDEFGHIJKLMNOPQRSTUVWXYZabcdefghijklmnopqrstuvwxyz0123456789-_.~''"

definition escape_char :: "char \<Rightarrow> string" where
  "escape_char c =
     (if unreserved c then [c]
      else if c = CHR '' '' then ''+''
      else [CHR ''%'', hex_digit (of_char c div 16), hex_digit (of_char c mod 16)])"

definition QueryEscape :: "string \<Rightarrow> string" where
  "QueryEscape s = concat (map escape_char s)"

definition token_form :: "SalesforceConfig \<Rightarrow> string" where
  "token_form cfg =
     ''client_id='' @ QueryEscape (sf_ClientID cfg) @ ''&client_secret='' @ QueryEscape (sf_ClientSecret cfg) @
     ''&grant_type=client_credentials''"

section \<open>The exchange\<close>

text \<open>\<open>url_path\<close> is the \<open>Path\<close> field of what \<open>url.Parse\<close> returns.\<close>

definition tenantIDFromIdentityURL :: "(string \<Rightarrow> go_error + string) \<Rightarrow> string \<Rightarrow> go_error + string" where
  "tenantIDFromIdentityURL url_path s =
     (if s = [] then Inl (ErrorsNew ''identity URL is empty'')
      else case url_path s of
        Inl err \<Rightarrow> Inl err
      | Inr path \<Rightarrow>
          (let parts = split_slash (trim_slash path)
           in if length parts < 2 \<or> parts ! 0 \<noteq> ''id''
              then Inl (Errorf ''unexpected identity path: %q'' [path] None)
              else if parts ! 1 = [] then Inl (ErrorsNew ''empty org id segment'')
              else Inr (parts ! 1)))"

text \<open>
  \<open>build_error\<close> is the error of \<open>http.NewRequestWithContext\<close> for a URL, if any. A POST of a form
  to a URL returns the status and the result of reading the body, or fails.
\<close>

definition fetchToken ::
  "(string \<Rightarrow> go_error option) \<Rightarrow> (http_client \<Rightarrow> string \<Rightarrow> string \<Rightarrow> ('w, int \<times> (go_error + string)) call) \<Rightarrow>
   (string \<Rightarrow> go_error + tokenResponse) \<Rightarrow> (string \<Rightarrow> go_error + string) \<Rightarrow> provider \<Rightarrow>
   ('w, Credentials \<times> duration) call"
where
  "fetchToken build_error http_post decode url_path p w =
     (let endpoint = trim_right_slash (sf_LoginURL (pv_cfg p)) @ ''/services/oauth2/token''
      in case build_error endpoint of
        Some err \<Rightarrow> (Inl (Errorf ''build request: %w'' [] (Some err)), w)
      | None \<Rightarrow>
     (case http_post (pv_httpClient p) endpoint (token_form (pv_cfg p)) w of
        (Inl err, w1) \<Rightarrow> (Inl (Errorf ''post: %w'' [] (Some err)), w1)
      | (Inr (status, Inl err), w1) \<Rightarrow> (Inl (Errorf ''read body: %w'' [] (Some err)), w1)
      | (Inr (status, Inr body), w1) \<Rightarrow>
          if status \<noteq> 200 then (Inl (Errorf ''token endpoint returned %d: %s'' [itoa (nat status), body] None), w1)
          else (case decode body of
              Inl err \<Rightarrow> (Inl (Errorf ''decode response: %w'' [] (Some err)), w1)
            | Inr tr \<Rightarrow>
                if tr_AccessToken tr = [] then (Inl (ErrorsNew ''empty access_token in token response''), w1)
                else if tr_InstanceURL tr = [] then (Inl (ErrorsNew ''empty instance_url in token response''), w1)
                else (case tenantIDFromIdentityURL url_path (tr_ID tr) of
                    Inl err \<Rightarrow> (Inl (Errorf ''parse identity URL: %w'' [] (Some err)), w1)
                  | Inr tenantID \<Rightarrow>
                      (Inr (\<lparr>cr_AccessToken = tr_AccessToken tr, cr_InstanceURL = tr_InstanceURL tr, cr_TenantID = tenantID\<rparr>,
                            if 0 < tr_ExpiresIn tr then int64_wrap (tr_ExpiresIn tr * 10 ^ 9) else pv_defaultTTL p),
                       w1)))))"

definition refresh ::
  "(provider \<Rightarrow> ('w, Credentials \<times> duration) call) \<Rightarrow> ('w \<Rightarrow> int) \<Rightarrow> (metric \<Rightarrow> 'w \<Rightarrow> 'w) \<Rightarrow>
   (provider \<times> 'w, Credentials) call"
where
  "refresh fetch now meter = (\<lambda>(p, w).
     (case fetch p w of
        (Inl err, w1) \<Rightarrow>
          (Inl (Errorf ''refresh token: %w'' [] (Some err)), (p, meter (Inc ''auth_token_refresh_total'' [''error'']) w1))
      | (Inr (creds, ttl), w1) \<Rightarrow>
          (Inr creds, (p\<lparr>pv_cached := Some creds, pv_expiresAt := now w1 + ttl\<rparr>,
                       meter (Inc ''auth_token_refresh_total'' [''success'']) w1))))"

definition fresh :: "provider \<Rightarrow> int \<Rightarrow> bool" where
  "fresh p t \<longleftrightarrow> pv_cached p \<noteq> None \<and> pv_expiresAt p - t > pv_refreshAhead p"

definition Token ::
  "(provider \<Rightarrow> ('w, Credentials \<times> duration) call) \<Rightarrow> ('w \<Rightarrow> int) \<Rightarrow> (metric \<Rightarrow> 'w \<Rightarrow> 'w) \<Rightarrow>
   (provider \<times> 'w, Credentials) call"
where
  "Token fetch now meter = (\<lambda>(p, w).
     if fresh p (now w) then (Inr (the (pv_cached p)), (p, w)) else refresh fetch now meter (p, w))"

text \<open>The gauge \<open>auth_token_expiry_seconds\<close>, in nanoseconds.\<close>

definition token_expiry :: "provider \<Rightarrow> int \<Rightarrow> duration" where
  "token_expiry p t = (if pv_cached p = None then 0 else if pv_expiresAt p - t > 0 then pv_expiresAt p - t else 0)"

section \<open>Properties\<close>

text \<open>
  What \<open>Token\<close> returns: the cached credentials, untouched and without a call, only while they
  are valid for longer than the refresh margin; otherwise freshly fetched ones, which are cached
  with their expiry, so that every later call inside their lifetime returns the same credentials
  without a call. A failed refresh leaves the cache as it was.
\<close>

lemma token_is_fresh:
  assumes "Token fetch now meter (p, w) = (r, (p', w'))"
  shows "(\<forall>c. r = Inr c \<longrightarrow>
       (pv_refreshAhead p < pv_expiresAt p - now w \<and> pv_cached p = Some c \<and> p' = p \<and> w' = w \<or>
        (\<exists>ttl w1. fetch p w = (Inr (c, ttl), w1) \<and> p' = p\<lparr>pv_cached := Some c, pv_expiresAt := now w1 + ttl\<rparr>)) \<and>
       (\<forall>w2. pv_refreshAhead p' < pv_expiresAt p' - now w2 \<longrightarrow> Token fetch now meter (p', w2) = (Inr c, (p', w2)))) \<and>
    (\<forall>err. r = Inl err \<longrightarrow> (pv_cached p = None \<or> pv_expiresAt p - now w \<le> pv_refreshAhead p) \<and> p' = p)"
  using assms
  by (auto simp: Token_def refresh_def fresh_def split: if_splits prod.splits sum.splits)

text \<open>The tenant of an identity URL.\<close>

lemma split_slash_plain: "CHR ''/'' \<notin> set s \<Longrightarrow> split_slash s = [s]"
  by (induction s) auto

lemma split_slash_append: "CHR ''/'' \<notin> set s \<Longrightarrow> split_slash (s @ CHR ''/'' # t) = s # split_slash t"
  by (induction s) auto

lemma trim_slash_path:
  assumes "org \<noteq> []" "CHR ''/'' \<notin> set user" "user \<noteq> []"
  shows "trim_slash (''/id/'' @ org @ ''/'' @ user) = ''id/'' @ org @ ''/'' @ user"
proof -
  have "rev user \<noteq> []" "hd (rev user) \<noteq> CHR ''/''"
    using assms(2,3) last_in_set [of user] by (simp, metis hd_rev)
  then have "dropWhile (\<lambda>c. c = CHR ''/'') (rev user @ xs) = rev user @ xs" for xs
    by (cases "rev user") auto
  then show ?thesis by (simp add: trim_slash_def trim_right_slash_def)
qed

text \<open>
  The credentials of a successful exchange are complete: no header value is empty, and the
  lifetime is positive unless the response claims one beyond the range of \<open>time.Duration\<close> (292
  years). From an identity URL with the path \<open>/id/ORG/USER\<close> the tenant is \<open>ORG\<close>.
\<close>

lemma fetched_credentials_complete:
  assumes "fetchToken build_error http_post decode url_path p w = (Inr (c, ttl), w')"
  shows "cr_AccessToken c \<noteq> [] \<and> cr_InstanceURL c \<noteq> [] \<and> cr_TenantID c \<noteq> [] \<and>
    (\<exists>body tr. decode body = Inr tr \<and> cr_AccessToken c = tr_AccessToken tr \<and> cr_InstanceURL c = tr_InstanceURL tr \<and>
       (0 < pv_defaultTTL p \<and> tr_ExpiresIn tr < 9223372036 \<longrightarrow> 0 < ttl) \<and>
       (\<forall>org user. url_path (tr_ID tr) = Inr (''/id/'' @ org @ ''/'' @ user) \<and> org \<noteq> [] \<and> user \<noteq> [] \<and>
          CHR ''/'' \<notin> set org \<and> CHR ''/'' \<notin> set user \<longrightarrow> cr_TenantID c = org))"
proof -
  obtain body tr tenant where tr: "decode body = Inr tr" "tr_AccessToken tr \<noteq> []" "tr_InstanceURL tr \<noteq> []"
    and tenant: "tenantIDFromIdentityURL url_path (tr_ID tr) = Inr tenant"
    and c: "c = \<lparr>cr_AccessToken = tr_AccessToken tr, cr_InstanceURL = tr_InstanceURL tr, cr_TenantID = tenant\<rparr>"
    and ttl: "ttl = (if 0 < tr_ExpiresIn tr then int64_wrap (tr_ExpiresIn tr * 10 ^ 9) else pv_defaultTTL p)"
    using assms by (auto simp: fetchToken_def Let_def split: result_splits if_splits)
  have "tenant \<noteq> []"
    using tenant by (auto simp: tenantIDFromIdentityURL_def Let_def split: if_splits sum.splits)
  moreover have "0 < ttl" if "0 < pv_defaultTTL p" "tr_ExpiresIn tr < 9223372036"
    using that ttl int64_wrap_id [of "tr_ExpiresIn tr * 10 ^ 9"] by auto
  moreover have "tenant = org"
    if "url_path (tr_ID tr) = Inr (''/id/'' @ org @ ''/'' @ user)" "org \<noteq> []" "user \<noteq> []"
      "CHR ''/'' \<notin> set org" "CHR ''/'' \<notin> set user" for org user
    using tenant that trim_slash_path [OF that(2,5,3)] split_slash_append [of org user] split_slash_plain [of user]
    by (auto simp: tenantIDFromIdentityURL_def Let_def split: if_splits)
  ultimately show ?thesis using tr c by (intro conjI exI [of _ body] exI [of _ tr] allI impI) auto
qed

end
