(* ===== verification/Pubsub_Client.thy ===== *)
theory Pubsub_Client
  imports Auth Backoff Schema_Cache Worker_Pool
begin

text \<open>
  The gRPC client of \<open>src/internal/pubsub\<close>: the retrying unary interceptor
  (\<open>interceptor.go\<close>), the per-RPC credentials (\<open>credentials.go\<close>) and the typed calls
  (\<open>client.go\<close>), with the schema source that \<open>New\<close> in \<open>src/internal/app/app.go\<close> builds on them.
  The gRPC library is a parameter: one attempt of a call (\<open>invoker\<close>), the status code of an error
  (\<open>status.Code\<close>), the name of a code, the random draw and the wait on the context.
\<close>

section \<open>Status codes and messages\<close>

text \<open>The codes of gRPC; a peer may send a number outside the named ones.\<close>

datatype Code =
    OK | Canceled | Unknown | InvalidArgument | DeadlineExceeded | NotFound | AlreadyExists
  | PermissionDenied | ResourceExhausted | FailedPrecondition | Aborted | OutOfRange | Unimplemented
  | Internal | Unavailable | DataLoss | Unauthenticated | OtherCode nat

record TopicInfo =
  ti_TopicName :: string
  ti_TenantGuid :: string
  ti_CanPublish :: bool
  ti_CanSubscribe :: bool
  ti_SchemaId :: string
  ti_RpcId :: string

record SchemaInfo =
  si_SchemaJson :: string
  si_SchemaId :: string
  si_RpcId :: string

definition new_TopicInfo :: TopicInfo where
  "new_TopicInfo = \<lparr>ti_TopicName = [], ti_TenantGuid = [], ti_CanPublish = False, ti_CanSubscribe = False,
     ti_SchemaId = [], ti_RpcId = []\<rparr>"

definition new_SchemaInfo :: SchemaInfo where
  "new_SchemaInfo = \<lparr>si_SchemaJson = [], si_SchemaId = [], si_RpcId = []\<rparr>"

definition GetSchemaJson :: "SchemaInfo option \<Rightarrow> string" where
  "GetSchemaJson x = (case x of Some s \<Rightarrow> si_SchemaJson s | None \<Rightarrow> [])"

section \<open>The unary interceptor\<close>

definition maxRetryAttempts :: nat where "maxRetryAttempts = 5"

definition isRetryable :: "Code \<Rightarrow> bool" where
  "isRetryable c \<longleftrightarrow> c = Unavailable \<or> c = DeadlineExceeded"

text \<open>
  What the interceptor uses of its surroundings. \<open>rp_draw n\<close> is \<open>rand.Int64N(n)\<close>; \<open>rp_wait d\<close> is the
  \<open>select\<close> between the context and the timer, \<open>Some\<close> the error of a context that won.
\<close>

record 'w rpc_deps =
  rp_status_Code :: "go_error \<Rightarrow> Code"
  rp_String :: "Code \<Rightarrow> string"
  rp_meter :: "metric \<Rightarrow> 'w \<Rightarrow> 'w"
  rp_draw :: "int \<Rightarrow> 'w \<Rightarrow> int \<times> 'w"
  rp_wait :: "duration \<Rightarrow> 'w \<Rightarrow> go_error option \<times> 'w"

definition rpc_done :: "'w rpc_deps \<Rightarrow> string \<Rightarrow> Code \<Rightarrow> 'w \<Rightarrow> 'w" where
  "rpc_done d method code w =
     rp_meter d (Observe ''pubsub_grpc_rpc_duration_seconds'' [method])
       (rp_meter d (Inc ''pubsub_grpc_rpc_total'' [method, rp_String d code]) w)"

text \<open>
  The loop over the attempts; \<open>lastErr\<close> is what the code returns when the loop ends by its
  condition. The cancellation path counts the call but observes no duration.
\<close>

function interceptor_loop ::
  "'w rpc_deps \<Rightarrow> string \<Rightarrow> ('w, 'a) call \<Rightarrow> nat \<Rightarrow> go_error + 'a \<Rightarrow> ('w, 'a) call"
where
  "interceptor_loop d method invoker attempt lastErr w =
     (if attempt < maxRetryAttempts then
        (case invoker w of
           (Inr reply, w1) \<Rightarrow> (Inr reply, rpc_done d method OK w1)
         | (Inl err, w1) \<Rightarrow>
             (let code = rp_status_Code d err
              in if \<not> isRetryable code \<or> attempt = maxRetryAttempts - 1
                 then (Inl err, rpc_done d method code w1)
                 else
                   (let w2 = rp_meter d (Inc ''pubsub_grpc_rpc_retries_total'' [method, rp_String d code]) w1;
                        (rnd, w3) = rp_draw d (2 * spread_of (backoff_base attempt)) w2
                    in case rp_wait d (backoffDelay attempt rnd) w3 of
                         (Some ctxErr, w4) \<Rightarrow>
                           (Inl ctxErr, rp_meter d (Inc ''pubsub_grpc_rpc_total'' [method, rp_String d Canceled]) w4)
                       | (None, w4) \<Rightarrow> interceptor_loop d method invoker (Suc attempt) (Inl err) w4)))
      else (lastErr, w))"
  by pat_completeness auto
termination
  by (relation "measure (\<lambda>(d, method, invoker, attempt, lastErr, w). maxRetryAttempts - attempt)") auto

declare interceptor_loop.simps [simp del]

text \<open>\<open>reply\<close> is the message the stub allocated: a nil \<open>lastErr\<close> would leave it as it is.\<close>

definition newUnaryInterceptor :: "'w rpc_deps \<Rightarrow> string \<Rightarrow> 'a \<Rightarrow> ('w, 'a) call \<Rightarrow> ('w, 'a) call" where
  "newUnaryInterceptor d method reply invoker = interceptor_loop d method invoker 0 (Inr reply)"

section \<open>The typed calls\<close>

abbreviation ErrTopicNotFound :: go_error where
  "ErrTopicNotFound \<equiv> Sentinel ''topic not found''"

abbreviation ErrSchemaNotFound :: go_error where
  "ErrSchemaNotFound \<equiv> Sentinel ''schema not found''"

text \<open>
  The generated stubs: allocate the reply, run the call through the interceptor. \<open>transport\<close> is one
  attempt of the RPC for the given request.
\<close>

definition stub_GetTopic :: "'w rpc_deps \<Rightarrow> (string \<Rightarrow> ('w, TopicInfo) call) \<Rightarrow> string \<Rightarrow> ('w, TopicInfo) call" where
  "stub_GetTopic d transport name =
     newUnaryInterceptor d ''/eventbus.v1.PubSub/GetTopic'' new_TopicInfo (transport name)"

definition stub_GetSchema :: "'w rpc_deps \<Rightarrow> (string \<Rightarrow> ('w, SchemaInfo) call) \<Rightarrow> string \<Rightarrow> ('w, SchemaInfo) call" where
  "stub_GetSchema d transport schemaID =
     newUnaryInterceptor d ''/eventbus.v1.PubSub/GetSchema'' new_SchemaInfo (transport schemaID)"

definition GetTopic :: "'w rpc_deps \<Rightarrow> (string \<Rightarrow> ('w, TopicInfo) call) \<Rightarrow> string \<Rightarrow> ('w, TopicInfo) call" where
  "GetTopic d transport name w =
     (case stub_GetTopic d transport name w of
        (Inl err, w') \<Rightarrow>
          if rp_status_Code d err = NotFound then (Inl (Errorf ''%w: %s'' [name] (Some ErrTopicNotFound)), w')
          else (Inl (Errorf ''GetTopic %q: %w'' [name] (Some err)), w')
      | (Inr info, w') \<Rightarrow> (Inr info, w'))"

definition GetSchema :: "'w rpc_deps \<Rightarrow> (string \<Rightarrow> ('w, SchemaInfo) call) \<Rightarrow> string \<Rightarrow> ('w, SchemaInfo) call" where
  "GetSchema d transport schemaID w =
     (case stub_GetSchema d transport schemaID w of
        (Inl err, w') \<Rightarrow>
          if rp_status_Code d err = NotFound then (Inl (Errorf ''%w: %s'' [schemaID] (Some ErrSchemaNotFound)), w')
          else (Inl (Errorf ''GetSchema %q: %w'' [schemaID] (Some err)), w')
      | (Inr info, w') \<Rightarrow> (Inr info, w'))"

text \<open>The source of the schema cache, the closure in \<open>New\<close>.\<close>

definition schema_source :: "'w rpc_deps \<Rightarrow> (string \<Rightarrow> ('w, SchemaInfo) call) \<Rightarrow> string \<Rightarrow> ('w, string) call" where
  "schema_source d transport schemaID w =
     (case GetSchema d transport schemaID w of
        (Inl err, w') \<Rightarrow> (Inl err, w')
      | (Inr info, w') \<Rightarrow> (Inr (GetSchemaJson (Some info)), w'))"

section \<open>Per-RPC credentials\<close>

definition mdAccessToken :: string where "mdAccessToken = ''accesstoken''"
definition mdInstanceURL :: string where "mdInstanceURL = ''instanceurl''"
definition mdTenantID :: string where "mdTenantID = ''tenantid''"

definition GetRequestMetadata :: "('s, Credentials) call \<Rightarrow> ('s, string \<rightharpoonup> string) call" where
  "GetRequestMetadata token s =
     (case token s of
        (Inl err, s') \<Rightarrow> (Inl (Errorf ''get token: %w'' [] (Some err)), s')
      | (Inr creds, s') \<Rightarrow>
          (Inr [mdAccessToken \<mapsto> cr_AccessToken creds, mdInstanceURL \<mapsto> cr_InstanceURL creds,
                mdTenantID \<mapsto> cr_TenantID creds], s'))"

definition RequireTransportSecurity :: bool where
  "RequireTransportSecurity = True"

section \<open>Observing the interceptor\<close>

text \<open>
  The same surroundings with a record of what happened beside the world: the result of every
  attempt and the delay of every wait.
\<close>

type_synonym ('w, 'a) traced = "'w \<times> (go_error + 'a) list \<times> duration list"

definition traced_invoker :: "('w, 'a) call \<Rightarrow> (('w, 'a) traced, 'a) call" where
  "traced_invoker invoker = (\<lambda>(w, rs, ds). case invoker w of (r, w') \<Rightarrow> (r, (w', rs @ [r], ds)))"

definition traced_deps :: "'w rpc_deps \<Rightarrow> ('w, 'a) traced rpc_deps" where
  "traced_deps d = \<lparr>rp_status_Code = rp_status_Code d, rp_String = rp_String d,
     rp_meter = (\<lambda>m (w, t). (rp_meter d m w, t)),
     rp_draw = (\<lambda>n (w, t). case rp_draw d n w of (r, w') \<Rightarrow> (r, (w', t))),
     rp_wait = (\<lambda>delay (w, rs, ds). case rp_wait d delay w of (e, w') \<Rightarrow> (e, (w', rs, ds @ [delay])))\<rparr>"

text \<open>The waits, and the results they separate.\<close>

definition waits_ok :: "duration list \<Rightarrow> bool" where
  "waits_ok ds \<longleftrightarrow> (\<forall>k < length ds. 3 * 10 ^ 8 * 2 ^ k \<le> 4 * (ds ! k) \<and> 4 * (ds ! k) < 5 * 10 ^ 8 * 2 ^ k)"

definition all_transient :: "(go_error \<Rightarrow> Code) \<Rightarrow> (go_error + 'a) list \<Rightarrow> bool" where
  "all_transient status_Code rs \<longleftrightarrow> (\<forall>r \<in> set rs. \<exists>err. r = Inl err \<and> isRetryable (status_Code err))"

lemma all_transient_simps [simp]:
  "all_transient code []"
  "all_transient code (rs @ qs) \<longleftrightarrow> all_transient code rs \<and> all_transient code qs"
  "all_transient code (r # rs) \<longleftrightarrow> (\<exists>err. r = Inl err \<and> isRetryable (code err)) \<and> all_transient code rs"
  by (auto simp: all_transient_def)

lemma waits_ok_snoc:
  "waits_ok (ds @ [delay]) \<longleftrightarrow>
     waits_ok ds \<and> 3 * 10 ^ 8 * 2 ^ length ds \<le> 4 * delay \<and> 4 * delay < 5 * 10 ^ 8 * 2 ^ length ds"
  by (auto simp: waits_ok_def nth_append less_Suc_eq)

text \<open>Every wait is within a quarter of 100 ms doubled per attempt.\<close>

lemma backoffDelay_bounds:
  assumes "attempt < 5" "0 \<le> rnd" "rnd < 2 * spread_of (backoff_base attempt)"
  shows "3 * 10 ^ 8 * 2 ^ attempt \<le> 4 * backoffDelay attempt rnd \<and> 4 * backoffDelay attempt rnd < 5 * 10 ^ 8 * 2 ^ attempt"
proof -
  have b: "backoff_base attempt = 10 ^ 8 * 2 ^ attempt" using assms(1) by (rule backoff_base_small)
  have "(4::int) dvd 10 ^ 8 * 2 ^ attempt" by (rule dvd_mult2) simp
  then have "4 * (backoff_base attempt div 4) = 10 ^ 8 * 2 ^ attempt" using b by simp
  with jittered_bounds [OF assms(2,3)] b show ?thesis unfolding backoffDelay_def by linarith
qed

lemma backoff_spread_pos: "attempt < 5 \<Longrightarrow> 0 < 2 * spread_of (backoff_base attempt)"
proof -
  assume "attempt < 5"
  then have "backoff_base attempt = 100000000 * 2 ^ attempt" by (simp add: backoff_base_small)
  moreover have "(100000000 :: int) * 1 \<le> 100000000 * 2 ^ attempt" by (intro mult_left_mono) simp_all
  ultimately have "4 \<le> backoff_base attempt" by linarith
  then show ?thesis unfolding spread_of_def by linarith
qed

text \<open>How the loop can end, from any attempt on.\<close>

definition rpc_outcome ::
  "'w rpc_deps \<Rightarrow> go_error + 'a \<Rightarrow> (go_error + 'a) list \<Rightarrow> duration list \<Rightarrow> bool" where
  "rpc_outcome d r rs ds \<longleftrightarrow>
     rs \<noteq> [] \<and> length rs \<le> 5 \<and> waits_ok ds \<and> all_transient (rp_status_Code d) (butlast rs) \<and>
     (length rs = Suc (length ds) \<and> r = last rs \<and>
        (\<forall>err. r = Inl err \<longrightarrow> \<not> isRetryable (rp_status_Code d err) \<or> length rs = 5) \<or>
      length rs = length ds \<and> length rs < 5 \<and> all_transient (rp_status_Code d) rs \<and>
        (\<exists>ctxErr v v'. r = Inl ctxErr \<and> rp_wait d (last ds) v = (Some ctxErr, v')))"

lemma traced_deps_simps [simp]:
  "rp_status_Code (traced_deps d) = rp_status_Code d" "rp_String (traced_deps d) = rp_String d"
  "rp_meter (traced_deps d) m (w, t) = (rp_meter d m w, t)"
  "rp_draw (traced_deps d) n (w, t) = (case rp_draw d n w of (r, w') \<Rightarrow> (r, (w', t)))"
  "rp_wait (traced_deps d) delay (w, rs, ds) = (case rp_wait d delay w of (e, w') \<Rightarrow> (e, (w', rs, ds @ [delay])))"
  "rpc_done (traced_deps d) method code (w, t) = (rpc_done d method code w, t)"
  "traced_invoker invoker (w, rs, ds) = (case invoker w of (r, w') \<Rightarrow> (r, (w', rs @ [r], ds)))"
  by (simp_all add: traced_deps_def rpc_done_def traced_invoker_def)

text \<open>One round of the loop: the attempt that ends it, and the attempt after which it waits.\<close>

definition final_attempt :: "'w rpc_deps \<Rightarrow> nat \<Rightarrow> go_error + 'a \<Rightarrow> bool" where
  "final_attempt d attempt q \<longleftrightarrow> (case q of Inr reply \<Rightarrow> True
     | Inl err \<Rightarrow> \<not> isRetryable (rp_status_Code d err) \<or> attempt = maxRetryAttempts - 1)"

lemma interceptor_stops:
  assumes "attempt < maxRetryAttempts" "invoker w = (q, w1)" "final_attempt d attempt q"
  shows "interceptor_loop d method invoker attempt lastErr w =
    (q, rpc_done d method (case q of Inl err \<Rightarrow> rp_status_Code d err | Inr reply \<Rightarrow> OK) w1)"
  using assms by (auto simp: interceptor_loop.simps [of _ _ _ attempt] final_attempt_def Let_def split: sum.splits)

lemma interceptor_waits:
  assumes "attempt < maxRetryAttempts" "invoker w = (Inl err, w1)" "\<not> final_attempt d attempt (Inl err :: go_error + 'a)"
    and "rp_draw d (2 * spread_of (backoff_base attempt))
           (rp_meter d (Inc ''pubsub_grpc_rpc_retries_total'' [method, rp_String d (rp_status_Code d err)]) w1) = (rnd, w3)"
    and "rp_wait d (backoffDelay attempt rnd) w3 = (e, w4)"
  shows "interceptor_loop d method invoker attempt (lastErr :: go_error + 'a) w =
    (case e of
       Some ctxErr \<Rightarrow> (Inl ctxErr, rp_meter d (Inc ''pubsub_grpc_rpc_total'' [method, rp_String d Canceled]) w4)
     | None \<Rightarrow> interceptor_loop d method invoker (Suc attempt) (Inl err) w4)"
  using assms by (simp add: interceptor_loop.simps [of _ _ _ attempt] final_attempt_def Let_def split: option.splits)

lemma final_attempt_traced [simp]: "final_attempt (traced_deps d) attempt q = final_attempt d attempt q"
  by (simp add: final_attempt_def split: sum.splits)

lemma drawn_wait_ok:
  assumes "\<And>n v. 0 < n \<Longrightarrow> 0 \<le> fst (rp_draw d n v) \<and> fst (rp_draw d n v) < n"
    and "attempt < 5" "length ds = attempt" "waits_ok ds"
    and "rp_draw d (2 * spread_of (backoff_base attempt)) v = (rnd, v')"
  shows "waits_ok (ds @ [backoffDelay attempt rnd])"
  using backoffDelay_bounds [OF assms(2)] assms(1) [OF backoff_spread_pos [OF assms(2)], of v] assms(3-)
  by (simp add: waits_ok_snoc)

lemma interceptor_loop_outcome:
  assumes draw: "\<And>n v. 0 < n \<Longrightarrow> 0 \<le> fst (rp_draw d n v) \<and> fst (rp_draw d n v) < n"
    and "attempt < 5" "length rs = attempt" "length ds = attempt"
    and "waits_ok ds" "all_transient (rp_status_Code d) rs"
    and "interceptor_loop (traced_deps d) method (traced_invoker invoker) attempt lastErr (w, rs, ds) = (r, (w', rs', ds'))"
  shows "rpc_outcome d r rs' ds'"
  using assms(2-)
proof (induction "5 - attempt" arbitrary: attempt rs ds lastErr w)
  case 0
  then show ?case by simp
next
  case (Suc n)
  then have less: "attempt < maxRetryAttempts" by (simp add: maxRetryAttempts_def)
  obtain q w1 where inv: "traced_invoker invoker (w, rs, ds) = (q, (w1, rs @ [q], ds))"
    by (cases "invoker w") simp
  show ?case
  proof (cases "final_attempt d attempt q")
    case True
    then have "r = q" "rs' = rs @ [q]" "ds' = ds"
      using Suc.prems(6) interceptor_stops [where d = "traced_deps d" and invoker = "traced_invoker invoker", OF less inv] by auto
    then show ?thesis using True Suc.prems
      by (auto simp: rpc_outcome_def final_attempt_def maxRetryAttempts_def split: sum.splits)
  next
    case False
    then obtain err where err: "q = Inl err" "isRetryable (rp_status_Code d err)" "attempt \<noteq> 4"
      by (auto simp: final_attempt_def maxRetryAttempts_def split: sum.splits)
    let ?w2 = "rp_meter d (Inc ''pubsub_grpc_rpc_retries_total'' [method, rp_String d (rp_status_Code d err)]) w1"
    obtain rnd w3 where rnd: "rp_draw d (2 * spread_of (backoff_base attempt)) ?w2 = (rnd, w3)" by fastforce
    obtain e w4 where wait: "rp_wait d (backoffDelay attempt rnd) w3 = (e, w4)" by fastforce
    let ?ds = "ds @ [backoffDelay attempt rnd]"
    have ds: "waits_ok ?ds" by (rule drawn_wait_ok [OF draw Suc.prems(1,3,4) rnd])
    have tr: "all_transient (rp_status_Code d) (rs @ [q])" using Suc.prems(5) err by simp
    note step = interceptor_waits [where d = "traced_deps d" and invoker = "traced_invoker invoker" and rnd = rnd and e = e,
        OF less inv [unfolded err(1)], of "method"]
    show ?thesis
    proof (cases e)
      case (Some ctxErr)
      then have "r = Inl ctxErr" "rs' = rs @ [q]" "ds' = ?ds"
        using step Suc.prems(6) False err(1) rnd wait by auto
      then show ?thesis using Some Suc.prems(1-3,5) err ds tr wait unfolding rpc_outcome_def by auto
    next
      case None
      then have "interceptor_loop (traced_deps d) method (traced_invoker invoker) (Suc attempt) (Inl err)
          (w4, rs @ [q], ?ds) = (r, (w', rs', ds'))"
        using step Suc.prems(6) False err(1) rnd wait by simp
      then show ?thesis using Suc.hyps Suc.prems(1-3) err(3) ds tr by (intro Suc.hyps(1)) simp_all
    qed
  qed
qed

section \<open>Complete credentials\<close>

text \<open>The provider's invariant: what it has cached is complete.\<close>

definition creds_complete :: "Credentials \<Rightarrow> bool" where
  "creds_complete c \<longleftrightarrow> cr_AccessToken c \<noteq> [] \<and> cr_InstanceURL c \<noteq> [] \<and> cr_TenantID c \<noteq> []"

definition provider_ok :: "provider \<Rightarrow> bool" where
  "provider_ok p \<longleftrightarrow> (\<forall>c. pv_cached p = Some c \<longrightarrow> creds_complete c)"

lemma tenant_nonempty: "tenantIDFromIdentityURL url_path s = Inr t \<Longrightarrow> t \<noteq> []"
  by (auto simp: tenantIDFromIdentityURL_def Let_def split: if_splits sum.splits)

lemma fetchToken_complete:
  "fetchToken build_error http_post decode url_path p w = (Inr (c, ttl), w') \<Longrightarrow> creds_complete c"
  by (auto simp: fetchToken_def creds_complete_def Let_def dest: tenant_nonempty
        split: result_splits if_splits)

lemma Token_complete:
  assumes "provider_ok p"
    and "Token (fetchToken build_error http_post decode url_path) now meter (p, w) = (r, (p', w'))"
  shows "provider_ok p' \<and> (\<forall>c. r = Inr c \<longrightarrow> creds_complete c)"
  using assms fetchToken_complete [of build_error http_post decode url_path p w]
  by (fastforce simp: Token_def refresh_def fresh_def provider_ok_def split: if_splits prod.splits sum.splits)

section \<open>Properties\<close>

text \<open>
  C25. The unary interceptor retries transient failures and nothing else: a call makes between one
  and five attempts; every attempt but the last failed with \<open>Unavailable\<close> or \<open>DeadlineExceeded\<close>; it
  returns the result of the last attempt, and then stops with a success, with an error that is
  not transient, or after five attempts, or it returns the context's error when the context ends
  a wait. The wait after attempt \<open>k\<close> (from 0) lies within a quarter of 100 ms times \<open>2^k\<close>.
\<close>

theorem interceptor_retries_transient:
  assumes "\<And>n v. 0 < n \<Longrightarrow> 0 \<le> fst (rp_draw d n v) \<and> fst (rp_draw d n v) < n"
    and "newUnaryInterceptor (traced_deps d) method reply (traced_invoker invoker) (w, [], []) = (r, (w', rs, ds))"
  shows "1 \<le> length rs \<and> length rs \<le> 5 \<and>
    (\<forall>k < length rs - 1. \<exists>err. rs ! k = Inl err \<and> rp_status_Code d err \<in> {Unavailable, DeadlineExceeded}) \<and>
    (\<forall>k < length ds. 3 * 10 ^ 8 * 2 ^ k \<le> 4 * (ds ! k) \<and> 4 * (ds ! k) < 5 * 10 ^ 8 * 2 ^ k) \<and>
    (length rs = Suc (length ds) \<and> r = last rs \<and>
       (\<forall>err. r = Inl err \<longrightarrow> rp_status_Code d err \<notin> {Unavailable, DeadlineExceeded} \<or> length rs = 5) \<or>
     length rs = length ds \<and> length rs < 5 \<and>
       (\<exists>ctxErr v v'. r = Inl ctxErr \<and> rp_wait d (last ds) v = (Some ctxErr, v')))"
proof -
  have out: "rpc_outcome d r rs ds"
    using interceptor_loop_outcome [OF assms(1), where attempt = 0 and rs = "[]" and ds = "[]"] assms(2)
    by (simp add: newUnaryInterceptor_def waits_ok_def)
  have codes: "isRetryable c \<longleftrightarrow> c \<in> {Unavailable, DeadlineExceeded}" for c by (auto simp: isRetryable_def)
  have "\<exists>err. rs ! k = Inl err \<and> rp_status_Code d err \<in> {Unavailable, DeadlineExceeded}" if "k < length rs - 1" for k
  proof -
    have "butlast rs ! k \<in> set (butlast rs)" using that by (intro nth_mem) simp
    then show ?thesis using out that unfolding rpc_outcome_def all_transient_def codes by (auto simp: nth_butlast)
  qed
  then show ?thesis using out unfolding rpc_outcome_def waits_ok_def codes
    by (intro conjI) (simp_all add: Suc_le_eq, blast)
qed

text \<open>A call that fails once and then succeeds; the world counts the attempts.\<close>

definition flaky_deps :: "nat rpc_deps" where
  "flaky_deps = \<lparr>rp_status_Code = (\<lambda>e. Unavailable), rp_String = (\<lambda>c. []), rp_meter = (\<lambda>m n. n),
     rp_draw = (\<lambda>n w. (0, w)), rp_wait = (\<lambda>d w. (None, w))\<rparr>"

definition flaky_invoker :: "(nat, string) call" where
  "flaky_invoker n = (if n = 0 then Inl (ErrorsNew ''unavailable'') else Inr ''reply'', Suc n)"

theorem interceptor_retries_transient_witness:
  "\<exists>r w' rs ds. newUnaryInterceptor (traced_deps flaky_deps) ''m'' [] (traced_invoker flaky_invoker) (0, [], []) = (r, (w', rs, ds)) \<and>
     length rs = 2 \<and> r = Inr ''reply'' \<and> 3 * 10 ^ 8 \<le> 4 * (ds ! 0) \<and> 4 * (ds ! 0) < 5 * 10 ^ 8"
proof -
  have draw: "0 \<le> fst (rp_draw flaky_deps n v) \<and> fst (rp_draw flaky_deps n v) < n" if "0 < n" for n :: int and v
    using that by (simp add: flaky_deps_def)
  let ?ds = "[backoffDelay 0 0]" and ?rs = "[Inl (ErrorsNew ''unavailable''), Inr ''reply'']"
  have run: "newUnaryInterceptor (traced_deps flaky_deps) ''m'' [] (traced_invoker flaky_invoker) (0, [], []) =
      (Inr ''reply'', (2, ?rs, ?ds))"
    by (simp add: newUnaryInterceptor_def interceptor_loop.simps maxRetryAttempts_def flaky_deps_def
          traced_deps_def traced_invoker_def flaky_invoker_def rpc_done_def isRetryable_def)
  show ?thesis using interceptor_retries_transient [OF draw run] run by auto
qed

text \<open>
  C26. Every RPC carries complete credentials: as long as the provider's cache holds none or
  complete ones, which a token refresh keeps true, the metadata is exactly the three headers, none of
  them empty; a failed refresh fails the RPC and adds no header.
\<close>

theorem rpc_headers_complete:
  assumes "provider_ok p"
    and "GetRequestMetadata (Token (fetchToken build_error http_post decode url_path) now meter) (p, w) = (r, (p', w'))"
  shows "provider_ok p' \<and>
    (\<forall>md. r = Inr md \<longrightarrow> dom md = {''accesstoken'', ''instanceurl'', ''tenantid''} \<and>
       (\<forall>k v. md k = Some v \<longrightarrow> v \<noteq> [])) \<and>
    (\<forall>err. r = Inl err \<longrightarrow> p' = p)"
proof -
  let ?token = "Token (fetchToken build_error http_post decode url_path) now meter"
  obtain q where q: "?token (p, w) = (q, (p', w'))"
    using assms(2) by (auto simp: GetRequestMetadata_def split: prod.splits sum.splits)
  note complete = Token_complete [OF assms(1) q]
  have failed: "p' = p" if "q = Inl err" for err
    using q that by (auto simp: Token_def refresh_def split: if_splits prod.splits sum.splits)
  have "(\<forall>md. r = Inr md \<longrightarrow> dom md = {''accesstoken'', ''instanceurl'', ''tenantid''} \<and>
       (\<forall>k v. md k = Some v \<longrightarrow> v \<noteq> [])) \<and> (\<forall>err. r = Inl err \<longrightarrow> p' = p)"
    using assms(2) q complete failed
    by (cases q) (auto simp: GetRequestMetadata_def creds_complete_def mdAccessToken_def mdInstanceURL_def mdTenantID_def
          split: if_splits)
  with complete show ?thesis by simp
qed

theorem rpc_headers_complete_witness:
  "let p = (NewProvider \<lparr>sf_ClientID = ''x'', sf_ClientSecret = ''y'', sf_LoginURL = ''z''\<rparr> [])
         \<lparr>pv_cached := Some \<lparr>cr_AccessToken = ''a'', cr_InstanceURL = ''i'', cr_TenantID = ''t''\<rparr>, pv_expiresAt := 3600 * 10 ^ 9\<rparr>
   in \<exists>md. GetRequestMetadata (Token (fetchToken (\<lambda>u. None) (\<lambda>c u f n. (Inl IoEOF, n)) (\<lambda>b. Inl IoEOF) (\<lambda>u. Inl IoEOF)) int (\<lambda>m n. n)) (p, 0) =
            (Inr md, (p, 0)) \<and> dom md = {''accesstoken'', ''instanceurl'', ''tenantid''} \<and> (\<forall>k v. md k = Some v \<longrightarrow> v \<noteq> [])"
proof -
  let ?p = "(NewProvider \<lparr>sf_ClientID = ''x'', sf_ClientSecret = ''y'', sf_LoginURL = ''z''\<rparr> [])
         \<lparr>pv_cached := Some \<lparr>cr_AccessToken = ''a'', cr_InstanceURL = ''i'', cr_TenantID = ''t''\<rparr>, pv_expiresAt := 3600 * 10 ^ 9\<rparr>"
  let ?t = "Token (fetchToken (\<lambda>u. None) (\<lambda>c u f n. (Inl IoEOF, n)) (\<lambda>b. Inl IoEOF) (\<lambda>u. Inl IoEOF)) int (\<lambda>m n. n)"
  have ok: "provider_ok ?p" by (simp add: provider_ok_def creds_complete_def)
  obtain md where run: "GetRequestMetadata ?t (?p, 0) = (Inr md, (?p, 0))"
    by (simp add: GetRequestMetadata_def Token_def fresh_def NewProvider_def defaultRefreshAhead_def)
  have "dom md = {''accesstoken'', ''instanceurl'', ''tenantid''} \<and> (\<forall>k v. md k = Some v \<longrightarrow> v \<noteq> [])"
    using rpc_headers_complete [OF ok run] by simp
  then show ?thesis unfolding Let_def by (intro exI [of _ md] conjI run) simp_all
qed

text \<open>
  C27. A schema ID the server does not know is an error like any other to the worker: as long as
  the RPC answers \<open>NotFound\<close>, the cache has nothing for the ID and nothing is canceled, \<open>process\<close> never
  returns for an event that names it, so the event holds its worker and the topic's cursor.
\<close>

theorem unknown_schema_blocks_worker:
  assumes "\<And>w. \<exists>err w'. transport (GetSchemaId (GetEvent (re_Event raw))) w = (Inl err, w') \<and> rp_status_Code d err = NotFound"
    and "ca_parsed c (GetSchemaId (GetEvent (re_Event raw))) = None"
    and "\<And>t. \<not> canceled t" "\<And>delay t. \<not> fst (sleep delay t) \<and> fst (snd (sleep delay t)) = fst t"
    and "\<And>m t. fst (meter' m t) = fst t"
  shows "process canceled sleep meter' (Cache_Get (schema_source d transport) parse meter) unmarshal handle ack raw (c, w) = None"
proof -
  let ?i = "GetSchemaId (GetEvent (re_Event raw))"
  let ?get = "Cache_Get (schema_source d transport) parse meter ?i"
  have lookup: "\<exists>err w'. ?get (c, v) = (Inl err, (c, w'))" for v
  proof -
    let ?v = "meter (Inc ''schema_cache_misses_total'' []) v"
    obtain err v1 where "transport ?i ?v = (Inl err, v1)" "rp_status_Code d err = NotFound" using assms(1) by blast
    then have "\<exists>e v2. schema_source d transport ?i ?v = (Inl e, v2)"
      by (simp add: schema_source_def GetSchema_def stub_GetSchema_def newUnaryInterceptor_def
            interceptor_loop.simps maxRetryAttempts_def isRetryable_def)
    then show ?thesis using assms(2) by (auto simp: Cache_Get_def fetch_schema_def)
  qed
  have fails: "fails_at canceled sleep meter' ''schema'' ?get delay t \<and>
      fst (snd (sleep delay (meter' (Inc ''events_failed_total'' [''schema'']) (snd (?get t))))) = c"
    if c: "fst t = c" for delay t
  proof -
    obtain v where t: "t = (c, v)" using c by (cases t) auto
    obtain err w' where "?get t = (Inl err, (c, w'))" using lookup [of v] t by blast
    then show ?thesis using assms(3-5) by (simp add: fails_at_def)
  qed
  have "retry_from canceled sleep meter' ''schema'' ?get retryMinDelay (c, w) \<noteq> Some y" for y
    using retry_from_forever [of canceled sleep meter' "''schema''" ?get retryMinDelay "(c, w)" y "\<lambda>t. fst t = c"] fails by auto
  then have "retry_from canceled sleep meter' ''schema'' ?get retryMinDelay (c, w) = None" by (metis option.exhaust)
  then show ?thesis by (simp add: process_def retry_def)
qed

theorem unknown_schema_blocks_worker_witness:
  "process (\<lambda>t. False) (\<lambda>delay t. (False, t)) (\<lambda>m t. t)
     (Cache_Get (schema_source (flaky_deps\<lparr>rp_status_Code := (\<lambda>e. NotFound)\<rparr>) (\<lambda>i n. (Inl (ErrorsNew ''not found''), n)))
        Inr (\<lambda>m n. n)) (\<lambda>sch bs. Inr [(''f'', bs)]) (\<lambda>e t. (None, t)) (\<lambda>r t. t) sample_raw (NewCache, 0) = None"
  by (rule unknown_schema_blocks_worker) (simp_all add: NewCache_def)

end
