(* ===== verification/Client_Wiring.thy ===== *)
theory Client_Wiring
  imports Service_Wiring Pubsub_Client
begin

text \<open>
  The wired service over the Pub/Sub client: \<open>New\<close> in \<open>src/internal/app/app.go\<close> gives the schema
  cache a source that calls \<open>GetSchema\<close>, which runs through the retrying interceptor. Nothing the
  client does between two attempts (counting, drawing the jitter, waiting) reaches the database,
  Kafka or Redis, so the service with that source is \<open>wired\<close>, and every property of the pipeline
  holds of it.
\<close>

locale client_wired = services insert_event select_replay upsert_replay exists_key set_key produce_sync meter view
  for insert_event :: "event_args \<Rightarrow> ('w, int) call"
    and select_replay :: "string \<Rightarrow> ('w, bytes option) call"
    and upsert_replay :: "string \<Rightarrow> bytes option \<Rightarrow> 'w action"
    and exists_key :: "duration \<Rightarrow> string \<Rightarrow> ('w, int) call"
    and set_key :: "duration \<Rightarrow> string \<Rightarrow> duration \<Rightarrow> 'w action"
    and produce_sync :: "duration \<Rightarrow> kafka_record \<Rightarrow> 'w action"
    and meter :: "metric \<Rightarrow> 'w \<Rightarrow> 'w"
    and view :: "'w \<Rightarrow> services_view" +
  fixes subscribe :: "'w action"
    and send :: "FetchRequest \<Rightarrow> 'w action"
    and rpc :: "'w rpc_deps"
    and transport :: "string \<Rightarrow> ('w, SchemaInfo) call"
    and topics :: "string list"
    and lg :: "string \<Rightarrow> ConsumerEvent option list"
  assumes subscribe_keeps: "subscribe w = (e, w') \<Longrightarrow> view w' = view w"
    and send_keeps: "send req w = (e, w') \<Longrightarrow> view w' = view w"
    and transport_keeps: "transport i w = (q, w') \<Longrightarrow> view w' = view w"
    and rpc_meter_keeps: "view (rp_meter rpc m w) = view w"
    and draw_keeps: "rp_draw rpc n w = (k, w') \<Longrightarrow> view w' = view w"
    and wait_keeps: "rp_wait rpc delay w = (e, w') \<Longrightarrow> view w' = view w"
    and distinct_topics: "distinct topics"
    and ordered_logs: "log_ok (lg topic)"
begin

lemma rpc_done_keeps [simp]: "view (rpc_done rpc method code w) = view w"
  by (simp add: rpc_done_def rpc_meter_keeps)

lemma attempts_keep:
  assumes inv: "\<And>w q w'. invoker w = (q, w') \<Longrightarrow> view w' = view w"
    and "interceptor_loop rpc method invoker attempt lastErr w = (r, w')"
  shows "view w' = view w"
  using assms(2)
proof (induction "maxRetryAttempts - attempt" arbitrary: attempt lastErr w)
  case 0
  then show ?case by (simp add: interceptor_loop.simps)
next
  case (Suc n)
  then have less: "attempt < maxRetryAttempts" by simp
  obtain q w1 where q: "invoker w = (q, w1)" by (cases "invoker w")
  show ?case
  proof (cases "final_attempt rpc attempt q")
    case True
    then show ?thesis using Suc.prems interceptor_stops [where invoker = invoker, OF less q] inv [OF q] by auto
  next
    case False
    then obtain err where err: "q = Inl err" by (auto simp: final_attempt_def split: sum.splits)
    let ?w2 = "rp_meter rpc (Inc ''pubsub_grpc_rpc_retries_total'' [method, rp_String rpc (rp_status_Code rpc err)]) w1"
    obtain rnd w3 where rnd: "rp_draw rpc (2 * spread_of (backoff_base attempt)) ?w2 = (rnd, w3)" by fastforce
    obtain e w4 where wait: "rp_wait rpc (backoffDelay attempt rnd) w3 = (e, w4)" by fastforce
    have w4: "view w4 = view w"
      using draw_keeps [OF rnd] wait_keeps [OF wait] inv [OF q] by (simp add: rpc_meter_keeps)
    note step = interceptor_waits [where invoker = invoker, OF less q [unfolded err] False [unfolded err] rnd wait, of lastErr]
    show ?thesis
    proof (cases e)
      case (Some ctxErr)
      then show ?thesis using step Suc.prems w4 by (auto simp: rpc_meter_keeps)
    next
      case None
      then have "view w' = view w4" using step Suc.prems Suc.hyps(2) by (intro Suc.hyps(1)) simp_all
      then show ?thesis using w4 by simp
    qed
  qed
qed

lemma stub_keeps: "stub_GetSchema rpc transport i w = (q, w') \<Longrightarrow> view w' = view w"
  unfolding stub_GetSchema_def newUnaryInterceptor_def using attempts_keep transport_keeps by blast

lemma schema_source_keeps: "schema_source rpc transport i w = (q, w') \<Longrightarrow> view w' = view w"
  unfolding schema_source_def GetSchema_def by (auto dest: stub_keeps split: prod.splits sum.splits if_splits)

end

sublocale client_wired \<subseteq> wired insert_event select_replay upsert_replay exists_key set_key produce_sync meter view
  subscribe send "schema_source rpc transport" topics lg
  by unfold_locales
     (fact subscribe_keeps send_keeps schema_source_keeps distinct_topics ordered_logs)+

section \<open>The client in the faulty environment\<close>

text \<open>
  The server of \<open>env_schema\<close> behind the client: an attempt fails as the script of the environment
  says, the jitter is drawn as zero and no context ends.
\<close>

definition env_rpc :: "(go_error \<Rightarrow> Code) \<Rightarrow> env rpc_deps" where
  "env_rpc code = \<lparr>rp_status_Code = code, rp_String = (\<lambda>c. []), rp_meter = env_meter,
     rp_draw = (\<lambda>n w. (0, w)), rp_wait = (\<lambda>delay w. (None, w))\<rparr>"

definition env_transport :: "(string \<rightharpoonup> string) \<Rightarrow> string \<Rightarrow> (env, SchemaInfo) call" where
  "env_transport texts i =
     env_call (\<lambda>v. (case texts i of None \<Rightarrow> Inl (Foreign ''NotFound'')
                    | Some t \<Rightarrow> Inr (new_SchemaInfo\<lparr>si_SchemaJson := t, si_SchemaId := i\<rparr>), v))"

lemma env_client_wired:
  assumes "distinct topics" "\<And>topic. log_ok (lg topic)"
  shows "client_wired env_insert_event env_select_replay env_upsert_replay env_exists_key env_set_key env_produce_sync
    env_meter ev_view env_subscribe env_send (env_rpc code) (env_transport texts) topics lg"
  by unfold_locales
     (auto simp: env_subscribe_def env_send_def env_transport_def env_rpc_def env_meter_def assms
           elim!: env_call_cases env_act_cases)

interpretation demo_client: client_wired env_insert_event env_select_replay env_upsert_replay env_exists_key
  env_set_key env_produce_sync env_meter ev_view env_subscribe env_send "env_rpc (\<lambda>e. Unavailable)"
  "env_transport [''s1'' \<mapsto> ''{}'']" "[''/event/A'']" demo_log
  by (rule env_client_wired) (simp_all add: demo_log_ok)

end
