(* ===== verification/Scheduler.thy ===== *)
theory Scheduler
  imports Service_Wiring
begin

text \<open>
  The transition system as a program: a choice names the goroutine that moves (a subscriber's, its
  fan-in or a worker) and what the outside contributes to its step, and \<open>run_choice\<close> computes the
  state after it. Every computed step is a step of \<open>pipe_step\<close>, so a list of choices that runs
  through is a history of the service.
\<close>

datatype choice =
    Connect nat nat string
  | Receive nat int
  | StreamEnds nat string
  | Sender nat string
  | FanTake nat
  | FanPush nat
  | WorkerTake nat
  | SchemaStage nat
  | SchemaAgain nat
  | HandlerStage nat
  | HandlerAgain nat
  | Cancel

fun run_choice :: "('w, 'sch, 'v) deps \<Rightarrow> choice \<Rightarrow> ('w, 'sch, 'v) pipe \<Rightarrow> ('w, 'sch, 'v) pipe option" where
  "run_choice d (Connect i pos reason) s =
     (if i < length (p_subs s) \<and> t_conn (p_subs s ! i) = None then
        (case open_stream (d_load d) (d_subscribe d) (d_send d) (d_meter d) (t_sub (p_subs s ! i)) (p_world s) of
           (Inl err, w') \<Rightarrow>
             Some (s\<lparr>p_world := count_reconnect d (s_topic (t_sub (p_subs s ! i))) reason (p_canceled s) w'\<rparr>)
         | (Inr req, w') \<Rightarrow>
             if server_start (d_log d (s_topic (t_sub (p_subs s ! i)))) req pos
             then Some (set_task i ((p_subs s ! i)\<lparr>t_conn := Some pos\<rparr>) s\<lparr>p_world := w'\<rparr>)
             else Some (s\<lparr>p_world := stream_closed d (s_topic (t_sub (p_subs s ! i))) reason (p_canceled s) w'\<rparr>))
      else None)"
| "run_choice d (Receive i now) s =
     (if i < length (p_subs s) \<and> length (s_out (t_sub (p_subs s ! i))) < subscriberOutBuffer then
        (case t_conn (p_subs s ! i) of
           None \<Rightarrow> None
         | Some pos \<Rightarrow>
             let t = p_subs s ! i in
             if pos < length (d_log d (s_topic (t_sub t)))
             then Some (set_task i (t\<lparr>t_sub := emit (d_log d (s_topic (t_sub t)) ! pos) now (t_sub t),
                      t_conn := Some (Suc pos),
                      t_base := (if s_seq (t_sub t) = 0 then pos else t_base t)\<rparr>) s
                    \<lparr>p_world := d_meter d (Inc ''pubsub_events_received_total'' [s_topic (t_sub t)]) (p_world s)\<rparr>)
             else None)
      else None)"
| "run_choice d (StreamEnds i reason) s =
     (if i < length (p_subs s) \<and> t_conn (p_subs s ! i) \<noteq> None
      then Some (set_task i ((p_subs s ! i)\<lparr>t_conn := None\<rparr>) s
          \<lparr>p_world := stream_closed d (s_topic (t_sub (p_subs s ! i))) reason (p_canceled s) (p_world s)\<rparr>)
      else None)"
| "run_choice d (Sender i reason) s =
     (if i < length (p_subs s) \<and> s_ackWake (t_sub (p_subs s ! i)) then
        (case t_conn (p_subs s ! i) of
           None \<Rightarrow> None
         | Some pos \<Rightarrow>
             (let t = p_subs s ! i; (r, sub', w') = runSender (d_send d) [SenderWake] (t_sub t) (p_world s)
              in Some (set_task i (t\<lparr>t_sub := sub', t_conn := (if r = None then Some pos else None)\<rparr>) s
                   \<lparr>p_world := (if r = None then w'
                                 else stream_closed d (s_topic (t_sub t)) reason (p_canceled s) w')\<rparr>)))
      else None)"
| "run_choice d (FanTake i) s =
     (if i < length (p_subs s) \<and> t_fanin (p_subs s ! i) = FanWaiting then
        (case s_out (t_sub (p_subs s ! i)) of
           [] \<Rightarrow> None
         | e # es \<Rightarrow> Some (set_task i ((p_subs s ! i)\<lparr>t_fanin := FanHolding e, t_sub := (t_sub (p_subs s ! i))\<lparr>s_out := es\<rparr>\<rparr>) s))
      else None)"
| "run_choice d (FanPush i) s =
     (if i < length (p_subs s) \<and> length (p_events s) < d_events_cap d then
        (case t_fanin (p_subs s ! i) of
           FanHolding e \<Rightarrow> Some (set_task i ((p_subs s ! i)\<lparr>t_fanin := FanWaiting\<rparr>) s\<lparr>p_events := p_events s @ [e]\<rparr>)
         | _ \<Rightarrow> None)
      else None)"
| "run_choice d (WorkerTake j) s =
     (if j < length (p_workers s) \<and> p_workers s ! j = Idle then
        (case p_events s of [] \<Rightarrow> None | e # es \<Rightarrow> Some (set_worker j (Fetching e) s\<lparr>p_events := es\<rparr>))
      else None)"
| "run_choice d (SchemaStage j) s =
     (if j < length (p_workers s) then
        (case p_workers s ! j of
           Fetching e \<Rightarrow>
             (case d_get d (raw_schema e) (p_cache s, p_world s) of
                (Inl err, (c', w')) \<Rightarrow>
                  Some (if p_canceled s then set_worker j Idle s\<lparr>p_cache := c', p_world := w'\<rparr>
                        else set_worker j (FetchBackoff e) s
                               \<lparr>p_cache := c', p_world := d_meter d (Inc ''events_failed_total'' [''schema'']) w'\<rparr>)
              | (Inr sch, (c', w')) \<Rightarrow>
                  (case Decode (d_unmarshal d) (Some sch) (raw_payload e) of
                     Inl err \<Rightarrow>
                       Some (App_ack e (set_worker j Idle s
                         \<lparr>p_cache := c', p_world := d_meter d (Inc ''events_failed_total'' [''decode'']) w'\<rparr>))
                   | Inr payload \<Rightarrow> Some (set_worker j (Handling e payload) s\<lparr>p_cache := c', p_world := w'\<rparr>)))
         | _ \<Rightarrow> None)
      else None)"
| "run_choice d (SchemaAgain j) s =
     (if j < length (p_workers s) then
        (case p_workers s ! j of FetchBackoff e \<Rightarrow> Some (set_worker j (Fetching e) s) | _ \<Rightarrow> None)
      else None)"
| "run_choice d (HandlerStage j) s =
     (if j < length (p_workers s) then
        (case p_workers s ! j of
           Handling e payload \<Rightarrow>
             (case d_handle d (decoded_event e payload) (p_world s) of
                (None, w') \<Rightarrow>
                  Some (App_ack e (set_worker j Idle s
                    \<lparr>p_world := d_meter d (Observe ''processing_latency_seconds'' [])
                                  (d_meter d (Inc ''events_processed_total'' []) w')\<rparr>))
              | (Some err, w') \<Rightarrow>
                  Some (if p_canceled s then set_worker j Idle s\<lparr>p_world := w'\<rparr>
                        else set_worker j (HandleBackoff e payload) s
                               \<lparr>p_world := d_meter d (Inc ''events_failed_total'' [''handler'']) w'\<rparr>))
         | _ \<Rightarrow> None)
      else None)"
| "run_choice d (HandlerAgain j) s =
     (if j < length (p_workers s) then
        (case p_workers s ! j of HandleBackoff e payload \<Rightarrow> Some (set_worker j (Handling e payload) s) | _ \<Rightarrow> None)
      else None)"
| "run_choice d Cancel s = Some (s\<lparr>p_canceled := True\<rparr>)"

text \<open>Every choice is a step: one rule of the transition system per clause.\<close>

lemma run_choice_stream:
  "run_choice d (Connect i pos reason) s = Some s' \<Longrightarrow> pipe_step d s s'"
  "run_choice d (Receive i now) s = Some s' \<Longrightarrow> pipe_step d s s'"
  "run_choice d (StreamEnds i reason) s = Some s' \<Longrightarrow> pipe_step d s s'"
  "run_choice d (Sender i reason) s = Some s' \<Longrightarrow> pipe_step d s s'"
  using pipe_step.connect [of i s "p_subs s ! i" d _ _ pos] pipe_step.connect_fails [of i s "p_subs s ! i" d _ _ reason]
    pipe_step.connect_refused [of i s "p_subs s ! i" d _ _ reason]
    pipe_step.receive [of i s "p_subs s ! i" _ d now] pipe_step.stream_ends [of i s "p_subs s ! i" _ d reason]
    pipe_step.sender [of i s "p_subs s ! i" _ d _ _ _ reason]
  by (auto simp: Let_def simp del: runSender.simps server_start.simps split: result_splits if_splits)

lemma run_choice_fan:
  "run_choice d (FanTake i) s = Some s' \<Longrightarrow> pipe_step d s s'"
  "run_choice d (FanPush i) s = Some s' \<Longrightarrow> pipe_step d s s'"
  "run_choice d (WorkerTake j) s = Some s' \<Longrightarrow> pipe_step d s s'"
  using pipe_step.fan_take [of i s "p_subs s ! i" _ _ d] pipe_step.fan_push [of i s "p_subs s ! i" _ d]
    pipe_step.worker_take [of j s _ _ d]
  by (auto split: if_splits list.splits fanin.splits)

lemma run_choice_schema:
  "run_choice d (SchemaStage j) s = Some s' \<Longrightarrow> pipe_step d s s'"
  "run_choice d (SchemaAgain j) s = Some s' \<Longrightarrow> pipe_step d s s'"
  using pipe_step.schema_ok [of j s _ d] pipe_step.skip [of j s _ d] pipe_step.schema_fails [of j s _ d]
    pipe_step.schema_again [of j s _ d]
  by (auto split: if_splits worker.splits sum.splits prod.splits)

lemma run_choice_handler:
  "run_choice d (HandlerStage j) s = Some s' \<Longrightarrow> pipe_step d s s'"
  "run_choice d (HandlerAgain j) s = Some s' \<Longrightarrow> pipe_step d s s'"
  using pipe_step.handle_ok [of j s _ _ d] pipe_step.handle_fails [of j s _ _ d] pipe_step.handle_again [of j s _ _ d]
  by (auto split: if_splits worker.splits option.splits prod.splits)

lemma run_choice_sound: "run_choice d ch s = Some s' \<Longrightarrow> pipe_step d s s'"
  using pipe_step.cancel [of d s]
  by (cases ch) (simp_all only: run_choice_stream run_choice_fan run_choice_schema run_choice_handler run_choice.simps option.inject)

fun run_choices :: "('w, 'sch, 'v) deps \<Rightarrow> choice list \<Rightarrow> ('w, 'sch, 'v) pipe \<Rightarrow> ('w, 'sch, 'v) pipe option" where
  "run_choices d [] s = Some s"
| "run_choices d (ch # chs) s = (case run_choice d ch s of None \<Rightarrow> None | Some s' \<Rightarrow> run_choices d chs s')"

lemma run_choices_service:
  "service d topics batchSize n w0 s \<Longrightarrow> run_choices d chs s = Some s' \<Longrightarrow> service d topics batchSize n w0 s'"
proof (induction chs arbitrary: s)
  case (Cons ch chs)
  then obtain s1 where s1: "run_choice d ch s = Some s1" "run_choices d chs s1 = Some s'"
    by (auto split: option.splits)
  show ?case by (rule Cons.IH [OF service.step [OF Cons.prems(1) run_choice_sound [OF s1(1)]] s1(2)])
qed simp

section \<open>Two workers, one topic\<close>

text \<open>
  A topic with three events of which the first is committed, the Kafka sink, and two workers that
  take the two others in order but finish the later one first.
\<close>

definition order_log :: "string \<Rightarrow> ConsumerEvent option list" where
  "order_log topic = (if topic = ''/event/A'' then [demo_event ''e1'' 1, demo_event ''e2'' 2, demo_event ''e3'' 3] else [])"

definition order_config :: handler_config where
  "order_config = \<lparr>hc_kafka = Some \<lparr>kp_topic = ''out'', kp_timeout = 10, kp_partitions = 1, kp_replication = 1\<rparr>, hc_redis = None\<rparr>"

abbreviation order_deps :: "(env, string, bytes) deps" where
  "order_deps \<equiv> app_deps order_log env_select_replay env_upsert_replay env_subscribe env_send env_meter
     (env_schema [''s1'' \<mapsto> ''{}'']) Inr (\<lambda>sch bs. Inr [(''f'', bs)])
     (root_handler (\<lambda>p. Inr (concat (map snd p))) (\<lambda>e. Inr []) env_insert_event env_exists_key env_set_key
        env_produce_sync env_meter order_config) 100"

definition order_choices :: "choice list" where
  "order_choices = [Connect 0 1 [], Receive 0 0, Receive 0 0, FanTake 0, FanPush 0, FanTake 0, FanPush 0,
     WorkerTake 0, WorkerTake 1, SchemaStage 0, SchemaStage 1, HandlerStage 1, HandlerStage 0]"

lemma order_run:
  "map_option (\<lambda>s. map kr_Headers (sv_log (ev_view (p_world s))))
     (run_choices order_deps order_choices (boot [''/event/A''] 100 2 demo_env)) =
   Some [[(''event_id'', ''e3''), (''schema_id'', ''s1''), (''sf_topic'', ''/event/A'')],
         [(''event_id'', ''e2''), (''schema_id'', ''s1''), (''sf_topic'', ''/event/A'')]]"
  by code_simp

section \<open>Properties\<close>


end
