(* ===== verification/Metrics.thy ===== *)
theory Metrics
  imports Pubsub_Client Pipeline Kafka_Producer Redis_Cache
begin

text \<open>
  The Prometheus collectors of the service: what every \<open>new...Metrics\<close> function builds and how it
  registers it. \<open>MustRegister\<close> panics on the first collector the registry refuses;
  \<open>registerOrReuse\<close> (\<open>src/internal/pubsub/subscriber.go\<close>) takes the collector that is there
  already. A panic is \<open>None\<close>. The registry is a parameter, its documented behaviour the locale
  \<open>registry\<close>.
\<close>

section \<open>Collectors and the registry\<close>

datatype collector_type = Counter | CounterVec | GaugeVec | GaugeFunc | Histogram | HistogramVec

text \<open>\<open>co_obj\<close> tells the Go objects apart that carry the same descriptor.\<close>

record collector =
  co_type :: collector_type
  co_name :: string
  co_labels :: "string list"
  co_obj :: nat

datatype registration = Registered | AlreadyRegistered collector | Refused go_error

definition same_desc :: "collector \<Rightarrow> collector \<Rightarrow> bool" where
  "same_desc c c' \<longleftrightarrow> co_type c = co_type c' \<and> co_name c = co_name c' \<and> co_labels c = co_labels c'"

locale registry =
  fixes register :: "collector \<Rightarrow> 'r \<Rightarrow> registration \<times> 'r"
    and collectors :: "'r \<Rightarrow> collector list"
  assumes register_new: "co_name c \<notin> co_name ` set (collectors r) \<Longrightarrow>
      \<exists>r'. register c r = (Registered, r') \<and> collectors r' = collectors r @ [c]"
    and register_same: "distinct (map co_name (collectors r)) \<Longrightarrow> c' \<in> set (collectors r) \<Longrightarrow> same_desc c c' \<Longrightarrow>
      register c r = (AlreadyRegistered c', r)"

fun MustRegister :: "(collector \<Rightarrow> 'r \<Rightarrow> registration \<times> 'r) \<Rightarrow> collector list \<Rightarrow> 'r \<Rightarrow> 'r option" where
  "MustRegister register [] r = Some r"
| "MustRegister register (c # cs) r =
     (case register c r of (Registered, r') \<Rightarrow> MustRegister register cs r' | _ \<Rightarrow> None)"

text \<open>The type assertion \<open>are.ExistingCollector.(C)\<close> succeeds for a collector of the same type.\<close>

definition registerOrReuse ::
  "(collector \<Rightarrow> 'r \<Rightarrow> registration \<times> 'r) \<Rightarrow> collector \<Rightarrow> 'r \<Rightarrow> (collector \<times> 'r) option" where
  "registerOrReuse register c r =
     (case register c r of
        (Registered, r') \<Rightarrow> Some (c, r')
      | (AlreadyRegistered existing, r') \<Rightarrow> if co_type existing = co_type c then Some (existing, r') else None
      | (Refused err, r') \<Rightarrow> None)"

text \<open>
  How a \<open>new...Metrics\<close> function ends: \<^verbatim>\<open>if reg != nil { reg.MustRegister(...) }; return m\<close>
\<close>

definition register_all ::
  "(collector \<Rightarrow> 'r \<Rightarrow> registration \<times> 'r) \<Rightarrow> collector list \<Rightarrow> 'r option \<Rightarrow> (collector list \<times> 'r option) option" where
  "register_all register cs reg =
     (case reg of
        None \<Rightarrow> Some (cs, None)
      | Some r \<Rightarrow> (case MustRegister register cs r of None \<Rightarrow> None | Some r' \<Rightarrow> Some (cs, Some r')))"

section \<open>The metrics of the components\<close>

abbreviation coll :: "nat \<Rightarrow> collector_type \<Rightarrow> string \<Rightarrow> string list \<Rightarrow> collector" where
  "coll obj ty name labels \<equiv> \<lparr>co_type = ty, co_name = name, co_labels = labels, co_obj = obj\<rparr>"

definition provider_collectors :: "nat \<Rightarrow> collector list" where
  "provider_collectors obj =
     [coll obj CounterVec ''auth_token_refresh_total'' [''result''],
      coll obj GaugeFunc ''auth_token_expiry_seconds'' []]"

definition client_collectors :: "nat \<Rightarrow> collector list" where
  "client_collectors obj =
     [coll obj HistogramVec ''pubsub_grpc_rpc_duration_seconds'' [''method''],
      coll obj CounterVec ''pubsub_grpc_rpc_total'' [''method'', ''code''],
      coll obj CounterVec ''pubsub_grpc_rpc_retries_total'' [''method'', ''code'']]"

definition schema_cache_collectors :: "nat \<Rightarrow> collector list" where
  "schema_cache_collectors obj =
     [coll obj Counter ''schema_cache_hits_total'' [], coll obj Counter ''schema_cache_misses_total'' []]"

definition subscriber_collectors :: "nat \<Rightarrow> collector list" where
  "subscriber_collectors obj =
     [coll obj CounterVec ''pubsub_events_received_total'' [''topic''],
      coll obj CounterVec ''pubsub_reconnects_total'' [''topic'', ''reason''],
      coll obj GaugeVec ''pubsub_stream_open'' [''topic'']]"

definition producer_collectors :: "nat \<Rightarrow> collector list" where
  "producer_collectors obj =
     [coll obj Counter ''kafka_records_produced_total'' [],
      coll obj Counter ''kafka_records_failed_total'' [],
      coll obj Counter ''kafka_record_bytes_total'' [],
      coll obj Histogram ''kafka_produce_duration_seconds'' []]"

definition dedup_cache_collectors :: "nat \<Rightarrow> collector list" where
  "dedup_cache_collectors obj =
     [coll obj Counter ''dedup_cache_hits_total'' [],
      coll obj Counter ''dedup_cache_misses_total'' [],
      coll obj CounterVec ''dedup_cache_errors_total'' [''op'']]"

definition committer_collectors :: "nat \<Rightarrow> collector list" where
  "committer_collectors obj = [coll obj CounterVec ''replay_cursor_commits_total'' [''result'']]"

definition pool_collectors :: "nat \<Rightarrow> collector list" where
  "pool_collectors obj =
     [coll obj Counter ''events_processed_total'' [],
      coll obj CounterVec ''events_failed_total'' [''stage''],
      coll obj Histogram ''processing_latency_seconds'' []]"

text \<open>The constructors: every one builds its collectors and registers all of them.\<close>

definition newProviderMetrics :: "(collector \<Rightarrow> 'r \<Rightarrow> registration \<times> 'r) \<Rightarrow> nat \<Rightarrow> 'r option \<Rightarrow> (collector list \<times> 'r option) option" where
  "newProviderMetrics register obj = register_all register (provider_collectors obj)"

definition newClientMetrics :: "(collector \<Rightarrow> 'r \<Rightarrow> registration \<times> 'r) \<Rightarrow> nat \<Rightarrow> 'r option \<Rightarrow> (collector list \<times> 'r option) option" where
  "newClientMetrics register obj = register_all register (client_collectors obj)"

definition newSchemaCacheMetrics :: "(collector \<Rightarrow> 'r \<Rightarrow> registration \<times> 'r) \<Rightarrow> nat \<Rightarrow> 'r option \<Rightarrow> (collector list \<times> 'r option) option" where
  "newSchemaCacheMetrics register obj = register_all register (schema_cache_collectors obj)"

definition newProducerMetrics :: "(collector \<Rightarrow> 'r \<Rightarrow> registration \<times> 'r) \<Rightarrow> nat \<Rightarrow> 'r option \<Rightarrow> (collector list \<times> 'r option) option" where
  "newProducerMetrics register obj = register_all register (producer_collectors obj)"

definition newDedupCacheMetrics :: "(collector \<Rightarrow> 'r \<Rightarrow> registration \<times> 'r) \<Rightarrow> nat \<Rightarrow> 'r option \<Rightarrow> (collector list \<times> 'r option) option" where
  "newDedupCacheMetrics register obj = register_all register (dedup_cache_collectors obj)"

definition newCommitterMetrics :: "(collector \<Rightarrow> 'r \<Rightarrow> registration \<times> 'r) \<Rightarrow> nat \<Rightarrow> 'r option \<Rightarrow> (collector list \<times> 'r option) option" where
  "newCommitterMetrics register obj = register_all register (committer_collectors obj)"

definition newPoolMetrics :: "(collector \<Rightarrow> 'r \<Rightarrow> registration \<times> 'r) \<Rightarrow> nat \<Rightarrow> 'r option \<Rightarrow> (collector list \<times> 'r option) option" where
  "newPoolMetrics register obj = register_all register (pool_collectors obj)"

text \<open>A subscriber's three collectors, each registered or taken over.\<close>

fun reuse_all ::
  "(collector \<Rightarrow> 'r \<Rightarrow> registration \<times> 'r) \<Rightarrow> collector list \<Rightarrow> 'r \<Rightarrow> (collector list \<times> 'r) option" where
  "reuse_all register [] r = Some ([], r)"
| "reuse_all register (c # cs) r =
     (case registerOrReuse register c r of
        None \<Rightarrow> None
      | Some (c', r1) \<Rightarrow>
          (case reuse_all register cs r1 of None \<Rightarrow> None | Some (cs', r2) \<Rightarrow> Some (c' # cs', r2)))"

definition newSubscriberMetrics ::
  "(collector \<Rightarrow> 'r \<Rightarrow> registration \<times> 'r) \<Rightarrow> nat \<Rightarrow> 'r option \<Rightarrow> (collector list \<times> 'r option) option" where
  "newSubscriberMetrics register obj reg =
     (case reg of
        None \<Rightarrow> Some (subscriber_collectors obj, None)
      | Some r \<Rightarrow>
          (case reuse_all register (subscriber_collectors obj) r of
             None \<Rightarrow> None
           | Some (cs, r') \<Rightarrow> Some (cs, Some r')))"

text \<open>The loop of \<open>New\<close> over the topics: one subscriber, and so one set of metrics, per topic.\<close>

fun subscribers_metrics ::
  "(collector \<Rightarrow> 'r \<Rightarrow> registration \<times> 'r) \<Rightarrow> nat list \<Rightarrow> 'r option \<Rightarrow> (collector list list \<times> 'r option) option" where
  "subscribers_metrics register [] reg = Some ([], reg)"
| "subscribers_metrics register (obj # objs) reg =
     (case newSubscriberMetrics register obj reg of
        None \<Rightarrow> None
      | Some (m, reg1) \<Rightarrow>
          (case subscribers_metrics register objs reg1 of
             None \<Rightarrow> None
           | Some (ms, reg2) \<Rightarrow> Some (m # ms, reg2)))"

section \<open>Registering\<close>

context registry
begin

lemma MustRegister_new:
  assumes "distinct (map co_name cs)" "co_name ` set cs \<inter> co_name ` set (collectors r) = {}"
  shows "\<exists>r'. MustRegister register cs r = Some r' \<and> collectors r' = collectors r @ cs"
  using assms
proof (induction cs arbitrary: r)
  case Nil
  then show ?case by simp
next
  case (Cons c cs)
  then obtain r1 where r1: "register c r = (Registered, r1)" "collectors r1 = collectors r @ [c]"
    using register_new [of c r] by auto
  have "\<exists>r'. MustRegister register cs r1 = Some r' \<and> collectors r' = collectors r1 @ cs"
    using Cons.prems r1 by (intro Cons.IH) auto
  then show ?case using r1 by auto
qed

lemma reuse_all_new:
  assumes "distinct (map co_name cs)" "co_name ` set cs \<inter> co_name ` set (collectors r) = {}"
  shows "\<exists>r'. reuse_all register cs r = Some (cs, r') \<and> collectors r' = collectors r @ cs"
  using assms
proof (induction cs arbitrary: r)
  case Nil
  then show ?case by simp
next
  case (Cons c cs)
  then obtain r1 where r1: "register c r = (Registered, r1)" "collectors r1 = collectors r @ [c]"
    using register_new [of c r] by auto
  have "\<exists>r'. reuse_all register cs r1 = Some (cs, r') \<and> collectors r' = collectors r1 @ cs"
    using Cons.prems r1 by (intro Cons.IH) auto
  then show ?case using r1 by (auto simp: registerOrReuse_def)
qed

lemma reuse_all_same:
  assumes "distinct (map co_name (collectors r))" "list_all2 same_desc cs ds" "set ds \<subseteq> set (collectors r)"
  shows "reuse_all register cs r = Some (ds, r)"
  using assms(2,3)
proof (induction rule: list_all2_induct)
  case Nil
  then show ?case by simp
next
  case (Cons c cs d ds)
  then have "register c r = (AlreadyRegistered d, r)" using register_same [OF assms(1)] by simp
  then show ?case using Cons by (simp add: registerOrReuse_def same_desc_def)
qed

lemma subscribers_metrics_shared:
  assumes "distinct (map co_name (collectors r))" "set (subscriber_collectors obj) \<subseteq> set (collectors r)"
  shows "subscribers_metrics register objs (Some r) = Some (replicate (length objs) (subscriber_collectors obj), Some r)"
proof (induction objs)
  case Nil
  then show ?case by simp
next
  case (Cons o1 objs)
  have "list_all2 same_desc (subscriber_collectors o1) (subscriber_collectors obj)"
    by (simp add: subscriber_collectors_def same_desc_def)
  then have "newSubscriberMetrics register o1 (Some r) = Some (subscriber_collectors obj, Some r)"
    using reuse_all_same [OF assms(1) _ assms(2)] by (simp add: newSubscriberMetrics_def)
  then show ?case using Cons by simp
qed

text \<open>From a registry without the subscribers' names: the first registers, the others share.\<close>

lemma subscribers_metrics_new:
  assumes "distinct (map co_name (collectors r))" "objs \<noteq> []"
    and "co_name ` set (subscriber_collectors (hd objs)) \<inter> co_name ` set (collectors r) = {}"
  shows "\<exists>r'. subscribers_metrics register objs (Some r) =
      Some (replicate (length objs) (subscriber_collectors (hd objs)), Some r') \<and>
    collectors r' = collectors r @ subscriber_collectors (hd objs)"
proof -
  obtain o1 os where objs: "objs = o1 # os" using assms(2) by (cases objs) auto
  obtain r1 where r1: "reuse_all register (subscriber_collectors o1) r = Some (subscriber_collectors o1, r1)"
      "collectors r1 = collectors r @ subscriber_collectors o1"
    using reuse_all_new [of "subscriber_collectors o1" r] assms(3) objs by (auto simp: subscriber_collectors_def)
  have "distinct (map co_name (collectors r1))"
    using assms(1,3) r1(2) objs by (auto simp: subscriber_collectors_def)
  then have "subscribers_metrics register os (Some r1) = Some (replicate (length os) (subscriber_collectors o1), Some r1)"
    using r1(2) by (intro subscribers_metrics_shared) simp_all
  then show ?thesis using r1 objs by (simp add: newSubscriberMetrics_def)
qed

end

text \<open>A registry that keeps its collectors in a list.\<close>

definition list_register :: "collector \<Rightarrow> collector list \<Rightarrow> registration \<times> collector list" where
  "list_register c r =
     (case find (\<lambda>c'. co_name c' = co_name c) r of
        None \<Rightarrow> (Registered, r @ [c])
      | Some c' \<Rightarrow> (if same_desc c c' then AlreadyRegistered c' else Refused (ErrorsNew ''duplicate descriptor''), r))"

interpretation list_registry: registry list_register "\<lambda>r. r"
proof
  fix c :: collector and r :: "collector list"
  assume "co_name c \<notin> co_name ` set r"
  then have "find (\<lambda>c'. co_name c' = co_name c) r = None" unfolding find_None_iff by (metis imageI)
  then show "\<exists>r'. list_register c r = (Registered, r') \<and> r' = r @ [c]" by (simp add: list_register_def)
next
  fix r :: "collector list" and c c' :: collector
  assume r: "distinct (map co_name r)" "c' \<in> set r" "same_desc c c'"
  then have "find (\<lambda>x. co_name x = co_name c) r = Some c'"
    by (induction r) (auto simp: same_desc_def)
  then show "list_register c r = (AlreadyRegistered c', r)" using r(3) by (simp add: list_register_def)
qed

section \<open>Every update is to a declared series\<close>

text \<open>
  \<open>WithLabelValues\<close> panics on a wrong number of label values. \<open>declared cs meter\<close> drops every update
  that is not one of a collector in \<open>cs\<close>, of its kind and with its number of labels.
\<close>

fun declares :: "collector \<Rightarrow> metric \<Rightarrow> bool" where
  "declares c (CounterAdd name labels n) \<longleftrightarrow>
     co_type c \<in> {Counter, CounterVec} \<and> co_name c = name \<and> length (co_labels c) = length labels"
| "declares c (Observe name labels) \<longleftrightarrow>
     co_type c \<in> {Histogram, HistogramVec} \<and> co_name c = name \<and> length (co_labels c) = length labels"
| "declares c (GaugeSet name labels v) \<longleftrightarrow>
     co_type c = GaugeVec \<and> co_name c = name \<and> length (co_labels c) = length labels"

definition declared :: "collector list \<Rightarrow> (metric \<Rightarrow> 'w \<Rightarrow> 'w) \<Rightarrow> metric \<Rightarrow> 'w \<Rightarrow> 'w" where
  "declared cs meter m w = (if \<exists>c \<in> set cs. declares c m then meter m w else w)"

lemmas collector_defs = provider_collectors_def client_collectors_def schema_cache_collectors_def
  subscriber_collectors_def producer_collectors_def dedup_cache_collectors_def committer_collectors_def
  pool_collectors_def

lemmas declared_simps = declared_def collector_defs

text \<open>The loops of the interceptor and of the workers use their meter only on these updates.\<close>

lemma interceptor_loop_meter:
  assumes "\<And>code w. meter (Inc ''pubsub_grpc_rpc_total'' [method, code]) w = rp_meter d (Inc ''pubsub_grpc_rpc_total'' [method, code]) w"
    and "\<And>code w. meter (Inc ''pubsub_grpc_rpc_retries_total'' [method, code]) w = rp_meter d (Inc ''pubsub_grpc_rpc_retries_total'' [method, code]) w"
    and "\<And>w. meter (Observe ''pubsub_grpc_rpc_duration_seconds'' [method]) w = rp_meter d (Observe ''pubsub_grpc_rpc_duration_seconds'' [method]) w"
  shows "interceptor_loop (d\<lparr>rp_meter := meter\<rparr>) method invoker attempt lastErr w =
     interceptor_loop d method invoker attempt lastErr w"
proof (induction "maxRetryAttempts - attempt" arbitrary: attempt lastErr w)
  case 0
  then show ?case by (simp add: interceptor_loop.simps)
next
  case (Suc n)
  then have next_attempt: "interceptor_loop (d\<lparr>rp_meter := meter\<rparr>) method invoker (Suc attempt) l v =
      interceptor_loop d method invoker (Suc attempt) l v" for l v by simp
  have fin: "rpc_done (d\<lparr>rp_meter := meter\<rparr>) method code = rpc_done d method code" for code
    using assms(1,3) by (simp add: rpc_done_def fun_eq_iff del: One_nat_def)
  show ?case
    by (simp add: interceptor_loop.simps [of _ _ _ attempt] Let_def next_attempt fin assms(1,2)
          del: One_nat_def split: prod.split sum.split option.split)
qed

lemma retry_from_meter_some:
  fixes s :: 's and fn :: "('s, 'a) call"
  assumes ret: "retry_from canceled sleep meter stage fn delay s = Some y"
  shows "meter (Inc ''events_failed_total'' [stage]) = meter' (Inc ''events_failed_total'' [stage]) \<longrightarrow>
    retry_from canceled sleep meter' stage fn delay s = Some y"
proof (rule retry_from.raw_induct [where P = "\<lambda>canceled sleep meter stage fn delay s y.
    meter (Inc ''events_failed_total'' [stage]) = meter' (Inc ''events_failed_total'' [stage]) \<longrightarrow>
    retry_from canceled sleep meter' stage fn delay s = Some y", OF _ ret], rule impI)
  fix f :: "('s \<Rightarrow> bool) \<Rightarrow> (duration \<Rightarrow> 's \<Rightarrow> bool \<times> 's) \<Rightarrow> (metric \<Rightarrow> 's \<Rightarrow> 's) \<Rightarrow> string \<Rightarrow>
      ('s, 'a) call \<Rightarrow> duration \<Rightarrow> 's \<Rightarrow> ('a option \<times> 's) option"
    and canceled sleep meter stage and fn :: "('s, 'a) call" and delay s y
  assume IH: "\<And>canceled sleep meter stage fn delay s y. f canceled sleep meter stage fn delay s = Some y \<Longrightarrow>
      meter (Inc ''events_failed_total'' [stage]) = meter' (Inc ''events_failed_total'' [stage]) \<longrightarrow>
      retry_from canceled sleep meter' stage fn delay s = Some y"
    and body: "(case fn s of
        (Inl err, s1) \<Rightarrow>
          if canceled s1 then Some (None, s1)
          else (case sleep delay (meter (Inc ''events_failed_total'' [stage]) s1) of
                  (stopped, s2) \<Rightarrow>
                    if stopped then Some (None, s2) else f canceled sleep meter stage fn (next_delay delay) s2)
      | (Inr a, s1) \<Rightarrow> Some (Some a, s1)) = Some y"
    and eq: "meter (Inc ''events_failed_total'' [stage]) = meter' (Inc ''events_failed_total'' [stage])"
  show "retry_from canceled sleep meter' stage fn delay s = Some y"
    using body eq IH [of canceled sleep meter stage fn "next_delay delay"]
    by (cases y, subst retry_from.simps) (auto split: prod.splits sum.splits if_splits)
qed

lemma retry_from_meter:
  assumes "meter (Inc ''events_failed_total'' [stage]) = meter' (Inc ''events_failed_total'' [stage])"
  shows "retry_from canceled sleep meter stage fn delay s = retry_from canceled sleep meter' stage fn delay s"
  using retry_from_meter_some [of canceled sleep meter stage fn delay s _ meter']
    retry_from_meter_some [of canceled sleep meter' stage fn delay s _ meter] assms
  by (metis option.exhaust)

section \<open>Properties\<close>

lemma receiver_declared:
  "runReceiver (declared (subscriber_collectors obj) meter) = runReceiver meter"
proof -
  have batch: "receive_batch (declared (subscriber_collectors obj) meter) es s w = receive_batch meter es s w" for es s w
    by (induction meter es s w rule: receive_batch.induct) (simp_all add: declared_simps)
  have "runReceiver (declared (subscriber_collectors obj) meter) rs s w = runReceiver meter rs s w" for rs s w
  proof (induction rs arbitrary: s w)
    case (Cons r rs)
    then show ?case by (cases r) (simp_all add: batch split: prod.split bool.split)
  qed simp
  then show ?thesis by (intro ext)
qed

lemma process_declared:
  "process canceled sleep (declared (pool_collectors obj) meter) get unmarshal handle ack = process canceled sleep meter get unmarshal handle ack"
proof -
  let ?m = "declared (pool_collectors obj) meter"
  have stage: "retry canceled sleep ?m st fn = retry canceled sleep meter st fn" for st fn
    unfolding retry_def by (intro ext retry_from_meter) (simp add: declared_simps fun_eq_iff)
  have pool: "?m (Inc ''events_failed_total'' [''decode'']) = meter (Inc ''events_failed_total'' [''decode''])"
    "?m (Inc ''events_processed_total'' []) = meter (Inc ''events_processed_total'' [])"
    "?m (Observe ''processing_latency_seconds'' []) = meter (Observe ''processing_latency_seconds'' [])"
    by (simp_all add: declared_simps fun_eq_iff)
  show ?thesis unfolding process_def stage pool ..
qed

lemmas update_splits = prod.split sum.split option.split


end
