(* ===== verification/Config.thy ===== *)
theory Config
  imports Auth
begin

text \<open>
  The configuration of \<open>src/internal/config/config.go\<close>: its records, the defaults of its struct
  tags, and \<open>Validate\<close> with every rule and message. \<open>net.SplitHostPort\<close> of the standard library
  is written out; \<open>url.Parse\<close> (its scheme and host), the printing of a duration and the
  environment parser are parameters.
\<close>

section \<open>Records\<close>

record PubSubConfig =
  ps_Endpoint :: string
  ps_Topics :: "string list"

record DatabaseConfig =
  db_URL :: string
  db_MaxConns :: int

record RedisConfig =
  rd_Enabled :: bool
  rd_Addr :: string
  rd_Password :: string
  rd_DB :: int
  rd_KeyPrefix :: string
  rd_TTL :: duration
  rd_Timeout :: duration

record KafkaConfig =
  kf_Enabled :: bool
  kf_Brokers :: "string list"
  kf_Topic :: string
  kf_ClientID :: string
  kf_ProduceTimeout :: duration
  kf_CreateTopic :: bool
  kf_TopicPartitions :: int
  kf_TopicReplicationFactor :: int

record SinkConfig =
  sk_WebhookURL :: string

record HTTPConfig =
  ht_Addr :: string

record WorkerConfig =
  wk_Count :: int
  wk_FlowBatchSize :: int

record Config =
  cf_Salesforce :: SalesforceConfig
  cf_PubSub :: PubSubConfig
  cf_Database :: DatabaseConfig
  cf_Redis :: RedisConfig
  cf_Kafka :: KafkaConfig
  cf_Sink :: SinkConfig
  cf_HTTP :: HTTPConfig
  cf_Worker :: WorkerConfig
  cf_LogLevel :: string

text \<open>
  What the environment parser produces when only the required variables are set: the defaults of
  the struct tags, and zero values where a field has none.
\<close>

definition default_config :: "string \<Rightarrow> string \<Rightarrow> string list \<Rightarrow> string \<Rightarrow> Config" where
  "default_config clientID clientSecret topics databaseURL =
     \<lparr>cf_Salesforce = \<lparr>sf_ClientID = clientID, sf_ClientSecret = clientSecret, sf_LoginURL = ''https://login.salesforce.com''\<rparr>,
      cf_PubSub = \<lparr>ps_Endpoint = ''api.pubsub.salesforce.com:7443'', ps_Topics = topics\<rparr>,
      cf_Database = \<lparr>db_URL = databaseURL, db_MaxConns = 20\<rparr>,
      cf_Redis = \<lparr>rd_Enabled = False, rd_Addr = [], rd_Password = [], rd_DB = 0, rd_KeyPrefix = ''pubsub:seen:'',
        rd_TTL = 24 * 3600 * 10 ^ 9, rd_Timeout = 500 * 10 ^ 6\<rparr>,
      cf_Kafka = \<lparr>kf_Enabled = False, kf_Brokers = [], kf_Topic = ''salesforce.events'',
        kf_ClientID = ''pubsub-event-processor'', kf_ProduceTimeout = 30 * 10 ^ 9, kf_CreateTopic = False,
        kf_TopicPartitions = 3, kf_TopicReplicationFactor = 1\<rparr>,
      cf_Sink = \<lparr>sk_WebhookURL = []\<rparr>,
      cf_HTTP = \<lparr>ht_Addr = '':8080''\<rparr>,
      cf_Worker = \<lparr>wk_Count = 8, wk_FlowBatchSize = 100\<rparr>,
      cf_LogLevel = ''info''\<rparr>"

section \<open>\<open>net.SplitHostPort\<close>\<close>

text \<open>The index of the first and of the last occurrence of a byte, as \<open>strings.IndexByte\<close> gives it.\<close>

fun index_of :: "char \<Rightarrow> string \<Rightarrow> nat option" where
  "index_of c [] = None"
| "index_of c (x # xs) = (if x = c then Some 0 else map_option Suc (index_of c xs))"

definition last_index_of :: "char \<Rightarrow> string \<Rightarrow> nat option" where
  "last_index_of c s = map_option (\<lambda>i. length s - 1 - i) (index_of c (rev s))"

definition addrErr :: "string \<Rightarrow> string \<Rightarrow> go_error + string \<times> string" where
  "addrErr addr why = Inl (Errorf ''address %s: %s'' [addr, why] None)"

definition SplitHostPort :: "string \<Rightarrow> go_error + string \<times> string" where
  "SplitHostPort hostport =
     (case last_index_of (CHR '':'') hostport of
        None \<Rightarrow> addrErr hostport ''missing port in address''
      | Some i \<Rightarrow>
          (let checked = (\<lambda>host j k.
                 if CHR ''['' \<in> set (drop j hostport) then addrErr hostport ''unexpected '[' in address''
                 else if CHR '']'' \<in> set (drop k hostport) then addrErr hostport ''unexpected ']' in address''
                 else Inr (host, drop (Suc i) hostport))
           in if hostport ! 0 = CHR ''['' then
                (case index_of (CHR '']'') hostport of
                   None \<Rightarrow> addrErr hostport ''missing ']' in address''
                 | Some e \<Rightarrow>
                     if Suc e = length hostport then addrErr hostport ''missing port in address''
                     else if Suc e = i then checked (drop 1 (take e hostport)) 1 (Suc e)
                     else if hostport ! Suc e = CHR '':'' then addrErr hostport ''too many colons in address''
                     else addrErr hostport ''missing port in address'')
              else if CHR '':'' \<in> set (take i hostport) then addrErr hostport ''too many colons in address''
              else checked (take i hostport) 0 0))"

section \<open>Validate\<close>

definition print_int :: "int \<Rightarrow> string" where
  "print_int n = (if n < 0 then ''-'' @ itoa (nat (- n)) else itoa (nat n))"

text \<open>\<open>errors.Join\<close> of the collected errors: nil when there are none.\<close>

definition errors_Join :: "go_error list \<Rightarrow> go_error option" where
  "errors_Join es = (if es = [] then None else Some (Joined es))"

text \<open>The errors a \<open>for i, x := range xs\<close> loop appends.\<close>

fun range_errs :: "(nat \<Rightarrow> 'a \<Rightarrow> go_error list) \<Rightarrow> nat \<Rightarrow> 'a list \<Rightarrow> go_error list" where
  "range_errs f i [] = []"
| "range_errs f i (x # xs) = f i x @ range_errs f (Suc i) xs"

text \<open>\<open>url_Parse\<close> gives the scheme and the host of the parsed URL.\<close>

definition absolute_url :: "(string \<Rightarrow> go_error + string \<times> string) \<Rightarrow> string \<Rightarrow> bool" where
  "absolute_url url_Parse s =
     (case url_Parse s of Inl err \<Rightarrow> False | Inr (scheme, host) \<Rightarrow> scheme \<noteq> [] \<and> host \<noteq> [])"

definition worker_errs :: "WorkerConfig \<Rightarrow> DatabaseConfig \<Rightarrow> go_error list" where
  "worker_errs wk db =
     (if wk_Count wk < 1 then [Errorf ''WORKER_COUNT must be >= 1, got %d'' [print_int (wk_Count wk)] None] else []) @
     (if wk_FlowBatchSize wk < 1
      then [Errorf ''FLOW_BATCH_SIZE must be >= 1, got %d'' [print_int (wk_FlowBatchSize wk)] None] else []) @
     (if db_MaxConns db < 1 \<or> db_MaxConns db > 1000
      then [Errorf ''DATABASE_MAX_CONNS must be in 1..1000, got %d'' [print_int (db_MaxConns db)] None] else [])"

definition pubsub_errs :: "PubSubConfig \<Rightarrow> go_error list" where
  "pubsub_errs ps =
     (if length (ps_Topics ps) = 0 then [ErrorsNew ''SF_TOPICS must contain at least one topic''] else []) @
     range_errs (\<lambda>i t. if t = [] then [Errorf ''SF_TOPICS[%d] is empty'' [itoa i] None] else []) 0 (ps_Topics ps) @
     (case SplitHostPort (ps_Endpoint ps) of
        Inl err \<Rightarrow> [Errorf ''PUBSUB_ENDPOINT must be host:port: %w'' [] (Some err)]
      | Inr _ \<Rightarrow> [])"

definition redis_errs :: "(duration \<Rightarrow> string) \<Rightarrow> RedisConfig \<Rightarrow> go_error list" where
  "redis_errs print_duration rd =
     (if rd_Enabled rd then
        (if rd_Addr rd = [] then [ErrorsNew ''REDIS_ADDR must be set when REDIS_ENABLED is true'']
         else (case SplitHostPort (rd_Addr rd) of
                 Inl err \<Rightarrow> [Errorf ''REDIS_ADDR must be host:port: %w'' [] (Some err)]
               | Inr _ \<Rightarrow> [])) @
        (if rd_TTL rd \<le> 0 then [Errorf ''REDIS_TTL must be > 0, got %s'' [print_duration (rd_TTL rd)] None] else []) @
        (if rd_Timeout rd \<le> 0
         then [Errorf ''REDIS_TIMEOUT must be > 0, got %s'' [print_duration (rd_Timeout rd)] None] else [])
      else [])"

definition kafka_errs :: "(duration \<Rightarrow> string) \<Rightarrow> KafkaConfig \<Rightarrow> go_error list" where
  "kafka_errs print_duration kf =
     (if kf_Enabled kf then
        (if length (kf_Brokers kf) = 0 then [ErrorsNew ''KAFKA_BROKERS must be set when KAFKA_ENABLED is true''] else []) @
        range_errs (\<lambda>i b.
            case SplitHostPort b of
              Inl err \<Rightarrow> [Errorf ''KAFKA_BROKERS[%d] must be host:port: %w'' [itoa i] (Some err)]
            | Inr _ \<Rightarrow> []) 0 (kf_Brokers kf) @
        (if kf_Topic kf = [] then [ErrorsNew ''KAFKA_TOPIC must not be empty when KAFKA_ENABLED is true''] else []) @
        (if kf_ProduceTimeout kf \<le> 0
         then [Errorf ''KAFKA_PRODUCE_TIMEOUT must be > 0, got %s'' [print_duration (kf_ProduceTimeout kf)] None] else []) @
        (if kf_CreateTopic kf then
           (if kf_TopicPartitions kf < 1
            then [Errorf ''KAFKA_TOPIC_PARTITIONS must be >= 1, got %d'' [print_int (kf_TopicPartitions kf)] None] else []) @
           (if kf_TopicReplicationFactor kf < 1
            then [Errorf ''KAFKA_TOPIC_REPLICATION_FACTOR must be >= 1, got %d'' [print_int (kf_TopicReplicationFactor kf)] None]
            else [])
         else [])
      else [])"

definition Validate ::
  "(string \<Rightarrow> go_error + string \<times> string) \<Rightarrow> (duration \<Rightarrow> string) \<Rightarrow> Config \<Rightarrow> go_error option" where
  "Validate url_Parse print_duration c =
     (let errs = worker_errs (cf_Worker c) (cf_Database c) @
            pubsub_errs (cf_PubSub c) @
            (if \<not> absolute_url url_Parse (sf_LoginURL (cf_Salesforce c))
             then [Errorf ''SF_LOGIN_URL is not a valid absolute URL: %q'' [sf_LoginURL (cf_Salesforce c)] None] else []) @
            redis_errs print_duration (cf_Redis c) @
            kafka_errs print_duration (cf_Kafka c) @
            (if sk_WebhookURL (cf_Sink c) \<noteq> [] then
               (if \<not> absolute_url url_Parse (sk_WebhookURL (cf_Sink c))
                then [Errorf ''SINK_WEBHOOK_URL is not a valid absolute URL: %q'' [sk_WebhookURL (cf_Sink c)] None] else [])
             else [])
      in errors_Join errs)"

definition Load ::
  "(string \<Rightarrow> go_error + string \<times> string) \<Rightarrow> (duration \<Rightarrow> string) \<Rightarrow> ('env \<Rightarrow> go_error + Config) \<Rightarrow> 'env \<Rightarrow>
   go_error + Config" where
  "Load url_Parse print_duration env_Parse environ =
     (case env_Parse environ of
        Inl err \<Rightarrow> Inl (Errorf ''parse env: %w'' [] (Some err))
      | Inr cfg \<Rightarrow>
          (case Validate url_Parse print_duration cfg of
             Some err \<Rightarrow> Inl (Errorf ''validate config: %w'' [] (Some err))
           | None \<Rightarrow> Inr cfg))"

section \<open>What \<open>SplitHostPort\<close> accepts\<close>

lemma index_of_append: "c \<notin> set pre \<Longrightarrow> index_of c (pre @ c # post) = Some (length pre)"
  by (induction pre) auto

lemma index_of_None: "index_of c s = None \<longleftrightarrow> c \<notin> set s"
  by (induction s) auto

lemma index_of_Some:
  assumes "index_of c s = Some i"
  obtains pre post where "s = pre @ c # post" "c \<notin> set pre" "i = length pre"
proof -
  have "c \<in> set s" using assms index_of_None by (metis option.distinct(1))
  then obtain pre post where s: "s = pre @ c # post" "c \<notin> set pre" by (metis split_list_first)
  then show thesis using assms index_of_append that by fastforce
qed

lemma last_index_of_append: "c \<notin> set post \<Longrightarrow> last_index_of c (pre @ c # post) = Some (length pre)"
  using index_of_append [of c "rev post" "rev pre"] by (simp add: last_index_of_def)

lemma last_index_of_Some:
  assumes "last_index_of c s = Some i"
  obtains pre post where "s = pre @ c # post" "c \<notin> set post" "i = length pre"
proof -
  obtain j where "index_of c (rev s) = Some j" "i = length s - 1 - j" using assms by (auto simp: last_index_of_def)
  then obtain pre post where r: "rev s = pre @ c # post" "c \<notin> set pre" and i: "i = length s - 1 - length pre"
    by (auto elim: index_of_Some)
  then have s: "s = rev post @ c # rev pre" by (metis rev_rev_ident rev_append rev.simps(2) append.assoc append_Cons append_Nil)
  show thesis using r(2) i s by (intro that [of "rev post" "rev pre"]) simp_all
qed

text \<open>The two forms of an address: \<open>host:port\<close>, and \<open>[host]:port\<close> for a host with colons.\<close>

definition plain_part :: "string \<Rightarrow> bool" where
  "plain_part s \<longleftrightarrow> CHR ''['' \<notin> set s \<and> CHR '']'' \<notin> set s"

lemma SplitHostPort_plain:
  assumes "plain_part h" "plain_part p" "CHR '':'' \<notin> set h" "CHR '':'' \<notin> set p"
  shows "SplitHostPort (h @ '':'' @ p) = Inr (h, p)"
proof -
  have "(h @ '':'' @ p) ! 0 \<noteq> CHR ''[''" using assms(1) by (cases h) (auto simp: plain_part_def)
  then show ?thesis
    using assms last_index_of_append [of "CHR '':''" p h] by (simp add: SplitHostPort_def plain_part_def)
qed

lemma SplitHostPort_bracketed:
  assumes "plain_part h" "plain_part p" "CHR '':'' \<notin> set p"
  shows "SplitHostPort (''['' @ h @ '']:'' @ p) = Inr (h, p)"
proof -
  have "last_index_of (CHR '':'') (''['' @ h @ '']:'' @ p) = Some (Suc (Suc (length h)))"
    using last_index_of_append [of "CHR '':''" p "''['' @ h @ '']''"] assms(3) by simp
  moreover have "index_of (CHR '']'') (''['' @ h @ '']:'' @ p) = Some (Suc (length h))"
    using index_of_append [of "CHR '']''" "''['' @ h" "'':'' @ p"] assms(1) by (simp add: plain_part_def)
  ultimately show ?thesis using assms by (simp add: SplitHostPort_def plain_part_def)
qed

lemma SplitHostPort_sound:
  assumes "SplitHostPort s = Inr (h, p)"
  shows "plain_part h \<and> plain_part p \<and> CHR '':'' \<notin> set p \<and>
    (s = h @ '':'' @ p \<and> CHR '':'' \<notin> set h \<or> s = ''['' @ h @ '']:'' @ p)"
proof -
  obtain i where "last_index_of (CHR '':'') s = Some i"
    using assms by (auto simp: SplitHostPort_def addrErr_def split: option.splits)
  then obtain pre post where s: "s = pre @ CHR '':'' # post" "CHR '':'' \<notin> set post" "i = length pre"
    by (rule last_index_of_Some)
  note last = last_index_of_append [OF s(2), of pre, folded s(1)]
  show ?thesis
  proof (cases "s ! 0 = CHR ''[''")
    case True
    then obtain e where e: "index_of (CHR '']'') s = Some e"
      using assms last by (auto simp: SplitHostPort_def addrErr_def Let_def split: option.splits)
    then obtain b r where b: "s = b @ CHR '']'' # r" "CHR '']'' \<notin> set b" "e = length b" by (rule index_of_Some)
    have *: "Suc e = length pre \<and> h = drop 1 (take e s) \<and> p = post \<and> CHR ''['' \<notin> set (drop 1 s) \<and> CHR '']'' \<notin> set (drop (Suc e) s)"
      using assms last True e s by (auto simp: SplitHostPort_def addrErr_def Let_def split: if_splits)
    have "pre @ CHR '':'' # post = (b @ '']'') @ r" "length pre = length (b @ '']'')" using b * s(1) by simp_all
    then have "pre = b @ '']''" "r = CHR '':'' # post" using append_eq_append_conv by blast+
    moreover obtain b' where "b = CHR ''['' # b'" using True b(1) by (cases b) auto
    ultimately show ?thesis using * b s by (auto simp: plain_part_def)
  next
    case False
    then show ?thesis using assms last s by (auto simp: SplitHostPort_def addrErr_def plain_part_def Let_def split: if_splits)
  qed
qed

lemma SplitHostPort_iff:
  "SplitHostPort s = Inr (h, p) \<longleftrightarrow> plain_part h \<and> plain_part p \<and> CHR '':'' \<notin> set p \<and>
     (s = h @ '':'' @ p \<and> CHR '':'' \<notin> set h \<or> s = ''['' @ h @ '']:'' @ p)"
  using SplitHostPort_sound [of s h p] SplitHostPort_plain [of h p] SplitHostPort_bracketed [of h p] by blast

section \<open>What \<open>Validate\<close> accepts\<close>

definition host_port :: "string \<Rightarrow> bool" where
  "host_port s \<longleftrightarrow>
     (\<exists>h p. plain_part h \<and> plain_part p \<and> CHR '':'' \<notin> set p \<and>
        (s = h @ '':'' @ p \<and> CHR '':'' \<notin> set h \<or> s = ''['' @ h @ '']:'' @ p))"

lemma host_port_iff: "host_port s \<longleftrightarrow> (\<exists>r. SplitHostPort s = Inr r)"
  by (auto simp: host_port_def SplitHostPort_iff)

lemma SplitHostPort_errs: "(case SplitHostPort s of Inl err \<Rightarrow> [f err] | Inr _ \<Rightarrow> []) = [] \<longleftrightarrow> host_port s"
  by (auto simp: host_port_iff split: sum.splits)

text \<open>The rules, as the operator's manual would state them.\<close>

definition valid_redis :: "RedisConfig \<Rightarrow> bool" where
  "valid_redis rd \<longleftrightarrow> (rd_Enabled rd \<longrightarrow> host_port (rd_Addr rd) \<and> 0 < rd_TTL rd \<and> 0 < rd_Timeout rd)"

definition valid_kafka :: "KafkaConfig \<Rightarrow> bool" where
  "valid_kafka kf \<longleftrightarrow>
     (kf_Enabled kf \<longrightarrow>
        kf_Brokers kf \<noteq> [] \<and> (\<forall>b \<in> set (kf_Brokers kf). host_port b) \<and> kf_Topic kf \<noteq> [] \<and> 0 < kf_ProduceTimeout kf \<and>
        (kf_CreateTopic kf \<longrightarrow> 1 \<le> kf_TopicPartitions kf \<and> 1 \<le> kf_TopicReplicationFactor kf))"

definition valid_config :: "(string \<Rightarrow> go_error + string \<times> string) \<Rightarrow> Config \<Rightarrow> bool" where
  "valid_config url_Parse c \<longleftrightarrow>
     1 \<le> wk_Count (cf_Worker c) \<and> 1 \<le> wk_FlowBatchSize (cf_Worker c) \<and>
     1 \<le> db_MaxConns (cf_Database c) \<and> db_MaxConns (cf_Database c) \<le> 1000 \<and>
     ps_Topics (cf_PubSub c) \<noteq> [] \<and> [] \<notin> set (ps_Topics (cf_PubSub c)) \<and> host_port (ps_Endpoint (cf_PubSub c)) \<and>
     absolute_url url_Parse (sf_LoginURL (cf_Salesforce c)) \<and>
     valid_redis (cf_Redis c) \<and> valid_kafka (cf_Kafka c) \<and>
     (sk_WebhookURL (cf_Sink c) = [] \<or> absolute_url url_Parse (sk_WebhookURL (cf_Sink c)))"

lemma empty_not_host_port: "\<not> host_port []"
  by (simp add: host_port_def)

lemma range_errs_Nil: "range_errs f i xs = [] \<longleftrightarrow> (\<forall>k < length xs. f (i + k) (xs ! k) = [])"
  by (induction xs arbitrary: i) (auto simp: less_Suc_eq_0_disj)

lemma worker_errs_ok:
  "worker_errs wk db = [] \<longleftrightarrow> 1 \<le> wk_Count wk \<and> 1 \<le> wk_FlowBatchSize wk \<and> 1 \<le> db_MaxConns db \<and> db_MaxConns db \<le> 1000"
  by (auto simp: worker_errs_def)

lemma pubsub_errs_ok:
  "pubsub_errs ps = [] \<longleftrightarrow> ps_Topics ps \<noteq> [] \<and> [] \<notin> set (ps_Topics ps) \<and> host_port (ps_Endpoint ps)"
  by (auto simp: pubsub_errs_def SplitHostPort_errs range_errs_Nil in_set_conv_nth split: if_splits)

lemma redis_errs_ok: "redis_errs print_duration rd = [] \<longleftrightarrow> valid_redis rd"
  using empty_not_host_port by (auto simp: redis_errs_def SplitHostPort_errs valid_redis_def split: if_splits)

lemma kafka_errs_ok: "kafka_errs print_duration kf = [] \<longleftrightarrow> valid_kafka kf"
  by (auto simp: kafka_errs_def SplitHostPort_errs range_errs_Nil valid_kafka_def all_set_conv_all_nth split: if_splits)

lemmas errs_ok = worker_errs_ok pubsub_errs_ok redis_errs_ok kafka_errs_ok

lemma Validate_None: "Validate url_Parse print_duration c = None \<longleftrightarrow> valid_config url_Parse c"
  by (auto simp: Validate_def errors_Join_def errs_ok valid_config_def Let_def split: if_splits)

section \<open>Properties\<close>

text \<open>
  \<open>SplitHostPort\<close> accepts exactly the two address forms and returns their parts: \<open>host:port\<close>
  where neither part has a colon or a bracket, and \<open>[host]:port\<close>, whose host may have colons. So it
  inverts both ways of printing an address.
\<close>

lemma split_host_port_exact:
  "SplitHostPort s = Inr (h, p) \<longleftrightarrow>
     CHR ''['' \<notin> set h \<and> CHR '']'' \<notin> set h \<and> CHR ''['' \<notin> set p \<and> CHR '']'' \<notin> set p \<and> CHR '':'' \<notin> set p \<and>
     (s = h @ '':'' @ p \<and> CHR '':'' \<notin> set h \<or> s = ''['' @ h @ '']:'' @ p)"
  using SplitHostPort_iff by (auto simp: plain_part_def)

text \<open>
  C29. \<open>Validate\<close> accepts exactly the valid configurations: sizes in range, at least one topic and
  none empty, well-formed addresses and absolute URLs, and the rules of the Redis cache and the
  Kafka sink when these are enabled. (Topics need not be different.)
\<close>

theorem validate_accepts_exactly:
  "Validate url_Parse print_duration c = None \<longleftrightarrow> valid_config url_Parse c"
  by (rule Validate_None)

text \<open>
  The defaults are valid: with the required variables set to at least one non-empty topic,
  \<open>Load\<close> returns the configuration, provided the URL library splits the default login URL.
\<close>

lemma defaults_load:
  assumes "topics \<noteq> []" "[] \<notin> set topics"
    and "url_Parse ''https://login.salesforce.com'' = Inr (''https'', ''login.salesforce.com'')"
  shows "Load url_Parse print_duration (\<lambda>e. Inr (default_config clientID clientSecret topics databaseURL)) environ =
    Inr (default_config clientID clientSecret topics databaseURL)"
proof -
  have "host_port ''api.pubsub.salesforce.com:7443''"
    using SplitHostPort_plain [of "''api.pubsub.salesforce.com''" "''7443''"] by (simp add: host_port_iff plain_part_def)
  then have "valid_config url_Parse (default_config clientID clientSecret topics databaseURL)"
    using assms by (simp add: valid_config_def default_config_def absolute_url_def valid_redis_def valid_kafka_def)
  then have "Validate url_Parse print_duration (default_config clientID clientSecret topics databaseURL) = None"
    by (simp add: Validate_None)
  then show ?thesis by (simp add: Load_def)
qed

end
