(* ===== verification/Health.thy ===== *)
theory Health
  imports Auth Kafka_Producer Redis_Cache
begin

text \<open>
  The admin endpoints: the handlers of \<open>src/internal/health\<close>, the checkers that \<open>New\<close> in
  \<open>src/internal/app/app.go\<close> plugs into them, and the server of \<open>src/internal/httpserver/server.go\<close>.
  The pings of the client libraries, \<open>err.Error()\<close>, the listener and \<open>http.Server\<close> are parameters.
\<close>

section \<open>Handlers\<close>

text \<open>The JSON body of a response: one of the two shapes the handlers encode.\<close>

datatype body =
    StatusBody string
  | ReadyBody string "string \<rightharpoonup> string"

record response =
  rs_status :: int
  rs_content_type :: string
  rs_body :: body

definition writeJSON :: "int \<Rightarrow> body \<Rightarrow> response" where
  "writeJSON status b = \<lparr>rs_status = status, rs_content_type = ''application/json'', rs_body = b\<rparr>"

definition Healthz :: response where
  "Healthz = writeJSON 200 (StatusBody ''ok'')"

text \<open>
  The loop of \<open>Readiness\<close> over the checkers, in the order the map iteration takes, with its two
  variables \<open>results\<close> and \<open>allOK\<close>.
\<close>

fun run_checks ::
  "(go_error \<Rightarrow> string) \<Rightarrow> (string \<times> 'w action) list \<Rightarrow> (string \<rightharpoonup> string) \<Rightarrow> bool \<Rightarrow> 'w \<Rightarrow>
   (string \<rightharpoonup> string) \<times> bool \<times> 'w"
where
  "run_checks error_text [] results allOK w = (results, allOK, w)"
| "run_checks error_text ((name, check) # cs) results allOK w =
     (case check w of
        (Some err, w') \<Rightarrow> run_checks error_text cs (results(name \<mapsto> error_text err)) False w'
      | (None, w') \<Rightarrow> run_checks error_text cs (results(name \<mapsto> ''ok'')) allOK w')"

definition Readiness ::
  "(go_error \<Rightarrow> string) \<Rightarrow> (string \<times> 'w action) list \<Rightarrow> 'w \<Rightarrow> response \<times> 'w" where
  "Readiness error_text checkers w =
     (let (results, allOK, w') = run_checks error_text checkers Map.empty True w
      in if allOK then (writeJSON 200 (ReadyBody ''ready'' results), w')
         else (writeJSON 503 (ReadyBody ''not ready'' results), w'))"

section \<open>Checkers\<close>

definition authCheckTimeout :: duration where "authCheckTimeout = 3 * 10 ^ 9"
definition dbCheckTimeout :: duration where "dbCheckTimeout = 3 * 10 ^ 9"

text \<open>\<open>token d\<close> is \<open>TokenProvider.Token\<close> under a deadline of \<open>d\<close>.\<close>

definition authCheck_Check :: "(duration \<Rightarrow> ('w, Credentials) call) \<Rightarrow> 'w action" where
  "authCheck_Check token w =
     (case token authCheckTimeout w of
        (Inl err, w') \<Rightarrow> (Some (Errorf ''salesforce token: %w'' [] (Some err)), w')
      | (Inr _, w') \<Rightarrow> (None, w'))"

definition newDBChecker :: "(duration \<Rightarrow> 'w action) \<Rightarrow> 'w action" where
  "newDBChecker ping w =
     (case ping dbCheckTimeout w of
        (Some err, w') \<Rightarrow> (Some (Errorf ''database ping: %w'' [] (Some err)), w')
      | (None, w') \<Rightarrow> (None, w'))"

definition newKafkaChecker :: "(duration \<Rightarrow> 'w action) \<Rightarrow> 'w action" where
  "newKafkaChecker ping = Producer_Check (ping dbCheckTimeout)"

text \<open>The cache derives its own deadline from the probe's, so the earlier one counts.\<close>

definition newRedisChecker :: "(duration \<Rightarrow> 'w action) \<Rightarrow> rediscache \<Rightarrow> 'w action" where
  "newRedisChecker ping = Cache_Check (\<lambda>timeout. ping (min dbCheckTimeout timeout))"

text \<open>The checkers of the application.\<close>

definition app_checkers ::
  "(duration \<Rightarrow> ('w, Credentials) call) \<Rightarrow> (duration \<Rightarrow> 'w action) \<Rightarrow> (duration \<Rightarrow> 'w action) \<Rightarrow>
   (duration \<Rightarrow> 'w action) \<Rightarrow> bool \<Rightarrow> rediscache option \<Rightarrow> (string \<times> 'w action) list"
where
  "app_checkers token db_ping kafka_ping redis_ping kafka redis =
     [(''auth'', authCheck_Check token), (''database'', newDBChecker db_ping)] @
     (if kafka then [(''kafka'', newKafkaChecker kafka_ping)] else []) @
     (case redis of None \<Rightarrow> [] | Some c \<Rightarrow> [(''redis'', newRedisChecker redis_ping c)])"

section \<open>The server\<close>

text \<open>The routes; \<open>None\<close> is the router's 404.\<close>

datatype endpoint = EpHealthz | EpReadyz | EpMetrics

definition route :: "string \<Rightarrow> endpoint option" where
  "route path =
     (if path = ''/healthz'' then Some EpHealthz
      else if path = ''/readyz'' then Some EpReadyz
      else if path = ''/metrics'' then Some EpMetrics
      else None)"

definition shutdownTimeout :: duration where "shutdownTimeout = 10 * 10 ^ 9"

abbreviation ErrServerClosed :: go_error where
  "ErrServerClosed \<equiv> Sentinel ''http: Server closed''"

text \<open>
  What ends the \<open>select\<close> of \<open>serve\<close>: the context, or the goroutine around \<open>srv.Serve\<close>, which sends
  the error it got or closes the channel.
\<close>

datatype serve_end = CtxDone | ServeReturned "go_error option"

definition serve :: "(duration \<Rightarrow> 'w action) \<Rightarrow> serve_end \<Rightarrow> 'w action" where
  "serve shutdown ended w =
     (case ended of
        CtxDone \<Rightarrow>
          (case shutdown shutdownTimeout w of
             (Some err, w') \<Rightarrow> (Some (Errorf ''shutdown: %w'' [] (Some err)), w')
           | (None, w') \<Rightarrow> (None, w'))
      | ServeReturned (Some err) \<Rightarrow> (if \<not> errors_Is err ErrServerClosed then (Some err, w) else (None, w))
      | ServeReturned None \<Rightarrow> (None, w))"

definition Server_Run :: "(string \<Rightarrow> 'w action) \<Rightarrow> (duration \<Rightarrow> 'w action) \<Rightarrow> string \<Rightarrow> serve_end \<Rightarrow> 'w action" where
  "Server_Run listen shutdown addr ended w =
     (case listen addr w of
        (Some err, w') \<Rightarrow> (Some (Errorf ''listen %s: %w'' [addr] (Some err)), w')
      | (None, w') \<Rightarrow> serve shutdown ended w')"

section \<open>What the readiness loop computes\<close>

text \<open>The results of the checks, run one after the other; none is skipped.\<close>

fun check_results :: "(string \<times> 'w action) list \<Rightarrow> 'w \<Rightarrow> go_error option list \<times> 'w" where
  "check_results [] w = ([], w)"
| "check_results ((name, check) # cs) w =
     (let (r, w1) = check w; (rs, w2) = check_results cs w1 in (r # rs, w2))"

definition result_text :: "(go_error \<Rightarrow> string) \<Rightarrow> go_error option \<Rightarrow> string" where
  "result_text error_text r = (case r of None \<Rightarrow> ''ok'' | Some err \<Rightarrow> error_text err)"

lemma result_text_simps [simp]:
  "result_text error_text None = ''ok''"
  "result_text error_text (Some err) = error_text err"
  by (simp_all add: result_text_def)

lemma length_check_results [simp]: "length (fst (check_results cs w)) = length cs"
proof (induction cs arbitrary: w)
  case (Cons c cs)
  then show ?case by (cases c) (simp add: case_prod_beta Let_def)
qed simp

lemma run_checks_results:
  assumes "check_results cs w = (rs, w')"
  shows "run_checks error_text cs results allOK w =
    (results(map fst cs [\<mapsto>] map (result_text error_text) rs), allOK \<and> (\<forall>r \<in> set rs. r = None), w')"
  using assms
proof (induction cs arbitrary: w rs results allOK)
  case Nil
  then show ?case by simp
next
  case (Cons c cs)
  obtain name check where c: "c = (name, check)" by (cases c)
  obtain r w1 where r: "check w = (r, w1)" by (cases "check w")
  obtain rs1 where rs1: "check_results cs w1 = (rs1, w')" "rs = r # rs1"
    using Cons.prems c r by (auto simp: Let_def split: prod.splits)
  show ?case using Cons.IH [OF rs1(1)] c r rs1(2) by (cases r) (simp_all add: fun_upd_def)
qed

section \<open>Properties\<close>

text \<open>
  C32. The readiness probe: every check is run, whatever the others return; the answer is 200
  exactly when all of them passed and 503 otherwise; the body has one entry per checker, \<open>ok\<close> for
  a passed one and the error's text for a failed one.
\<close>

theorem readiness_reports_checks:
  assumes "distinct (map fst checkers)" "check_results checkers w = (rs, w')"
    and "Readiness error_text checkers w = (resp, v)"
  shows "v = w' \<and> rs_status resp = (if \<forall>r \<in> set rs. r = None then 200 else 503) \<and>
    (\<exists>status checks. rs_body resp = ReadyBody status checks \<and> dom checks = set (map fst checkers) \<and>
       (\<forall>i < length checkers. checks (fst (checkers ! i)) =
          Some (case rs ! i of None \<Rightarrow> ''ok'' | Some err \<Rightarrow> error_text err)))"
proof -
  let ?checks = "[map fst checkers [\<mapsto>] map (result_text error_text) rs]"
  have len: "length rs = length checkers" using assms(2) length_check_results [of checkers w] by simp
  have entry: "?checks (fst (checkers ! i)) = Some (case rs ! i of None \<Rightarrow> ''ok'' | Some err \<Rightarrow> error_text err)"
    if "i < length checkers" for i
    using that len assms(1) map_upds_nth [of "map fst checkers" "map (result_text error_text) rs" i Map.empty]
    by (simp add: result_text_def)
  have "dom ?checks = set (map fst checkers)" using len by simp
  with entry show ?thesis
    using assms(3) run_checks_results [OF assms(2), of error_text Map.empty True]
    by (auto simp: Readiness_def writeJSON_def split: if_splits)
qed

theorem readiness_reports_checks_witness:
  "let checkers = app_checkers (\<lambda>d n. (Inr \<lparr>cr_AccessToken = ''a'', cr_InstanceURL = ''i'', cr_TenantID = ''t''\<rparr>, n))
         (\<lambda>d n. (Some IoEOF, Suc n)) (\<lambda>d n. (None, Suc n)) (\<lambda>d n. (None, n)) True None
   in \<exists>resp. Readiness (\<lambda>e. ''down'') checkers (0::nat) = (resp, 2) \<and> rs_status resp = 503"
proof -
  let ?checkers = "app_checkers (\<lambda>d n. (Inr \<lparr>cr_AccessToken = ''a'', cr_InstanceURL = ''i'', cr_TenantID = ''t''\<rparr>, n))
         (\<lambda>d n. (Some IoEOF, Suc n)) (\<lambda>d n. (None, Suc n)) (\<lambda>d n. (None, n)) True None"
  let ?rs = "[None, Some (Errorf ''database ping: %w'' [] (Some IoEOF)), None]"
  have "distinct (map fst ?checkers)" by (simp add: app_checkers_def)
  moreover have "check_results ?checkers (0::nat) = (?rs, 2)"
    by (simp add: app_checkers_def authCheck_Check_def newDBChecker_def newKafkaChecker_def Producer_Check_def)
  moreover obtain resp v where run: "Readiness (\<lambda>e. ''down'') ?checkers (0::nat) = (resp, v)" by (rule prod.exhaust)
  ultimately have "v = 2 \<and> rs_status resp = (if \<forall>r \<in> set ?rs. r = None then 200 else 503)"
    using readiness_reports_checks [of ?checkers 0 ?rs 2 "\<lambda>e. ''down''" resp v] by blast
  with run show ?thesis unfolding Let_def by simp
qed

end
