(* ===== verification/App_Start.thy ===== *)
theory App_Start
  imports Metrics Config Health Root_Handler "HOL-Library.Multiset" "HOL-Library.Monad_Syntax"
begin

text \<open>
  Starting and stopping the process: the constructors that open a connection (\<open>pubsub.Dial\<close>,
  \<open>storage.NewPool\<close>, \<open>kafka.New\<close>, \<open>rediscache.New\<close>), \<open>New\<close>, \<open>Close\<close> and the result of \<open>Run\<close>
  (\<open>src/internal/app/app.go\<close>), the migrations (\<open>src/internal/storage/migrate.go\<close>), the logger's
  constructor (\<open>src/internal/log/log.go\<close>) and \<open>run\<close> of \<open>src/cmd/processor/main.go\<close>.

  The library calls are the fields of \<open>start_calls\<close>; the locale \<open>resources\<close> states which of them
  opens and which closes a resource. A panic of a metrics registration is \<open>None\<close>.
\<close>

section \<open>Surroundings\<close>

datatype handle = GrpcConn | DbPool | KafkaClient | RedisClient | Migrator

text \<open>The fields of a \<open>pgxpool.Config\<close> that \<open>NewPool\<close> sets; the rest is what the DSN says.\<close>

record pool_config =
  pc_MaxConns :: int
  pc_HealthCheckPeriod :: duration
  pc_dsn :: string

text \<open>
  The options the clients are made with. A dialed connection carries the per-RPC credentials and the
  interceptor of \<open>Pubsub_Client\<close> besides; TLS versions are the constants of \<open>crypto/tls\<close>.
\<close>

record dial_options =
  do_MinVersion :: nat
  do_keepalive_Time :: duration
  do_keepalive_Timeout :: duration
  do_PermitWithoutStream :: bool

definition dial_opts :: dial_options where
  "dial_opts = \<lparr>do_MinVersion = 0x0303, do_keepalive_Time = 30 * 10 ^ 9, do_keepalive_Timeout = 10 * 10 ^ 9,
     do_PermitWithoutStream = True\<rparr>"

datatype acks = AllISRAcks | LeaderAck | NoAck
datatype codec = NoCompression | GzipCompression | SnappyCompression | Lz4Compression | ZstdCompression

record kgo_options =
  ko_SeedBrokers :: "string list"
  ko_ClientID :: string
  ko_DefaultProduceTopic :: string
  ko_RequiredAcks :: acks
  ko_BatchCompression :: "codec list"
  ko_RecordDeliveryTimeout :: duration

definition kgo_opts :: "KafkaConfig \<Rightarrow> kgo_options" where
  "kgo_opts cfg = \<lparr>ko_SeedBrokers = kf_Brokers cfg, ko_ClientID = kf_ClientID cfg, ko_DefaultProduceTopic = kf_Topic cfg,
     ko_RequiredAcks = AllISRAcks, ko_BatchCompression = [SnappyCompression, NoCompression],
     ko_RecordDeliveryTimeout = kf_ProduceTimeout cfg\<rparr>"

record redis_options =
  ro_Addr :: string
  ro_Password :: string
  ro_DB :: int

definition redis_opts :: "RedisConfig \<Rightarrow> redis_options" where
  "redis_opts cfg = \<lparr>ro_Addr = rd_Addr cfg, ro_Password = rd_Password cfg, ro_DB = rd_DB cfg\<rparr>"

record ('w, 'r) start_calls =
  st_register :: "collector \<Rightarrow> 'r \<Rightarrow> registration \<times> 'r"
  st_grpc_NewClient :: "string \<Rightarrow> dial_options \<Rightarrow> 'w action"
  st_grpc_Close :: "'w action"
  st_ParseConfig :: "string \<Rightarrow> go_error + pool_config"
  st_NewWithConfig :: "pool_config \<Rightarrow> 'w action"
  st_pool_Close :: "'w \<Rightarrow> 'w"
  st_kgo_NewClient :: "kgo_options \<Rightarrow> 'w action"
  st_kgo_Close :: "'w \<Rightarrow> 'w"
  st_CreateTopic :: "duration \<Rightarrow> int \<Rightarrow> int \<Rightarrow> string \<Rightarrow> 'w action"
  st_kerr_code :: "go_error \<Rightarrow> int option"
  st_TopicAlreadyExists :: int
  st_redis_NewClient :: "redis_options \<Rightarrow> 'w \<Rightarrow> 'w"
  st_redis_Close :: "'w action"
  st_iofs_New :: "'w action"
  st_migrate_New :: "string \<Rightarrow> 'w action"
  st_migrate_Up :: "'w action"
  st_migrate_Version :: "('w, nat \<times> bool) call"
  st_migrate_Close :: "'w \<Rightarrow> (go_error option \<times> go_error option) \<times> 'w"

section \<open>Constructors\<close>

definition Dial ::
  "('w, 'r) start_calls \<Rightarrow> PubSubConfig \<Rightarrow> 'r option \<Rightarrow> 'w \<Rightarrow> (go_error option \<times> 'r option \<times> 'w) option" where
  "Dial c cfg reg w = do {
     (metrics, reg1) \<leftarrow> newClientMetrics (st_register c) 0 reg;
     case st_grpc_NewClient c (ps_Endpoint cfg) dial_opts w of
       (Some err, w1) \<Rightarrow> Some (Some (Errorf ''grpc new client: %w'' [] (Some err)), reg1, w1)
     | (None, w1) \<Rightarrow> Some (None, reg1, w1) }"

definition int32_of :: "int \<Rightarrow> int" where
  "int32_of n = (n + 2 ^ 31) mod 2 ^ 32 - 2 ^ 31"

definition poolHealthCheckPeriod :: duration where "poolHealthCheckPeriod = 30 * 10 ^ 9"

definition NewPool :: "('w, 'r) start_calls \<Rightarrow> string \<Rightarrow> int \<Rightarrow> 'w action" where
  "NewPool c dsn maxConns w =
     (case st_ParseConfig c dsn of
        Inl err \<Rightarrow> (Some (Errorf ''parse dsn: %w'' [] (Some err)), w)
      | Inr cfg \<Rightarrow>
          (case st_NewWithConfig c (cfg\<lparr>pc_MaxConns := int32_of maxConns, pc_HealthCheckPeriod := poolHealthCheckPeriod\<rparr>) w of
             (Some err, w1) \<Rightarrow> (Some (Errorf ''new pool: %w'' [] (Some err)), w1)
           | (None, w1) \<Rightarrow> (None, w1)))"

definition Kafka_New ::
  "('w, 'r) start_calls \<Rightarrow> KafkaConfig \<Rightarrow> 'r option \<Rightarrow> 'w \<Rightarrow> ((go_error + producer) \<times> 'r option \<times> 'w) option" where
  "Kafka_New c cfg reg w =
     (case st_kgo_NewClient c (kgo_opts cfg) w of
        (Some err, w1) \<Rightarrow> Some (Inl (Errorf ''new kafka client: %w'' [] (Some err)), reg, w1)
      | (None, w1) \<Rightarrow> do {
          (metrics, reg1) \<leftarrow> newProducerMetrics (st_register c) 0 reg;
          Some (Inr \<lparr>kp_topic = kf_Topic cfg, kp_timeout = kf_ProduceTimeout cfg,
                     kp_partitions = kf_TopicPartitions cfg, kp_replication = kf_TopicReplicationFactor cfg\<rparr>, reg1, w1) })"

definition Redis_New ::
  "('w, 'r) start_calls \<Rightarrow> RedisConfig \<Rightarrow> 'r option \<Rightarrow> 'w \<Rightarrow> (rediscache \<times> 'r option \<times> 'w) option" where
  "Redis_New c cfg reg w = do {
     (metrics, reg1) \<leftarrow> newDedupCacheMetrics (st_register c) 0 reg;
     Some (\<lparr>rc_prefix = rd_KeyPrefix cfg, rc_ttl = rd_TTL cfg, rc_timeout = rd_Timeout cfg\<rparr>, reg1, st_redis_NewClient c (redis_opts cfg) w) }"

section \<open>New\<close>

text \<open>The application \<open>New\<close> returns, as far as its parts are chosen there.\<close>

record app =
  ap_provider :: provider
  ap_subs :: "subscriber list"
  ap_handler :: handler_config
  ap_checkers :: "string list"
  ap_workers :: int
  ap_http :: string

text \<open>The Kafka part: the producer and, if asked for, its topic; \<open>None\<close> when the sink is disabled.\<close>

definition New_kafka ::
  "('w, 'r) start_calls \<Rightarrow> KafkaConfig \<Rightarrow> 'r option \<Rightarrow> 'w \<Rightarrow> ((go_error + producer option) \<times> 'r option \<times> 'w) option" where
  "New_kafka c cfg reg w =
     (if \<not> kf_Enabled cfg then Some (Inr None, reg, w)
      else do {
        (r, reg1, w1) \<leftarrow> Kafka_New c cfg reg w;
        case r of
          Inl err \<Rightarrow>
            Some (Inl (Errorf ''kafka producer: %w'' [] (Some err)), reg1, snd (st_grpc_Close c (st_pool_Close c w1)))
        | Inr p \<Rightarrow>
            if kf_CreateTopic cfg then
              (case EnsureTopic (st_kerr_code c) (st_TopicAlreadyExists c) (st_CreateTopic c) p w1 of
                 (Some err, w2) \<Rightarrow>
                   Some (Inl (Errorf ''ensure kafka topic: %w'' [] (Some err)), reg1,
                         snd (st_grpc_Close c (st_pool_Close c (st_kgo_Close c w2))))
               | (None, w2) \<Rightarrow> Some (Inr (Some p), reg1, w2))
            else Some (Inr (Some p), reg1, w1) })"

definition New_redis ::
  "('w, 'r) start_calls \<Rightarrow> RedisConfig \<Rightarrow> 'r option \<Rightarrow> 'w \<Rightarrow> (rediscache option \<times> 'r option \<times> 'w) option" where
  "New_redis c cfg reg w =
     (if \<not> rd_Enabled cfg then Some (None, reg, w)
      else do { (rc, reg1, w1) \<leftarrow> Redis_New c cfg reg w; Some (Some rc, reg1, w1) })"

definition checker_names :: "bool \<Rightarrow> bool \<Rightarrow> string list" where
  "checker_names kafka redis =
     [''auth'', ''database''] @ (if kafka then [''kafka''] else []) @ (if redis then [''redis''] else [])"

definition New ::
  "('w, 'r) start_calls \<Rightarrow> Config \<Rightarrow> 'r option \<Rightarrow> 'w \<Rightarrow> ((go_error + app) \<times> 'r option \<times> 'w) option" where
  "New c cfg reg w = do {
     (m1, reg1) \<leftarrow> newProviderMetrics (st_register c) 0 reg;
     (dialErr, reg2, w1) \<leftarrow> Dial c (cf_PubSub cfg) reg1 w;
     case dialErr of
       Some err \<Rightarrow> Some (Inl (Errorf ''pubsub dial: %w'' [] (Some err)), reg2, w1)
     | None \<Rightarrow> do {
         (m2, reg3) \<leftarrow> newSchemaCacheMetrics (st_register c) 0 reg2;
         case NewPool c (db_URL (cf_Database cfg)) (db_MaxConns (cf_Database cfg)) w1 of
           (Some err, w2) \<Rightarrow> Some (Inl (Errorf ''database pool: %w'' [] (Some err)), reg3, snd (st_grpc_Close c w2))
         | (None, w2) \<Rightarrow> do {
             (m3, reg4) \<leftarrow> subscribers_metrics (st_register c) [0..<length (ps_Topics (cf_PubSub cfg))] reg3;
             (kafka, reg5, w3) \<leftarrow> New_kafka c (cf_Kafka cfg) reg4 w2;
             case kafka of
               Inl err \<Rightarrow> Some (Inl err, reg5, w3)
             | Inr producer \<Rightarrow> do {
                 (dedup, reg6, w4) \<leftarrow> New_redis c (cf_Redis cfg) reg5 w3;
                 (m4, reg7) \<leftarrow> newCommitterMetrics (st_register c) 0 reg6;
                 (m5, reg8) \<leftarrow> newPoolMetrics (st_register c) 0 reg7;
                 Some (Inr \<lparr>ap_provider = NewProvider (cf_Salesforce cfg) [],
                            ap_subs = map (\<lambda>topic. NewSubscriber topic (wk_FlowBatchSize (cf_Worker cfg))) (ps_Topics (cf_PubSub cfg)),
                            ap_handler = \<lparr>hc_kafka = producer, hc_redis = dedup\<rparr>,
                            ap_checkers = checker_names (producer \<noteq> None) (dedup \<noteq> None),
                            ap_workers = wk_Count (cf_Worker cfg),
                            ap_http = ht_Addr (cf_HTTP cfg)\<rparr>, reg8, w4) } } } }"

section \<open>Close\<close>

definition Close :: "('w, 'r) start_calls \<Rightarrow> app \<Rightarrow> 'w action" where
  "Close c a w =
     (let w1 = (if hc_redis (ap_handler a) \<noteq> None then snd (Cache_Close (st_redis_Close c) w) else w);
          w2 = (if hc_kafka (ap_handler a) \<noteq> None then st_kgo_Close c w1 else w1);
          w3 = st_pool_Close c w2
      in st_grpc_Close c w3)"

section \<open>Running and exiting\<close>

text \<open>
  \<open>errgroup.Wait\<close> returns the first error in the order in which the goroutines return. The
  subscribers, the committer and the pool always return nil; the HTTP server may not.
\<close>

definition errgroup_Wait :: "go_error option list \<Rightarrow> go_error option" where
  "errgroup_Wait rs = (case dropWhile (\<lambda>r. r = None) rs of [] \<Rightarrow> None | r # _ \<Rightarrow> r)"

lemma errgroup_Wait_simps [simp]:
  "errgroup_Wait [] = None"
  "errgroup_Wait (None # rs) = errgroup_Wait rs"
  "errgroup_Wait (Some e # rs) = Some e"
  by (simp_all add: errgroup_Wait_def)

lemma errgroup_Wait_one: "set rs \<subseteq> {None, e} \<Longrightarrow> errgroup_Wait rs = (if e \<in> set rs then e else None)"
proof (induction rs)
  case (Cons r rs)
  then show ?case by (cases r; cases e) auto
qed simp

definition Run_result :: "go_error option list \<Rightarrow> go_error option" where
  "Run_result finished =
     (case errgroup_Wait finished of
        Some err \<Rightarrow> if \<not> errors_Is err ContextCanceled then Some err else None
      | None \<Rightarrow> None)"

text \<open>
  \<open>discoverTopics\<close>: what it logs for each topic. It goes on after every failure and changes
  nothing but the world the two RPCs act on.
\<close>

datatype discovery =
    TopicFailed string go_error
  | TopicDiscovered string string bool bool
  | SchemaFailed string go_error
  | SchemaFetched string nat

fun discoverTopics ::
  "(string \<Rightarrow> ('w, TopicInfo) call) \<Rightarrow> (string \<Rightarrow> ('w, SchemaInfo) call) \<Rightarrow> string list \<Rightarrow> 'w \<Rightarrow> discovery list \<times> 'w"
where
  "discoverTopics getTopic getSchema [] w = ([], w)"
| "discoverTopics getTopic getSchema (topic # topics) w =
     (let (log, w') =
            (case getTopic topic w of
               (Inl err, w1) \<Rightarrow> ([TopicFailed topic err], w1)
             | (Inr info, w1) \<Rightarrow>
                 (let found = TopicDiscovered (ti_TopicName info) (ti_SchemaId info) (ti_CanSubscribe info) (ti_CanPublish info)
                  in case getSchema (ti_SchemaId info) w1 of
                       (Inl err, w2) \<Rightarrow> ([found, SchemaFailed (ti_SchemaId info) err], w2)
                     | (Inr schema, w2) \<Rightarrow> ([found, SchemaFetched (si_SchemaId schema) (length (si_SchemaJson schema))], w2)));
          (rest, w'') = discoverTopics getTopic getSchema topics w'
      in (log @ rest, w''))"

section \<open>The entry point\<close>

abbreviation ErrNoChange :: go_error where
  "ErrNoChange \<equiv> Sentinel ''no change''"

text \<open>The deferred \<open>m.Close()\<close> runs on every path once the migrator exists; its errors and those of
  \<open>Version\<close> are only logged.\<close>

definition Migrate :: "('w, 'r) start_calls \<Rightarrow> string \<Rightarrow> 'w action" where
  "Migrate c dsn w =
     (case st_iofs_New c w of
        (Some err, w1) \<Rightarrow> (Some (Errorf ''init embedded migration source: %w'' [] (Some err)), w1)
      | (None, w1) \<Rightarrow>
          (case st_migrate_New c dsn w1 of
             (Some err, w2) \<Rightarrow> (Some (Errorf ''init migrate: %w'' [] (Some err)), w2)
           | (None, w2) \<Rightarrow>
               (let (up, w3) = st_migrate_Up c w2;
                    fatal = (case up of None \<Rightarrow> None | Some err \<Rightarrow> if \<not> errors_Is err ErrNoChange then Some err else None)
                in case fatal of
                     Some err \<Rightarrow> (Some (Errorf ''apply migrations: %w'' [] (Some err)), snd (st_migrate_Close c w3))
                   | None \<Rightarrow> (None, snd (st_migrate_Close c (snd (st_migrate_Version c w3)))))))"

datatype time_encoder = EpochTimeEncoder | ISO8601TimeEncoder

text \<open>
  The parts of the JSON logger that \<open>newCore\<close> chooses: the level, the encoder's keys and time format, the
  caller annotation, the level from which stack traces are added, the static fields.
\<close>

record 'lvl logger =
  lg_level :: 'lvl
  lg_encode_time :: time_encoder
  lg_time_key :: string
  lg_message_key :: string
  lg_caller :: bool
  lg_stacktrace :: string
  lg_fields :: "(string \<times> string) list"

definition serviceName :: string where "serviceName = ''pubsub-event-processor''"

definition log_newCore :: "(string \<Rightarrow> go_error + 'lvl) \<Rightarrow> string \<Rightarrow> string \<Rightarrow> go_error + 'lvl logger" where
  "log_newCore parseLevel level version =
     (case parseLevel level of
        Inl err \<Rightarrow> Inl (Errorf ''parse log level %q: %w'' [level] (Some err))
      | Inr lvl \<Rightarrow>
          Inr \<lparr>lg_level = lvl, lg_encode_time = ISO8601TimeEncoder, lg_time_key = ''ts'', lg_message_key = ''msg'',
               lg_caller = True, lg_stacktrace = ''error'',
               lg_fields = [(''service'', serviceName), (''version'', version)]\<rparr>)"

text \<open>\<open>New\<close> is \<open>newCore\<close> on standard output.\<close>

definition log_New :: "(string \<Rightarrow> go_error + 'lvl) \<Rightarrow> string \<Rightarrow> string \<Rightarrow> go_error + 'lvl logger" where
  "log_New parseLevel level version = log_newCore parseLevel level version"

text \<open>\<open>run\<close> of the command; \<open>load\<close> is \<open>config.Load\<close> and \<open>appRun\<close> is \<open>App.Run\<close>.\<close>

definition main_run ::
  "(go_error + Config) \<Rightarrow> (string \<Rightarrow> go_error + 'lvl) \<Rightarrow> string \<Rightarrow> ('w, 'r) start_calls \<Rightarrow> (app \<Rightarrow> 'w action) \<Rightarrow>
   'r option \<Rightarrow> 'w \<Rightarrow> (go_error option \<times> 'r option \<times> 'w) option"
where
  "main_run load parseLevel version c appRun reg w =
     (case load of
        Inl err \<Rightarrow> Some (Some err, reg, w)
      | Inr cfg \<Rightarrow>
          (case log_New parseLevel (cf_LogLevel cfg) version of
             Inl err \<Rightarrow> Some (Some err, reg, w)
           | Inr logger \<Rightarrow>
               (case Migrate c (db_URL (cf_Database cfg)) w of
                  (Some err, w1) \<Rightarrow> Some (Some err, reg, w1)
                | (None, w1) \<Rightarrow> do {
                    (r, reg1, w2) \<leftarrow> New c cfg reg w1;
                    case r of
                      Inl err \<Rightarrow> Some (Some err, reg1, w2)
                    | Inr a \<Rightarrow>
                        (let (runErr, w3) = appRun a w2;
                             result = (case runErr of
                                         None \<Rightarrow> None
                                       | Some err \<Rightarrow> if \<not> errors_Is err ContextCanceled then Some err else None)
                         in Some (result, reg1, snd (Close c a w3))) })))"

text \<open>\<open>main\<close>: the exit status of the process.\<close>

definition exit_status :: "go_error option \<Rightarrow> int" where
  "exit_status runErr = (if runErr \<noteq> None then 1 else 0)"

section \<open>What the calls open and close\<close>

locale resources =
  fixes c :: "('w, 'r) start_calls"
    and opened :: "'w \<Rightarrow> handle multiset"
  assumes grpc_new: "st_grpc_NewClient c endpoint opts w = (e, w') \<Longrightarrow>
      opened w' = (if e = None then add_mset GrpcConn (opened w) else opened w)"
    and grpc_close: "st_grpc_Close c w = (e, w') \<Longrightarrow> opened w' = opened w - {#GrpcConn#}"
    and pool_new: "st_NewWithConfig c cfg w = (e, w') \<Longrightarrow>
      opened w' = (if e = None then add_mset DbPool (opened w) else opened w)"
    and pool_close: "opened (st_pool_Close c w) = opened w - {#DbPool#}"
    and kgo_new: "st_kgo_NewClient c kopts w = (e, w') \<Longrightarrow>
      opened w' = (if e = None then add_mset KafkaClient (opened w) else opened w)"
    and kgo_close: "opened (st_kgo_Close c w) = opened w - {#KafkaClient#}"
    and create_topic: "st_CreateTopic c d n m t w = (e, w') \<Longrightarrow> opened w' = opened w"
    and redis_new: "opened (st_redis_NewClient c ropts w) = add_mset RedisClient (opened w)"
    and redis_close: "st_redis_Close c w = (e, w') \<Longrightarrow> opened w' = opened w - {#RedisClient#}"
    and iofs_new: "st_iofs_New c w = (e, w') \<Longrightarrow> opened w' = opened w"
    and migrate_new: "st_migrate_New c dsn w = (e, w') \<Longrightarrow>
      opened w' = (if e = None then add_mset Migrator (opened w) else opened w)"
    and migrate_up: "st_migrate_Up c w = (e, w') \<Longrightarrow> opened w' = opened w"
    and migrate_version: "st_migrate_Version c w = (v, w') \<Longrightarrow> opened w' = opened w"
    and migrate_close: "st_migrate_Close c w = (es, w') \<Longrightarrow> opened w' = opened w - {#Migrator#}"

text \<open>What an application owns.\<close>

definition owned :: "app \<Rightarrow> handle multiset" where
  "owned a = {#GrpcConn, DbPool#} +
     (if hc_kafka (ap_handler a) \<noteq> None then {#KafkaClient#} else {#}) +
     (if hc_redis (ap_handler a) \<noteq> None then {#RedisClient#} else {#})"

context resources
begin

lemma grpc_close_snd: "opened (snd (st_grpc_Close c w)) = opened w - {#GrpcConn#}"
  by (cases "st_grpc_Close c w") (simp add: grpc_close)

lemma Dial_opened:
  "Dial c cfg reg w = Some (e, reg', w') \<Longrightarrow> opened w' = (if e = None then add_mset GrpcConn (opened w) else opened w)"
  by (auto simp: Dial_def dest!: grpc_new split: bind_splits prod.splits option.splits)

lemma NewPool_opened:
  "NewPool c dsn n w = (e, w') \<Longrightarrow> opened w' = (if e = None then add_mset DbPool (opened w) else opened w)"
  by (auto simp: NewPool_def dest!: pool_new split: result_splits)

lemma Kafka_New_opened:
  "Kafka_New c cfg reg w = Some (r, reg', w') \<Longrightarrow>
     opened w' = (case r of Inl err \<Rightarrow> opened w | Inr p \<Rightarrow> add_mset KafkaClient (opened w))"
  by (auto simp: Kafka_New_def dest!: kgo_new split: bind_splits prod.splits option.splits)

lemma EnsureTopic_opened:
  "EnsureTopic code ex (st_CreateTopic c) p w = (e, w') \<Longrightarrow> opened w' = opened w"
  by (auto simp: EnsureTopic_def dest!: create_topic split: prod.splits option.splits if_splits)

lemma New_kafka_opened:
  assumes "New_kafka c cfg reg w = Some (r, reg', w')"
  shows "opened w' = (case r of
      Inl err \<Rightarrow> opened w - {#DbPool#} - {#GrpcConn#}
    | Inr p \<Rightarrow> opened w + (if p \<noteq> None then {#KafkaClient#} else {#}))"
proof (cases "kf_Enabled cfg")
  case False
  then show ?thesis using assms by (auto simp: New_kafka_def)
next
  case True
  then obtain q reg1 w1 where k: "Kafka_New c cfg reg w = Some (q, reg1, w1)"
    using assms by (auto simp: New_kafka_def split: bind_splits)
  show ?thesis
    using assms True k Kafka_New_opened [OF k]
    by (auto simp: New_kafka_def grpc_close_snd pool_close kgo_close dest!: EnsureTopic_opened
          split: result_splits if_splits)
qed

lemma New_redis_opened:
  "New_redis c cfg reg w = Some (r, reg', w') \<Longrightarrow>
     opened w' = opened w + (if r \<noteq> None then {#RedisClient#} else {#})"
  by (auto simp: New_redis_def Redis_New_def redis_new split: if_splits bind_splits)

lemma New_opened:
  assumes "New c cfg reg w = Some (r, reg', w')"
  shows "opened w' = (case r of Inl err \<Rightarrow> opened w | Inr a \<Rightarrow> opened w + owned a)"
  using assms
  by (auto simp: New_def owned_def grpc_close_snd dest!: Dial_opened NewPool_opened New_kafka_opened New_redis_opened
        split: result_splits bind_splits if_splits)

lemma Close_opened:
  assumes "Close c a w = (e, w')"
  shows "opened w' = opened w - owned a"
proof -
  have redis: "opened (snd (Cache_Close (st_redis_Close c) v)) = opened v - {#RedisClient#}" for v
    by (auto simp: Cache_Close_def dest!: redis_close split: prod.splits option.splits)
  show ?thesis
    using assms
    by (auto simp: Close_def Let_def owned_def pool_close kgo_close redis dest!: grpc_close split: if_splits)
       (simp add: add_mset_commute)
qed

lemma Migrate_opened: "Migrate c dsn w = (e, w') \<Longrightarrow> opened w' = opened w"
proof -
  have close: "opened (snd (st_migrate_Close c v)) = opened v - {#Migrator#}" for v
    by (cases "st_migrate_Close c v") (simp add: migrate_close)
  have version: "opened (snd (st_migrate_Version c v)) = opened v" for v
    by (cases "st_migrate_Version c v") (simp add: migrate_version)
  assume "Migrate c dsn w = (e, w')"
  then show ?thesis
    by (auto simp: Migrate_def Let_def close version dest!: iofs_new migrate_new migrate_up
          split: prod.splits option.splits if_splits)
qed

lemma main_run_opened:
  assumes "\<And>a v e v'. appRun a v = (e, v') \<Longrightarrow> opened v' = opened v"
    and "main_run load parseLevel version c appRun reg w = Some (r, reg', w')"
  shows "opened w' = opened w"
proof -
  have close: "opened (snd (Close c a v)) = opened v - owned a" for a v
    by (cases "Close c a v") (simp add: Close_opened)
  show ?thesis
    using assms(2)
    by (auto simp: main_run_def Let_def close dest!: Migrate_opened New_opened assms(1)
          split: result_splits bind_splits if_splits)
qed

end

section \<open>Registration\<close>

text \<open>
  From a registry in which only some of the components' names are taken, the other components can
  register. \<open>taken r cs\<close>: the registry holds exactly the collectors \<open>cs\<close>, under different names.
\<close>

lemma service_names_distinct:
  "distinct (map co_name (provider_collectors 0 @ client_collectors 0 @ schema_cache_collectors 0 @ subscriber_collectors 0 @
     producer_collectors 0 @ dedup_cache_collectors 0 @ committer_collectors 0 @ pool_collectors 0))"
  by (simp add: collector_defs)

lemma names_prefix: "distinct (map f (cur @ nxt @ rest)) \<Longrightarrow> distinct (map f (cur @ nxt))"
  by auto

lemma names_step: "distinct (map f (cur @ nxt @ rest)) \<Longrightarrow> es \<in> {[], nxt} \<Longrightarrow> distinct (map f ((cur @ es) @ rest))"
  by auto

context registry
begin

definition taken :: "'r \<Rightarrow> collector list \<Rightarrow> bool" where
  "taken r cs \<longleftrightarrow> collectors r = cs \<and> distinct (map co_name cs)"

lemma register_all_taken:
  assumes "taken r cs" "distinct (map co_name (cs @ ds))"
  shows "\<exists>r'. register_all register ds (Some r) = Some (ds, Some r') \<and> taken r' (cs @ ds)"
proof -
  have "distinct (map co_name ds)" "co_name ` set ds \<inter> co_name ` set (collectors r) = {}"
    using assms by (auto simp: taken_def)
  from MustRegister_new [OF this] show ?thesis using assms by (auto simp: register_all_def taken_def)
qed

lemma subscribers_taken:
  assumes "taken r cs" "distinct (map co_name (cs @ subscriber_collectors 0))"
  shows "\<exists>ms r'. subscribers_metrics register [0..<n] (Some r) = Some (ms, Some r') \<and>
    taken r' (cs @ (if n = 0 then [] else subscriber_collectors 0))"
proof (cases n)
  case 0
  then show ?thesis using assms by simp
next
  case (Suc m)
  then have "hd [0..<n] = 0" "[0..<n] \<noteq> []" by (simp_all del: upt_Suc)
  then show ?thesis
    using subscribers_metrics_new [of r "[0..<n]"] assms Suc by (auto simp: taken_def)
qed

lemma taken_ext:
  "taken r cs \<Longrightarrow> \<exists>es. taken r (cs @ es) \<and> (es = [] \<or> es = ds)"
  "taken r (cs @ ds) \<Longrightarrow> \<exists>es. taken r (cs @ es) \<and> (es = [] \<or> es = ds)"
  by (rule exI [of _ "[]"], simp) blast

lemma New_kafka_taken:
  assumes "st_register c = register" "taken r cs" "distinct (map co_name (cs @ producer_collectors 0))"
  shows "\<exists>q r' w' es. New_kafka c cfg (Some r) w = Some (q, Some r', w') \<and> taken r' (cs @ es) \<and> es \<in> {[], producer_collectors 0}"
proof -
  obtain r' where "register_all register (producer_collectors 0) (Some r) = Some (producer_collectors 0, Some r')"
    "taken r' (cs @ producer_collectors 0)"
    using register_all_taken [OF assms(2,3)] by blast
  then show ?thesis
    using assms(1,2)
    by (cases "st_kgo_NewClient c (kgo_opts cfg) w")
       (auto simp: New_kafka_def Kafka_New_def newProducerMetrics_def intro: taken_ext
          split: option.split prod.split)
qed

lemma New_redis_taken:
  assumes "st_register c = register" "taken r cs" "distinct (map co_name (cs @ dedup_cache_collectors 0))"
  shows "\<exists>q r' w' es. New_redis c cfg (Some r) w = Some (q, Some r', w') \<and> taken r' (cs @ es) \<and> es \<in> {[], dedup_cache_collectors 0}"
  using register_all_taken [OF assms(2,3)] assms(1,2)
  by (auto simp: New_redis_def Redis_New_def newDedupCacheMetrics_def intro: taken_ext)

lemma client_registered:
  assumes "taken r ds"
    and "distinct (map co_name (ds @ provider_collectors 0 @ client_collectors 0 @ schema_cache_collectors 0 @ rest))"
  obtains r1 r2 r3 where
    "register_all register (provider_collectors 0) (Some r) = Some (provider_collectors 0, Some r1)"
    "register_all register (client_collectors 0) (Some r1) = Some (client_collectors 0, Some r2)"
    "register_all register (schema_cache_collectors 0) (Some r2) = Some (schema_cache_collectors 0, Some r3)"
    "taken r2 ((ds @ provider_collectors 0) @ client_collectors 0)"
    "taken r3 (((ds @ provider_collectors 0) @ client_collectors 0) @ schema_cache_collectors 0)"
proof -
  let ?p = "provider_collectors 0" and ?cl = "client_collectors 0" and ?sc = "schema_cache_collectors 0"
  obtain r1 where r1: "register_all register ?p (Some r) = Some (?p, Some r1)" "taken r1 (ds @ ?p)"
    using register_all_taken [OF assms(1) names_prefix [OF assms(2)]] by blast
  note d2 = names_step [OF assms(2) insertI2 [OF singletonI]]
  obtain r2 where r2: "register_all register ?cl (Some r1) = Some (?cl, Some r2)" "taken r2 ((ds @ ?p) @ ?cl)"
    using register_all_taken [OF r1(2) names_prefix [OF d2]] by blast
  note d3 = names_step [OF d2 insertI2 [OF singletonI]]
  obtain r3 where r3: "register_all register ?sc (Some r2) = Some (?sc, Some r3)" "taken r3 (((ds @ ?p) @ ?cl) @ ?sc)"
    using register_all_taken [OF r2(2) names_prefix [OF d3]] by blast
  show thesis by (rule that [OF r1(1) r2(1) r3(1) r2(2) r3(2)])
qed

lemma workers_registered:
  assumes "taken r ds" "distinct (map co_name (ds @ committer_collectors 0 @ pool_collectors 0))"
  obtains r1 r2 cs where
    "register_all register (committer_collectors 0) (Some r) = Some (committer_collectors 0, Some r1)"
    "register_all register (pool_collectors 0) (Some r1) = Some (pool_collectors 0, Some r2)" "taken r2 cs"
proof -
  let ?cm = "committer_collectors 0" and ?pl = "pool_collectors 0"
  obtain r1 where r1: "register_all register ?cm (Some r) = Some (?cm, Some r1)" "taken r1 (ds @ ?cm)"
    using register_all_taken [OF assms(1) names_prefix [OF assms(2)]] by blast
  obtain r2 where r2: "register_all register ?pl (Some r1) = Some (?pl, Some r2)" "taken r2 ((ds @ ?cm) @ ?pl)"
    using register_all_taken [OF r1(2) names_step [OF assms(2) insertI2 [OF singletonI]]] by blast
  show thesis by (rule that [OF r1(1) r2])
qed

lemma New_total:
  assumes "st_register c = register" "collectors r = []"
  shows "\<exists>q r' w'. New c cfg (Some r) w = Some (q, Some r', w') \<and> distinct (map co_name (collectors r'))"
proof -
  let ?topics = "ps_Topics (cf_PubSub cfg)" and ?p = "provider_collectors 0" and ?cl = "client_collectors 0"
    and ?sc = "schema_cache_collectors 0" and ?sub = "subscriber_collectors 0"
  let ?ds = "(([] @ ?p) @ ?cl) @ ?sc"
  have d1: "distinct (map co_name ([] @ ?p @ ?cl @ ?sc @ ?sub @ producer_collectors 0 @ dedup_cache_collectors 0
      @ committer_collectors 0 @ pool_collectors 0))" using service_names_distinct by simp
  then have d4: "distinct (map co_name (?ds @ ?sub @ producer_collectors 0 @ dedup_cache_collectors 0
      @ committer_collectors 0 @ pool_collectors 0))" by simp
  have "taken r []" using assms(2) by (simp add: taken_def)
  from client_registered [OF this d1] obtain r1 r2 r3 where
    R: "register_all register ?p (Some r) = Some (?p, Some r1)" "register_all register ?cl (Some r1) = Some (?cl, Some r2)"
      "register_all register ?sc (Some r2) = Some (?sc, Some r3)" and r2: "taken r2 (([] @ ?p) @ ?cl)" and r3: "taken r3 ?ds"
    by blast
  define ss where "ss = (if length ?topics = 0 then [] else ?sub)"
  obtain ms r4 where r4: "subscribers_metrics register [0..<length ?topics] (Some r3) = Some (ms, Some r4)" "taken r4 (?ds @ ss)"
    using subscribers_taken [OF r3 names_prefix [OF d4], of "length ?topics"] unfolding ss_def by blast
  have "ss \<in> {[], ?sub}" by (simp add: ss_def)
  note d5 = names_step [OF d4 this]
  obtain e1 v1 where dial: "st_grpc_NewClient c (ps_Endpoint (cf_PubSub cfg)) dial_opts w = (e1, v1)" by fastforce
  obtain e2 v2 where pool: "NewPool c (db_URL (cf_Database cfg)) (db_MaxConns (cf_Database cfg)) v1 = (e2, v2)" by fastforce
  obtain q5 r5 v3 es where r5: "New_kafka c (cf_Kafka cfg) (Some r4) v2 = Some (q5, Some r5, v3)" "taken r5 ((?ds @ ss) @ es)"
      and es: "es \<in> {[], producer_collectors 0}"
    using New_kafka_taken [OF assms(1) r4(2) names_prefix [OF d5]] by blast
  note d6 = names_step [OF d5 es]
  obtain q6 r6 v4 fs where r6: "New_redis c (cf_Redis cfg) (Some r5) v3 = Some (q6, Some r6, v4)"
      "taken r6 (((?ds @ ss) @ es) @ fs)" and fs: "fs \<in> {[], dedup_cache_collectors 0}"
    using New_redis_taken [OF assms(1) r5(2) names_prefix [OF d6]] by blast
  obtain r7 r8 cs where W: "register_all register (committer_collectors 0) (Some r6) = Some (committer_collectors 0, Some r7)"
      "register_all register (pool_collectors 0) (Some r7) = Some (pool_collectors 0, Some r8)" and r8: "taken r8 cs"
    by (rule workers_registered [OF r6(2) names_step [OF d6 fs]])
  have names: "distinct (map co_name (collectors r'))" if "taken r' ds" for r' ds using that by (simp add: taken_def)
  note run = New_def Dial_def newProviderMetrics_def newClientMetrics_def newSchemaCacheMetrics_def
    newCommitterMetrics_def newPoolMetrics_def assms(1) R r4(1) r5(1) r6(1) W dial pool
  have "\<exists>q r' w'. New c cfg (Some r) w = Some (q, Some r', w') \<and> r' \<in> {r2, r3, r5, r8}"
    by (cases e1; cases e2; cases q5) (simp_all add: run)
  then show ?thesis using names [OF r2] names [OF r3] names [OF r5(2)] names [OF r8] by blast
qed

end

section \<open>An environment\<close>

text \<open>
  Connections that fail as a script says: \<open>True\<close> is a failing call; past its end every call works.
\<close>

record start_env =
  se_opened :: "handle multiset"
  se_faults :: "bool list"

definition env_try :: "(handle multiset \<Rightarrow> handle multiset) \<Rightarrow> start_env action" where
  "env_try f w =
     (case se_faults w of
        True # fs \<Rightarrow> (Some net_error, w\<lparr>se_faults := fs\<rparr>)
      | False # fs \<Rightarrow> (None, w\<lparr>se_faults := fs, se_opened := f (se_opened w)\<rparr>)
      | [] \<Rightarrow> (None, w\<lparr>se_opened := f (se_opened w)\<rparr>))"

definition env_drop :: "handle \<Rightarrow> start_env \<Rightarrow> start_env" where
  "env_drop h w = w\<lparr>se_opened := se_opened w - {#h#}\<rparr>"

definition env_start :: "(start_env, collector list) start_calls" where
  "env_start = \<lparr>st_register = list_register,
     st_grpc_NewClient = (\<lambda>endpoint opts. env_try (add_mset GrpcConn)),
     st_grpc_Close = (\<lambda>w. (None, env_drop GrpcConn w)),
     st_ParseConfig = (\<lambda>dsn. Inr \<lparr>pc_MaxConns = 4, pc_HealthCheckPeriod = 60 * 10 ^ 9, pc_dsn = dsn\<rparr>),
     st_NewWithConfig = (\<lambda>cfg. env_try (add_mset DbPool)),
     st_pool_Close = env_drop DbPool,
     st_kgo_NewClient = (\<lambda>opts. env_try (add_mset KafkaClient)),
     st_kgo_Close = env_drop KafkaClient,
     st_CreateTopic = (\<lambda>d n m t. env_try (\<lambda>hs. hs)),
     st_kerr_code = (\<lambda>e. None), st_TopicAlreadyExists = 36,
     st_redis_NewClient = (\<lambda>opts w. w\<lparr>se_opened := add_mset RedisClient (se_opened w)\<rparr>),
     st_redis_Close = (\<lambda>w. (None, env_drop RedisClient w)),
     st_iofs_New = env_try (\<lambda>hs. hs),
     st_migrate_New = (\<lambda>dsn. env_try (add_mset Migrator)),
     st_migrate_Up = env_try (\<lambda>hs. hs),
     st_migrate_Version = (\<lambda>w. (Inr (1, False), w)),
     st_migrate_Close = (\<lambda>w. ((None, None), env_drop Migrator w))\<rparr>"

lemma env_try_opened: "env_try f w = (e, w') \<Longrightarrow> se_opened w' = (if e = None then f (se_opened w) else se_opened w)"
  by (auto simp: env_try_def split: list.splits bool.splits)

interpretation start_env: resources env_start se_opened
  by unfold_locales (auto simp: env_start_def env_drop_def dest!: env_try_opened split: if_splits)

section \<open>Properties\<close>

text \<open>
  C33. Starting and stopping balance: a start that fails at any point has closed everything it had
  opened; a successful one leaves open exactly what the application owns, the gRPC connection, the
  database pool and the Kafka and Redis clients that are enabled; \<open>Close\<close> then releases all of it.
\<close>

theorem start_stop_balanced:
  assumes "resources c opened" "New c cfg reg w = Some (r, reg', w')"
  shows "(\<forall>err. r = Inl err \<longrightarrow> opened w' = opened w) \<and>
    (\<forall>a. r = Inr a \<longrightarrow>
       opened w' = opened w + {#GrpcConn, DbPool#} + (if hc_kafka (ap_handler a) \<noteq> None then {#KafkaClient#} else {#}) +
         (if hc_redis (ap_handler a) \<noteq> None then {#RedisClient#} else {#}) \<and>
       (\<forall>e w''. Close c a w' = (e, w'') \<longrightarrow> opened w'' = opened w))"
  using resources.New_opened [OF assms] resources.Close_opened [OF assms(1)]
  by (auto simp: owned_def split: sum.splits)

text \<open>The third call fails: the Kafka client.\<close>

theorem start_stop_balanced_witness:
  "let cfg = (default_config ''id'' ''secret'' [''/event/A''] ''dsn'')\<lparr>cf_Kafka := (cf_Kafka (default_config [] [] [] []))\<lparr>kf_Enabled := True\<rparr>\<rparr>
   in \<exists>err reg' w'. New env_start cfg (Some []) \<lparr>se_opened = {#}, se_faults = [False, False, True]\<rparr> = Some (Inl err, reg', w') \<and>
        se_opened w' = {#}"
proof -
  let ?cfg = "(default_config ''id'' ''secret'' [''/event/A''] ''dsn'')\<lparr>cf_Kafka := (cf_Kafka (default_config [] [] [] []))\<lparr>kf_Enabled := True\<rparr>\<rparr>"
  let ?w = "\<lparr>se_opened = {#}, se_faults = [False, False, True]\<rparr>"
  have "\<exists>err reg' w'. New env_start ?cfg (Some []) ?w = Some (Inl err, reg', w')"
    by (simp add: New_def Dial_def NewPool_def New_kafka_def Kafka_New_def default_config_def env_start_def env_try_def
          newProviderMetrics_def newClientMetrics_def newSchemaCacheMetrics_def newSubscriberMetrics_def register_all_def
          collector_defs list_register_def registerOrReuse_def)
  then obtain err reg' w' where run: "New env_start ?cfg (Some []) ?w = Some (Inl err, reg', w')" by blast
  then have "se_opened w' = se_opened ?w" using start_stop_balanced [OF start_env.resources_axioms run] by simp
  with run show ?thesis unfolding Let_def by (intro exI conjI) (assumption, simp)
qed



text \<open>
  C35. A start on a fresh metrics registry never panics, whatever is enabled, however many topics are
  configured and wherever a connection fails: no two components use the same metric name, and the
  subscribers after the first reuse its collectors.
\<close>

theorem start_never_panics:
  assumes "registry (st_register c) collectors" "collectors r = []"
  shows "\<exists>q r' w'. New c cfg (Some r) w = Some (q, Some r', w') \<and> distinct (map co_name (collectors r'))"
  by (rule registry.New_total [OF assms(1) refl assms(2)])

theorem start_never_panics_witness:
  "\<exists>q r' w'. New env_start (default_config ''id'' ''secret'' [''/event/A'', ''/event/B''] ''dsn'') (Some [])
      \<lparr>se_opened = {#}, se_faults = []\<rparr> = Some (q, Some r', w') \<and> distinct (map co_name r')"
proof -
  have "registry (st_register env_start) (\<lambda>r. r)" using list_registry.registry_axioms by (simp add: env_start_def)
  then show ?thesis by (rule start_never_panics) simp
qed

text \<open>
  The database pool gets exactly the configured number of connections: the conversion to
  \<open>int32\<close> changes no value that \<open>Validate\<close> accepts.
\<close>

lemma pool_size_as_configured:
  assumes "Validate url_Parse print_duration cfg = None" "st_ParseConfig c dsn = Inr pc"
    and "NewPool c dsn (db_MaxConns (cf_Database cfg)) w = (None, w')"
  shows "\<exists>pc'. st_NewWithConfig c pc' w = (None, w') \<and> pc_MaxConns pc' = db_MaxConns (cf_Database cfg) \<and>
    1 \<le> pc_MaxConns pc' \<and> pc_MaxConns pc' \<le> 1000 \<and> pc_dsn pc' = pc_dsn pc"
proof -
  have n: "1 \<le> db_MaxConns (cf_Database cfg)" "db_MaxConns (cf_Database cfg) \<le> 1000"
    using assms(1) by (auto simp: Validate_None valid_config_def)
  then have "int32_of (db_MaxConns (cf_Database cfg)) = db_MaxConns (cf_Database cfg)" by (simp add: int32_of_def)
  with n assms(2,3) show ?thesis by (auto simp: NewPool_def split: prod.splits option.splits)
qed

end
