(* ===== verification/App_Run.thy ===== *)
theory App_Run
  imports Scheduler App_Start
begin

text \<open>
  \<open>Run\<close> of \<open>src/internal/app/app.go\<close> with the lifetimes of its goroutines: when each of them
  returns, when the shared channel is closed, when the final flush runs and when \<open>g.Wait\<close> lets
  \<open>Run\<close> return. The data moves by the steps of the scheduler; this theory adds who may move.
\<close>

section \<open>State\<close>

text \<open>
  The pool's goroutine waits for the workers, flushes the cursors and returns; the outcome of the
  flush is kept (the code only logs it).
\<close>

datatype pool_phase = PoolRunning | PoolFlushing | PoolReturned "go_error option"

text \<open>
  \<open>g_subs\<close>: which subscribers' \<open>Run\<close> has returned (and closed the subscriber's channel).
  \<open>g_closed\<close>: \<open>events\<close> is closed. \<open>g_commit\<close>: the committer's \<open>Run\<close> has returned. \<open>g_first\<close>: the
  first error of the flush that holds \<open>flushMu\<close>. \<open>g_http\<close>: what the HTTP server returned.
  \<open>g_results\<close>: what the goroutines of the group returned, in that order.
\<close>

record control =
  g_subs :: "bool list"
  g_closed :: bool
  g_commit :: bool
  g_first :: "go_error option"
  g_pool :: pool_phase
  g_http :: "go_error option option"
  g_results :: "go_error option list"

definition Run_start :: "nat \<Rightarrow> control" where
  "Run_start nsubs =
     \<lparr>g_subs = replicate nsubs False, g_closed = False, g_commit = False, g_first = None,
      g_pool = PoolRunning, g_http = None, g_results = []\<rparr>"

text \<open>\<open>g.Wait\<close> returns once every goroutine of the group has; the fan-in is not in the group.\<close>

definition Run_stopped :: "control \<Rightarrow> bool" where
  "Run_stopped g \<longleftrightarrow>
     (\<forall>b \<in> set (g_subs g). b) \<and> g_commit g \<and> g_http g \<noteq> None \<and> g_pool g \<notin> {PoolRunning, PoolFlushing}"

section \<open>Steps\<close>

text \<open>Whose step a choice is.\<close>

fun stream_choice :: "choice \<Rightarrow> nat option" where
  "stream_choice (Connect i pos reason) = Some i"
| "stream_choice (Receive i now) = Some i"
| "stream_choice (StreamEnds i reason) = Some i"
| "stream_choice (Sender i reason) = Some i"
| "stream_choice _ = None"

fun fanin_choice :: "choice \<Rightarrow> bool" where
  "fanin_choice (FanTake i) = True"
| "fanin_choice (FanPush i) = True"
| "fanin_choice _ = False"

fun worker_choice :: "choice \<Rightarrow> bool" where
  "worker_choice (WorkerTake j) = True"
| "worker_choice (SchemaStage j) = True"
| "worker_choice (SchemaAgain j) = True"
| "worker_choice (HandlerStage j) = True"
| "worker_choice (HandlerAgain j) = True"
| "worker_choice _ = False"

text \<open>
  A flush starts by taking \<open>flushMu\<close> (no other flush is running) and the snapshot; \<open>order\<close> is the
  order in which the map is ranged over.
\<close>

definition flush_start :: "('w, 'sch, 'v) pipe \<Rightarrow> string list \<Rightarrow> ('w, 'sch, 'v) pipe \<Rightarrow> bool" where
  "flush_start s order s' \<longleftrightarrow>
     p_pending s = None \<and> distinct order \<and> set order = dom (fst (snapshot (p_cursor s))) \<and>
     s' = s\<lparr>p_cursor := snd (snapshot (p_cursor s)),
            p_pending := Some (map (\<lambda>topic. (topic, the (fst (snapshot (p_cursor s)) topic))) order)\<rparr>"

text \<open>
  A fan-in leaves when its source is closed and drained, or when the context is canceled while it
  holds an event. A worker leaves when the context is canceled, or \<open>events\<close> is closed and drained.
  The HTTP server returns an error at any time, or nil after the cancellation; an error cancels
  the context of the group.
\<close>

inductive app_step ::
  "('w, 'sch, 'v) deps \<Rightarrow> ('w, 'sch, 'v) pipe \<Rightarrow> control \<Rightarrow> ('w, 'sch, 'v) pipe \<Rightarrow> control \<Rightarrow> bool"
  for d :: "('w, 'sch, 'v) deps"
where
  stream: "stream_choice ch = Some i \<Longrightarrow> i < length (g_subs g) \<Longrightarrow> \<not> g_subs g ! i \<Longrightarrow>
     run_choice d ch s = Some s' \<Longrightarrow> app_step d s g s' g"
| fanin: "fanin_choice ch \<Longrightarrow> run_choice d ch s = Some s' \<Longrightarrow> app_step d s g s' g"
| fanin_leaves: "i < length (p_subs s) \<Longrightarrow> t = p_subs s ! i \<Longrightarrow>
     t_fanin t = FanWaiting \<and> s_out (t_sub t) = [] \<and> g_subs g ! i \<or> t_fanin t = FanHolding e \<and> p_canceled s \<Longrightarrow>
     app_step d s g (set_task i (t\<lparr>t_fanin := FanExited\<rparr>) s) g"
| closer: "\<forall>t \<in> set (p_subs s). t_fanin t = FanExited \<Longrightarrow> \<not> g_closed g \<Longrightarrow>
     app_step d s g s (g\<lparr>g_closed := True\<rparr>)"
| worker: "worker_choice ch \<Longrightarrow> run_choice d ch s = Some s' \<Longrightarrow> app_step d s g s' g"
| worker_stops: "j < length (p_workers s) \<Longrightarrow> p_canceled s \<Longrightarrow>
     p_workers s ! j = FetchBackoff e \<or> p_workers s ! j = HandleBackoff e payload \<Longrightarrow>
     app_step d s g (set_worker j Idle s) g"
| worker_leaves: "j < length (p_workers s) \<Longrightarrow> p_workers s ! j = Idle \<Longrightarrow>
     p_canceled s \<or> g_closed g \<and> p_events s = [] \<Longrightarrow> app_step d s g (set_worker j Exited s) g"
| sub_returns: "i < length (g_subs g) \<Longrightarrow> \<not> g_subs g ! i \<Longrightarrow> t_conn (p_subs s ! i) = None \<Longrightarrow> p_canceled s \<Longrightarrow>
     app_step d s g s (g\<lparr>g_subs := (g_subs g)[i := True], g_results := g_results g @ [None]\<rparr>)"
| tick: "\<not> g_commit g \<Longrightarrow> flush_start s order s' \<Longrightarrow> app_step d s g s' (g\<lparr>g_first := None\<rparr>)"
| save: "p_pending s = Some ((topic, rid) # rest) \<Longrightarrow>
     flush_one (d_save d) topic rid (p_cursor s, p_world s, g_first g) = Some (c', w', fe) \<Longrightarrow>
     app_step d s g (s\<lparr>p_cursor := c', p_world := w', p_pending := Some rest\<rparr>) (g\<lparr>g_first := fe\<rparr>)"
| tick_ends: "p_pending s = Some [] \<Longrightarrow> g_pool g \<noteq> PoolFlushing \<Longrightarrow> app_step d s g (s\<lparr>p_pending := None\<rparr>) g"
| commit_returns: "\<not> g_commit g \<Longrightarrow> p_canceled s \<Longrightarrow> p_pending s = None \<or> g_pool g = PoolFlushing \<Longrightarrow>
     app_step d s g s (g\<lparr>g_commit := True, g_results := g_results g @ [None]\<rparr>)"
| final_flush: "g_pool g = PoolRunning \<Longrightarrow> \<forall>k \<in> set (p_workers s). k = Exited \<Longrightarrow> flush_start s order s' \<Longrightarrow>
     app_step d s g s' (g\<lparr>g_pool := PoolFlushing, g_first := None\<rparr>)"
| pool_returns: "g_pool g = PoolFlushing \<Longrightarrow> p_pending s = Some [] \<Longrightarrow>
     app_step d s g (s\<lparr>p_pending := None\<rparr>)
       (g\<lparr>g_pool := PoolReturned (g_first g), g_results := g_results g @ [None]\<rparr>)"
| http_returns: "g_http g = None \<Longrightarrow> e \<noteq> None \<or> p_canceled s \<Longrightarrow>
     app_step d s g (s\<lparr>p_canceled := True\<rparr>) (g\<lparr>g_http := Some e, g_results := g_results g @ [e]\<rparr>)"
| cancel: "app_step d s g (s\<lparr>p_canceled := True\<rparr>) g"

inductive app_runs ::
  "('w, 'sch, 'v) deps \<Rightarrow> string list \<Rightarrow> int \<Rightarrow> nat \<Rightarrow> 'w \<Rightarrow> ('w, 'sch, 'v) pipe \<Rightarrow> control \<Rightarrow> bool"
  for d topics batchSize n w0
where
  started: "app_runs d topics batchSize n w0 (boot topics batchSize n w0) (Run_start (length topics))"
| moved: "app_runs d topics batchSize n w0 s g \<Longrightarrow> app_step d s g s' g' \<Longrightarrow> app_runs d topics batchSize n w0 s' g'"

section \<open>Frames\<close>

text \<open>The open streams and the fan-in goroutines of a state.\<close>

abbreviation conns :: "('w, 'sch, 'v) pipe \<Rightarrow> nat option list" where
  "conns s \<equiv> map t_conn (p_subs s)"

abbreviation fans :: "('w, 'sch, 'v) pipe \<Rightarrow> fanin list" where
  "fans s \<equiv> map t_fanin (p_subs s)"

lemma ack_first_maps [simp]:
  "map t_conn (ack_first topic ts) = map t_conn ts" "map t_fanin (ack_first topic ts) = map t_fanin ts"
  by (induction ts) auto

lemma App_ack_control [simp]:
  "conns (App_ack e s) = conns s" "fans (App_ack e s) = fans s" "length (p_subs (App_ack e s)) = length (p_subs s)"
  "p_workers (App_ack e s) = p_workers s" "p_events (App_ack e s) = p_events s" "p_canceled (App_ack e s) = p_canceled s"
proof -
  show c: "conns (App_ack e s) = conns s" by (simp add: App_ack_def)
  show "length (p_subs (App_ack e s)) = length (p_subs s)" using arg_cong [OF c, of length] by simp
qed (simp_all add: App_ack_def)

lemma fans_set_task: "t_fanin t = t_fanin (p_subs s ! i) \<Longrightarrow> fans (set_task i t s) = fans s"
  by (simp add: map_update_same)

lemma stream_frame:
  assumes "stream_choice ch = Some i" "run_choice d ch s = Some s'"
  shows "fans s' = fans s" "length (p_subs s') = length (p_subs s)" "p_workers s' = p_workers s"
    "p_pending s' = p_pending s" "p_canceled s' = p_canceled s" "p_cursor s' = p_cursor s"
    "k \<noteq> i \<Longrightarrow> k < length (p_subs s) \<Longrightarrow> t_conn (p_subs s' ! k) = t_conn (p_subs s ! k)"
  using assms fans_set_task [of _ s i]
  by (cases ch; auto simp: Let_def simp del: runSender.simps server_start.simps
        split: result_splits if_splits)+

lemma fanin_cases:
  assumes "fanin_choice ch" "run_choice d ch s = Some s'"
  obtains i t evs where "i < length (p_subs s)" "p_subs s' = (p_subs s)[i := t]" "s' = s\<lparr>p_subs := p_subs s', p_events := evs\<rparr>"
    "t_conn t = t_conn (p_subs s ! i)" "t_fanin t \<noteq> FanExited" "t_fanin (p_subs s ! i) \<noteq> FanExited"
proof (cases ch)
  case (FanTake i)
  then obtain e es where "i < length (p_subs s)" "t_fanin (p_subs s ! i) = FanWaiting"
    "s' = set_task i ((p_subs s ! i)\<lparr>t_fanin := FanHolding e, t_sub := (t_sub (p_subs s ! i))\<lparr>s_out := es\<rparr>\<rparr>) s"
    using assms(2) by (auto split: if_splits list.splits)
  then show thesis
    by (intro that [of i "(p_subs s ! i)\<lparr>t_fanin := FanHolding e, t_sub := (t_sub (p_subs s ! i))\<lparr>s_out := es\<rparr>\<rparr>"
          "p_events s"]) (simp_all add: set_task_def)
next
  case (FanPush i)
  then obtain e where "i < length (p_subs s)" "t_fanin (p_subs s ! i) = FanHolding e"
    "s' = set_task i ((p_subs s ! i)\<lparr>t_fanin := FanWaiting\<rparr>) s\<lparr>p_events := p_events s @ [e]\<rparr>"
    using assms(2) by (auto split: if_splits fanin.splits)
  then show thesis
    by (intro that [of i "(p_subs s ! i)\<lparr>t_fanin := FanWaiting\<rparr>" "p_events s @ [e]"]) (simp_all add: set_task_def)
qed (use assms in simp_all)

lemma fanin_frame:
  assumes "fanin_choice ch" "run_choice d ch s = Some s'"
  shows "conns s' = conns s" "length (p_subs s') = length (p_subs s)" "p_workers s' = p_workers s"
    "p_pending s' = p_pending s" "p_canceled s' = p_canceled s" "p_cursor s' = p_cursor s"
    "\<not> set (fans s) \<subseteq> {FanExited}" "FanExited \<in> set (fans s') \<Longrightarrow> FanExited \<in> set (fans s)"
proof -
  obtain i t evs where i: "i < length (p_subs s)" and subs: "p_subs s' = (p_subs s)[i := t]"
    and s': "s' = s\<lparr>p_subs := p_subs s', p_events := evs\<rparr>" and conn: "t_conn t = t_conn (p_subs s ! i)"
    and fan: "t_fanin t \<noteq> FanExited" "t_fanin (p_subs s ! i) \<noteq> FanExited"
    using assms by (rule fanin_cases)
  show "conns s' = conns s" "length (p_subs s') = length (p_subs s)" using subs conn by (simp_all add: map_update_same)
  show "p_workers s' = p_workers s" "p_pending s' = p_pending s" "p_canceled s' = p_canceled s" "p_cursor s' = p_cursor s"
    by (subst s'; simp)+
  show "\<not> set (fans s) \<subseteq> {FanExited}" using i fan(2) nth_mem [of i "fans s"] by force
  show "FanExited \<in> set (fans s)" if "FanExited \<in> set (fans s')"
    using that fan(1) subs set_update_subset_insert [of "fans s" i "t_fanin t"] by (auto simp: map_update)
qed

lemma worker_frame:
  assumes "worker_choice ch" "run_choice d ch s = Some s'"
  obtains j k where "j < length (p_workers s)" "p_workers s ! j \<noteq> Exited" "p_workers s' = (p_workers s)[j := k]"
    "conns s' = conns s" "fans s' = fans s" "length (p_subs s') = length (p_subs s)"
    "p_pending s' = p_pending s" "p_canceled s' = p_canceled s"
  using assms
  by (cases ch) (auto split: result_splits if_splits worker.splits list.splits)

section \<open>The lifetimes\<close>

text \<open>
  A subscriber returns only after the cancellation and between streams, a fan-in leaves only after
  the cancellation, \<open>events\<close> is closed only after every fan-in, the final flush starts only after
  every worker, and holds \<open>flushMu\<close> until the pool returns.
\<close>

definition life_inv :: "('w, 'sch, 'v) pipe \<Rightarrow> control \<Rightarrow> bool" where
  "life_inv s g \<longleftrightarrow>
     length (g_subs g) = length (p_subs s) \<and>
     (\<forall>i < length (p_subs s). g_subs g ! i \<longrightarrow> p_canceled s \<and> t_conn (p_subs s ! i) = None) \<and>
     (FanExited \<in> set (fans s) \<longrightarrow> p_canceled s) \<and>
     (g_closed g \<longrightarrow> set (fans s) \<subseteq> {FanExited}) \<and>
     (g_pool g \<noteq> PoolRunning \<longrightarrow> set (p_workers s) \<subseteq> {Exited}) \<and>
     (g_pool g = PoolFlushing \<longrightarrow> p_pending s \<noteq> None) \<and>
     (g_commit g \<longrightarrow> p_pending s \<noteq> None \<longrightarrow> g_pool g = PoolFlushing)"

lemma life_start: "life_inv (boot topics batchSize n w) (Run_start (length topics))"
  by (auto simp: life_inv_def boot_def Run_start_def new_task_def)

lemma conns_nth: "conns s' = conns s \<Longrightarrow> i < length (p_subs s) \<Longrightarrow> t_conn (p_subs s' ! i) = t_conn (p_subs s ! i)"
  by (metis length_map nth_map)

lemma life_stream:
  assumes "life_inv s g" "stream_choice ch = Some i" "i < length (g_subs g)" "\<not> g_subs g ! i" "run_choice d ch s = Some s'"
  shows "life_inv s' g"
  using assms(1,4) stream_frame [OF assms(2,5)] unfolding life_inv_def by metis

lemma life_fanin:
  assumes "life_inv s g" "fanin_choice ch" "run_choice d ch s = Some s'"
  shows "life_inv s' g"
  using assms(1) fanin_frame [OF assms(2,3)] conns_nth [OF fanin_frame(1) [OF assms(2,3)]] unfolding life_inv_def by metis

lemma life_worker:
  assumes "life_inv s g" "worker_choice ch" "run_choice d ch s = Some s'"
  shows "life_inv s' g"
proof -
  obtain j k where j: "j < length (p_workers s)" "p_workers s ! j \<noteq> Exited" "p_workers s' = (p_workers s)[j := k]"
    and same: "conns s' = conns s" "fans s' = fans s" "length (p_subs s') = length (p_subs s)"
      "p_pending s' = p_pending s" "p_canceled s' = p_canceled s"
    using assms(2,3) by (rule worker_frame)
  have "g_pool g = PoolRunning" using assms(1) j(1,2) nth_mem unfolding life_inv_def by blast
  then show ?thesis using assms(1) same conns_nth [OF same(1)] unfolding life_inv_def by metis
qed

lemma life_set_worker:
  assumes "life_inv s g" "j < length (p_workers s)" "p_workers s ! j \<noteq> Exited"
  shows "life_inv (set_worker j k s) g"
proof -
  have "g_pool g = PoolRunning" using assms nth_mem unfolding life_inv_def by blast
  then show ?thesis using assms(1) by (simp add: life_inv_def)
qed

lemma life_fanin_leaves:
  assumes "life_inv s g" "i < length (p_subs s)" "p_canceled s"
  shows "life_inv (set_task i ((p_subs s ! i)\<lparr>t_fanin := FanExited\<rparr>) s) g"
proof -
  let ?t = "(p_subs s ! i)\<lparr>t_fanin := FanExited\<rparr>"
  have "set (fans (set_task i ?t s)) \<subseteq> {FanExited}" if "set (fans s) \<subseteq> {FanExited}"
    using that set_update_subset_insert [of "fans s" i FanExited] by (simp add: map_update) blast
  moreover have "conns (set_task i ?t s) = conns s" by (simp add: map_update_same)
  ultimately show ?thesis
    using assms(1,3) conns_nth [of "set_task i ?t s" s] unfolding life_inv_def by simp
qed

lemma life_step: "app_step d s g s' g' \<Longrightarrow> life_inv s g \<Longrightarrow> life_inv s' g'"
proof (induction rule: app_step.induct)
  case (stream ch i g s s')
  then show ?case using life_stream by blast
next
  case (fanin ch s s' g)
  then show ?case using life_fanin by blast
next
  case (fanin_leaves i s t g e)
  then have "p_canceled s" by (auto simp: life_inv_def)
  with fanin_leaves show ?case using life_fanin_leaves by simp
next
  case (worker ch s s' g)
  then show ?case using life_worker by blast
next
  case (worker_stops j s e payload g)
  show ?case using worker_stops.hyps(3) by (intro life_set_worker [OF worker_stops.prems worker_stops.hyps(1)]) auto
next
  case (worker_leaves j s g)
  show ?case using worker_leaves.hyps(2) by (intro life_set_worker [OF worker_leaves.prems worker_leaves.hyps(1)]) simp
qed (auto simp: life_inv_def flush_start_def nth_list_update)

text \<open>
  A step of the application is a step of the pipeline, or changes nothing but the control state.
\<close>

lemma app_step_pipe:
  assumes "app_step d s g s' g'" "life_inv s g"
  shows "pipe_step d s s' \<or> s' = s"
  using assms
proof (induction rule: app_step.induct)
  case (fanin_leaves i s t g e)
  then have "p_canceled s" by (auto simp: life_inv_def)
  with fanin_leaves show ?case by (auto intro: pipe_step.fan_exit)
next
  case (worker_leaves j s g)
  then have "p_canceled s \<or> p_events s = [] \<and> (\<forall>t \<in> set (p_subs s). t_fanin t = FanExited)"
    by (auto simp: life_inv_def)
  with worker_leaves show ?case by (auto intro: pipe_step.worker_exit)
next
  case (tick g s order s')
  then show ?case by (auto simp: flush_start_def intro: pipe_step.flush_begins [OF _ prod.collapse [symmetric]])
next
  case (final_flush g s order s')
  then show ?case by (auto simp: flush_start_def intro: pipe_step.flush_begins [OF _ prod.collapse [symmetric]])
qed (auto intro: run_choice_sound pipe_step.backoff_canceled pipe_step.flush_saves pipe_step.flush_ends pipe_step.cancel)

lemma app_runs_life: "app_runs d topics batchSize n w0 s g \<Longrightarrow> life_inv s g"
  by (induction rule: app_runs.induct) (auto intro: life_start life_step)

lemma app_runs_service: "app_runs d topics batchSize n w0 s g \<Longrightarrow> service d topics batchSize n w0 s"
proof (induction rule: app_runs.induct)
  case (moved s g s' g')
  then show ?case using app_step_pipe app_runs_life service.step by metis
qed (rule service.start)

end
