(* ===== verification/App_Shutdown.thy ===== *)
theory App_Shutdown
  imports App_Run
begin

text \<open>
  What the end of \<open>Run\<close> guarantees: the final flush writes everything the workers finished, and a
  canceled application can always stop. Both are proved against the contract \<open>pipeline\<close>.
\<close>

section \<open>The cursors a flush still has to write\<close>

definition due :: "(string \<times> bytes option) list option \<Rightarrow> (string \<times> bytes option) list" where
  "due pd = (case pd of None \<Rightarrow> [] | Some xs \<Rightarrow> xs)"

lemma due_simps [simp]: "due None = []" "due (Some xs) = xs"
  by (simp_all add: due_def)

lemma snapshot_pending:
  "fst (snapshot c) topic = (if tc_dirty (cursor_of c topic) then Some (tc_replayID (cursor_of c topic)) else None)"
  by (simp add: snapshot_def cursor_of_def newTopicCursor_def split: option.split)

lemma snapshot_topics: "dom (c_topics (snd (snapshot c))) = dom (c_topics c)"
  by (auto simp: snapshot_def)

lemma flush_one_topics:
  "flush_one saveReplay topic rid (c, w, fe) = Some (c', w', fe') \<Longrightarrow> dom (c_topics c') = dom (c_topics c)"
  by (auto simp: flush_one_def markDirty_def split: prod.splits option.splits if_splits)

lemma flush_one_first: "flush_one saveReplay topic rid (c, w, fe) = Some (c', w', None) \<Longrightarrow> fe = None \<and> cursor_of c' = cursor_of c"
  by (auto simp: flush_one_def split: prod.splits option.splits if_splits)

text \<open>The committer's map stays finite, and a topic waiting to be written is in it.\<close>

definition topics_inv :: "('w, 'sch, 'v) pipe \<Rightarrow> bool" where
  "topics_inv s \<longleftrightarrow>
     finite (dom (c_topics (p_cursor s))) \<and> fst ` set (due (p_pending s)) \<subseteq> dom (c_topics (p_cursor s)) \<and>
     distinct (map fst (due (p_pending s)))"

lemma topics_inv_Done: "dom (c_topics (Done topic sq rid c)) = insert topic (dom (c_topics c))"
  by (simp add: Done_def Let_def)

lemma topics_inv_step: "pipe_step d s s' \<Longrightarrow> topics_inv s \<Longrightarrow> topics_inv s'"
proof (induction rule: pipe_step.induct)
  case (flush_begins s pending c' order)
  have "dom pending \<subseteq> dom (c_topics c')" "dom (c_topics c') = dom (c_topics (p_cursor s))"
    using snapshot_dom [of "p_cursor s"] snapshot_topics [of "p_cursor s"] flush_begins.hyps(2) by simp_all
  moreover have "fst ` set (map (\<lambda>topic. (topic, the (pending topic))) order) = set order"
    "map fst (map (\<lambda>topic. (topic, the (pending topic))) order) = order"
    by (simp_all add: image_image comp_def)
  ultimately show ?case using flush_begins by (simp add: topics_inv_def del: map_map set_map)
next
  case (flush_saves s topic rid rest fe c' w' fe')
  then show ?case using flush_one_topics [OF flush_saves.hyps(2)] by (simp add: topics_inv_def)
qed (auto simp: topics_inv_def topics_inv_Done)

lemma topics_inv_start: "topics_inv (boot topics batchSize n w)"
  by (simp add: topics_inv_def boot_def NewCommitter_def)

context pipeline
begin

text \<open>
  A clean cursor that no flush is writing is the stored one, or has not moved since the start; one
  that a flush is writing is written with its current value.
\<close>

definition commit_inv :: "(string \<Rightarrow> bytes option) \<Rightarrow> committer \<Rightarrow> (string \<times> bytes option) list option \<Rightarrow> 'w \<Rightarrow> bool" where
  "commit_inv B c pd w \<longleftrightarrow>
     (\<forall>topic \<in> set topics. \<not> tc_dirty (cursor_of c topic) \<longrightarrow>
        (\<forall>rid. (topic, rid) \<in> set (due pd) \<longrightarrow> rid = tc_replayID (cursor_of c topic)) \<and>
        (topic \<notin> fst ` set (due pd) \<longrightarrow>
           stored w topic = (if mark_of c topic = 1 then B topic else tc_replayID (cursor_of c topic))))"

lemma commit_same: "commit_inv B c pd w \<Longrightarrow> stored w' = stored w \<Longrightarrow> commit_inv B c pd w'"
  by (simp add: commit_inv_def)

lemma commit_Done: "commit_inv B c pd w \<Longrightarrow> commit_inv B (Done topic sq rid c) pd w"
  unfolding commit_inv_def cursor_of_Done using done_cursor_dirty [of sq rid "cursor_of c topic"] by auto

lemma commit_begins:
  assumes "commit_inv B c None w" "set order = dom (fst (snapshot c))"
  shows "commit_inv B (snd (snapshot c)) (Some (map (\<lambda>topic. (topic, the (fst (snapshot c) topic))) order)) w"
  using assms unfolding commit_inv_def
  by (auto simp: cursor_of_snapshot snapshot_pending image_iff split: if_splits)

lemma commit_saves:
  assumes C: "commit_inv B c (Some ((topic, rid) # rest)) w" and D: "topic \<notin> fst ` set rest"
    and m: "topic \<in> set topics \<Longrightarrow> mark_of c topic \<noteq> 1"
    and one: "flush_one (d_save d) topic rid (c, w, fe) = Some (c', w', fe')"
  shows "commit_inv B c' (Some rest) w'"
  using one
proof (cases rule: store.flush_one_cases)
  case ok
  then show ?thesis using C D m unfolding commit_inv_def by (auto simp: fun_upd_def)
next
  case err
  then show ?thesis using C D unfolding commit_inv_def by (auto simp: fun_upd_def)
qed

lemma pending_mark:
  assumes "inv B s" "p_pending s = Some xs" "(topic, rid) \<in> set xs" "topic \<in> set topics"
  shows "1 < mark_of (p_cursor s) topic"
proof -
  obtain l where l: "l \<in> set (lanes s)" "l_topic l = topic"
    by (rule lane_of_topic [OF run_inv_facts(3) [OF assms(1)] assms(4)])
  have "store_ok (B (l_topic l)) l (mark_of (p_cursor s) (l_topic l)) (p_pending s) (p_world s)"
    using assms(1) l(1) unfolding run_inv_def flush_inv_def by blast
  then obtain q where "0 < q" "q < mark_of (p_cursor s) topic"
    using assms(2,3) l(2) unfolding store_ok_def by blast
  then show ?thesis by linarith
qed

abbreviation committing :: "(string \<Rightarrow> bytes option) \<Rightarrow> ('w, 'sch, 'v) pipe \<Rightarrow> bool" where
  "committing B s \<equiv> commit_inv B (p_cursor s) (p_pending s) (p_world s)"

text \<open>
  A step outside a flush leaves the stored cursors and the pending writes alone, and \<open>Done\<close> is the
  only way it moves a cursor.
\<close>

lemma step_cursor:
  assumes "pipe_step d s s'" "inv B s"
  obtains (work) "quiet I stored fin (p_world s) (p_world s')" "p_pending s' = p_pending s"
      "p_cursor s' = p_cursor s \<or> (\<exists>topic sq rid. p_cursor s' = Done topic sq rid (p_cursor s))"
  | (begins) order where "p_pending s = None" "set order = dom (fst (snapshot (p_cursor s)))" "p_world s' = p_world s"
      "p_cursor s' = snd (snapshot (p_cursor s))"
      "p_pending s' = Some (map (\<lambda>topic. (topic, the (fst (snapshot (p_cursor s)) topic))) order)"
  | (saves) topic rid rest fe fe' where "p_pending s = Some ((topic, rid) # rest)" "p_pending s' = Some rest"
      "flush_one (d_save d) topic rid (p_cursor s, p_world s, fe) = Some (p_cursor s', p_world s', fe')"
  | (ends) "p_pending s = Some []" "p_pending s' = None" "p_cursor s' = p_cursor s" "p_world s' = p_world s"
  using assms(1)
proof (cases rule: pipe_step.cases)
  case (flush_begins pending c' order)
  then show thesis by (intro begins [of order]) simp_all
next
  case (flush_saves topic rid rest fe c' w' fe')
  then show thesis by (intro saves [of topic rid rest fe fe']) simp_all
next
  case flush_ends
  then show thesis by (intro ends) simp_all
qed (rule work; auto simp: App_ack_def simp del: runSender.simps
       intro: world_intros
       dest!: open_stream_quiet runSender_wake(1) get_law [OF _ run_inv_facts(1) [OF assms(2)]]
         handle_law [OF _ run_inv_facts(2) [OF assms(2)]])+

lemma commit_step:
  assumes step: "pipe_step d s s'" and inv: "inv B s" and T: "topics_inv s" and C: "committing B s"
  shows "committing B s'"
  using step inv
proof (cases rule: step_cursor)
  case work
  then have w: "stored (p_world s') = stored (p_world s)" by (simp add: quiet_def)
  show ?thesis using work(2,3) commit_same [OF C w] commit_Done [OF commit_same [OF C w]] by auto
next
  case (begins order)
  then show ?thesis using commit_begins [of B "p_cursor s" "p_world s" order] C by simp
next
  case (saves topic rid rest fe fe')
  have "topic \<notin> fst ` set rest" using T saves(1) by (simp add: topics_inv_def)
  moreover have "topic \<in> set topics \<Longrightarrow> mark_of (p_cursor s) topic \<noteq> 1"
    using pending_mark [OF inv saves(1), of topic rid] by simp
  ultimately show ?thesis using commit_saves [OF _ _ _ saves(3)] C saves(1,2) by simp
next
  case ends
  then show ?thesis using C by (simp add: commit_inv_def)
qed

section \<open>The final flush\<close>

text \<open>
  Once every worker has left, only a failed write makes a cursor dirty. So when the final flush
  has met no error, every cursor is clean, and no later flush has anything to write.
\<close>

definition final_inv :: "('w, 'sch, 'v) pipe \<Rightarrow> control \<Rightarrow> bool" where
  "final_inv s g \<longleftrightarrow>
     (g_pool g = PoolFlushing \<and> g_first g = None \<or> g_pool g = PoolReturned None \<longrightarrow>
        (\<forall>topic. \<not> tc_dirty (cursor_of (p_cursor s) topic))) \<and>
     (g_pool g = PoolReturned None \<longrightarrow> due (p_pending s) = [])"

lemma flush_start_clean:
  assumes "flush_start s order s'"
  shows "\<not> tc_dirty (cursor_of (p_cursor s') topic)"
    "(\<And>t. \<not> tc_dirty (cursor_of (p_cursor s) t)) \<Longrightarrow> due (p_pending s') = []"
  using assms by (auto simp: flush_start_def cursor_of_snapshot snapshot_pending dom_def)

lemma final_step:
  "app_step d s g s' g' \<Longrightarrow> life_inv s g \<Longrightarrow> final_inv s g \<Longrightarrow> final_inv s' g'"
proof (induction rule: app_step.induct)
  case (stream ch i g s s')
  then show ?case using stream_frame(4,6) [OF stream.hyps(1,4)] by (simp add: final_inv_def)
next
  case (fanin ch s s' g)
  then show ?case using fanin_frame(4,6) [OF fanin.hyps] by (simp add: final_inv_def)
next
  case (worker ch s s' g)
  obtain j where "j < length (p_workers s)" "p_workers s ! j \<noteq> Exited" using worker.hyps by (rule worker_frame)
  then have "g_pool g = PoolRunning" using worker.prems(1) nth_mem unfolding life_inv_def by blast
  then show ?case by (simp add: final_inv_def)
next
  case (tick g s order s')
  then show ?case using flush_start_clean [OF tick.hyps(2)] by (auto simp: final_inv_def)
next
  case (final_flush g s order s')
  then show ?case using flush_start_clean [OF final_flush.hyps(3)] by (simp add: final_inv_def)
next
  case (save s topic rid rest g c' w' fe)
  then show ?case using flush_one_first [of "d_save d" topic rid "p_cursor s" "p_world s" "g_first g" c' w']
    by (auto simp: final_inv_def)
qed (auto simp: final_inv_def)

lemma app_invariants:
  assumes "app_runs d topics batchSize n w0 s g" "I w0"
  shows "inv (stored w0) s" "topics_inv s" "committing (stored w0) s" "final_inv s g"
proof -
  have "inv (stored w0) s \<and> topics_inv s \<and> committing (stored w0) s \<and> final_inv s g"
    using assms(1)
  proof (induction rule: app_runs.induct)
    case started
    then show ?case
      using boot_inv [OF assms(2), of batchSize n] topics_inv_start [of topics batchSize n w0]
      by (simp add: commit_inv_def final_inv_def boot_def NewCommitter_def Run_start_def cursor_of_def newTopicCursor_def)
  next
    case (moved s g s' g')
    note life = app_runs_life [OF moved.hyps(1)]
    show ?case
      using app_step_pipe [OF moved.hyps(2) life] final_step [OF moved.hyps(2) life] moved.IH
        step_inv topics_inv_step commit_step by metis
  qed
  then show "inv (stored w0) s" "topics_inv s" "committing (stored w0) s" "final_inv s g" by simp_all
qed

lemma replayID_at:
  assumes inv: "inv B s" and l: "l \<in> set (lanes s)" and m: "1 < mark_of (p_cursor s) (l_topic l)"
  shows "tc_replayID (cursor_of (p_cursor s) (l_topic l)) = rid_at l (mark_of (p_cursor s) (l_topic l) - 1)"
proof -
  obtain H where R: "cursor_repr H (cursor_of (p_cursor s) (l_topic l))" and H: "hist_ok l H (p_world s)"
    using run_inv_facts(4) [OF inv] l unfolding work_inv_def committer_repr_def by blast
  have "mark_of (p_cursor s) (l_topic l) - 1 \<in> dom H" using R m by (simp add: cursor_repr_def repr_pre_def)
  then obtain rid where "H (mark_of (p_cursor s) (l_topic l) - 1) = Some rid" by blast
  then show ?thesis using R H m unfolding cursor_repr_def repr_pre_def hist_ok_def by (metis nat_neq_iff option.sel)
qed

lemma mark_is_gap: "inv B s \<Longrightarrow> tc_done (cursor_of (p_cursor s) topic) (tc_next (cursor_of (p_cursor s) topic)) = None"
  unfolding run_inv_def work_inv_def committer_repr_def cursor_repr_def repr_pre_def by auto

text \<open>The pool has returned and its flush met no error: every topic's stored cursor is at its mark.\<close>

lemma final_cursor:
  assumes run: "app_runs d topics batchSize n w0 s g" and I: "I w0" and P: "g_pool g = PoolReturned None"
    and T: "topic \<in> set topics" and k: "at_pos (d_log d topic) (stored w0 topic) k"
  shows "at_pos (d_log d topic) (stored (p_world s) topic) (k + (mark_of (p_cursor s) topic - 1))"
proof -
  note A = app_invariants [OF run I]
  have st: "stored (p_world s) topic =
      (if mark_of (p_cursor s) topic = 1 then stored w0 topic else tc_replayID (cursor_of (p_cursor s) topic))"
    using A(3,4) P T by (simp add: commit_inv_def final_inv_def)
  obtain l where l: "l \<in> set (lanes s)" "l_topic l = topic"
    by (rule lane_of_topic [OF run_inv_facts(3) [OF A(1)] T])
  have "0 < mark_of (p_cursor s) topic" using mark_bounds(1) [OF run_inv_facts(4) [OF A(1)] l(1)] l(2) by simp
  then consider "mark_of (p_cursor s) topic = 1" | "1 < mark_of (p_cursor s) topic" by linarith
  then show ?thesis
  proof cases
    case 1
    then show ?thesis using st k by simp
  next
    case 2
    then show ?thesis
      using st replayID_at [OF A(1) l(1)] lane_start(2) [OF A(1) l(1), of k "mark_of (p_cursor s) topic - 1"] k l(2)
      by simp
  qed
qed

lemma final_settled:
  assumes run: "app_runs d topics batchSize n w0 s g" and I: "I w0" and T: "topic \<in> set topics"
    and k: "at_pos (d_log d topic) (stored w0 topic) k" and i: "k \<le> i" "i < k + (mark_of (p_cursor s) topic - 1)"
  shows "settled (p_world s) (d_log d topic ! i)"
proof -
  note A = app_invariants [OF run I]
  obtain l where l: "l \<in> set (lanes s)" "l_topic l = topic"
    by (rule lane_of_topic [OF run_inv_facts(3) [OF A(1)] T])
  have m: "0 < Suc (i - k)" "Suc (i - k) < mark_of (p_cursor s) topic" using i by auto
  have "l_base l = k" using lane_start(1) [OF A(1) l(1), of k "Suc (i - k)"] k l(2) m by simp
  then show ?thesis
    using mark_bounds(3) [OF run_inv_facts(4) [OF A(1)] l(1), of "Suc (i - k)"] l(2) m i(1) by simp
qed

end

section \<open>Stopping\<close>

text \<open>
  How far a canceled application is from its end: first the pool's phase (a new flush may have any
  number of writes), then the work left to the goroutines.
\<close>

fun phase_left :: "pool_phase \<Rightarrow> nat" where
  "phase_left PoolRunning = 2"
| "phase_left PoolFlushing = 1"
| "phase_left (PoolReturned e) = 0"

fun fanin_left :: "fanin \<Rightarrow> nat" where
  "fanin_left FanWaiting = 2"
| "fanin_left (FanHolding e) = 1"
| "fanin_left FanExited = 0"

fun worker_left :: "'v worker \<Rightarrow> nat" where
  "worker_left (Fetching e) = 4"
| "worker_left (Handling e payload) = 3"
| "worker_left (FetchBackoff e) = 2"
| "worker_left (HandleBackoff e payload) = 2"
| "worker_left Idle = 1"
| "worker_left Exited = 0"

definition sub_left :: "bool \<Rightarrow> nat option \<Rightarrow> nat" where
  "sub_left returned conn = (if returned then 0 else if conn = None then 1 else 2)"

definition subs_left :: "('w, 'sch, 'v) pipe \<Rightarrow> control \<Rightarrow> nat" where
  "subs_left s g = (\<Sum>i < length (p_subs s). sub_left (g_subs g ! i) (t_conn (p_subs s ! i)))"

definition flush_left :: "(string \<times> bytes option) list option \<Rightarrow> nat" where
  "flush_left pd = (case pd of None \<Rightarrow> 0 | Some xs \<Rightarrow> Suc (length xs))"

definition work_left :: "('w, 'sch, 'v) pipe \<Rightarrow> control \<Rightarrow> nat" where
  "work_left s g =
     subs_left s g + sum_list (map fanin_left (fans s)) + sum_list (map worker_left (p_workers s)) +
     flush_left (p_pending s) + (if g_commit g then 0 else 1) + (if g_http g = None then 1 else 0)"

definition nearer :: "('w, 'sch, 'v) pipe \<Rightarrow> control \<Rightarrow> ('w, 'sch, 'v) pipe \<Rightarrow> control \<Rightarrow> bool" where
  "nearer s' g' s g \<longleftrightarrow>
     phase_left (g_pool g') < phase_left (g_pool g) \<or> g_pool g' = g_pool g \<and> work_left s' g' < work_left s g"

lemma sum_list_update_less:
  fixes f :: "'a \<Rightarrow> nat"
  assumes "i < length xs" "f x < f (xs ! i)"
  shows "sum_list (map f (xs[i := x])) < sum_list (map f xs)"
  using assms by (induction xs arbitrary: i) (auto split: nat.split)

lemma sum_at_less:
  fixes f h :: "nat \<Rightarrow> nat"
  assumes "i < n" "h i < f i" "\<And>k. k < n \<Longrightarrow> k \<noteq> i \<Longrightarrow> h k = f k"
  shows "sum h {..<n} < sum f {..<n}"
proof (rule sum_strict_mono_ex1)
  show "\<forall>k \<in> {..<n}. h k \<le> f k" using assms(2,3) by (metis lessThan_iff order_refl less_imp_le)
  show "\<exists>k \<in> {..<n}. h k < f k" using assms(1,2) by auto
qed simp

text \<open>One goroutine at a time: whoever has not finished can take a step that brings the end nearer.\<close>

lemma progress_sub:
  assumes L: "life_inv s g" and c: "p_canceled s" and i: "i < length (p_subs s)" "\<not> g_subs g ! i"
  shows "\<exists>s' g'. app_step d s g s' g' \<and> p_canceled s' \<and> nearer s' g' s g"
proof (cases "t_conn (p_subs s ! i)")
  case None
  let ?g = "g\<lparr>g_subs := (g_subs g)[i := True], g_results := g_results g @ [None]\<rparr>"
  have len: "i < length (g_subs g)" using L i by (simp add: life_inv_def)
  have "app_step d s g s ?g" using app_step.sub_returns [OF len i(2) None c] .
  moreover have "subs_left s ?g < subs_left s g"
    unfolding subs_left_def using i len None by (intro sum_at_less [of i]) (auto simp: sub_left_def)
  ultimately show ?thesis using c by (intro exI [of _ s] exI [of _ ?g]) (simp add: nearer_def work_left_def)
next
  case (Some pos)
  let ?s = "set_task i ((p_subs s ! i)\<lparr>t_conn := None\<rparr>) s
    \<lparr>p_world := stream_closed d (s_topic (t_sub (p_subs s ! i))) [] (p_canceled s) (p_world s)\<rparr>"
  have len: "i < length (g_subs g)" using L i by (simp add: life_inv_def)
  have "app_step d s g ?s g"
    by (rule app_step.stream [of "StreamEnds i []"]) (use i len Some in simp_all)
  moreover have "subs_left ?s g < subs_left s g"
    unfolding subs_left_def set_task_simps using i Some
    by (simp, intro sum_at_less [of i]) (auto simp: sub_left_def)
  moreover have "fans ?s = fans s" by (simp add: map_update_same)
  ultimately show ?thesis using c by (intro exI [of _ ?s] exI [of _ g]) (simp add: nearer_def work_left_def)
qed

lemma nearer_task:
  assumes "i < length (p_subs s)" "t_conn t = t_conn (p_subs s ! i)" "fanin_left (t_fanin t) < fanin_left (t_fanin (p_subs s ! i))"
  shows "nearer (set_task i t s) g s g"
proof -
  have "subs_left (set_task i t s) g = subs_left s g"
    using assms(1,2) by (auto simp: subs_left_def nth_list_update intro!: sum.cong)
  moreover have "sum_list (map fanin_left (fans (set_task i t s))) < sum_list (map fanin_left (fans s))"
    using sum_list_update_less [of i "p_subs s" "\<lambda>t. fanin_left (t_fanin t)" t] assms(1,3) by (simp add: comp_def)
  ultimately show ?thesis by (simp add: nearer_def work_left_def)
qed

lemma progress_fanin:
  assumes c: "p_canceled s" and i: "i < length (p_subs s)" "g_subs g ! i" "t_fanin (p_subs s ! i) \<noteq> FanExited"
  shows "\<exists>s' g'. app_step d s g s' g' \<and> p_canceled s' \<and> nearer s' g' s g"
proof -
  let ?t = "p_subs s ! i"
  let ?out = "set_task i (?t\<lparr>t_fanin := FanExited\<rparr>) s"
  have leaves: ?thesis if "app_step d s g ?out g"
    using that c i nearer_task [of i s "?t\<lparr>t_fanin := FanExited\<rparr>" g] by (cases "t_fanin ?t") (fastforce simp: set_task_def)+
  show ?thesis
  proof (cases "t_fanin ?t")
    case FanWaiting
    show ?thesis
    proof (cases "s_out (t_sub ?t)")
      case Nil
      then show ?thesis using i FanWaiting by (intro leaves app_step.fanin_leaves) simp_all
    next
      case (Cons e es)
      let ?s = "set_task i (?t\<lparr>t_fanin := FanHolding e, t_sub := (t_sub ?t)\<lparr>s_out := es\<rparr>\<rparr>) s"
      have "app_step d s g ?s g" by (rule app_step.fanin [of "FanTake i"]) (use i FanWaiting Cons in simp_all)
      moreover have "nearer ?s g s g" using i FanWaiting by (intro nearer_task) simp_all
      ultimately show ?thesis using c by (intro exI [of _ ?s] exI [of _ g]) simp
    qed
  next
    case (FanHolding e)
    then show ?thesis using i c by (intro leaves app_step.fanin_leaves [of _ _ _ _ e]) simp_all
  qed (use i in simp)
qed

lemma nearer_worker:
  assumes "j < length (p_workers s)" "p_workers s' = (p_workers s)[j := k]" "worker_left k < worker_left (p_workers s ! j)"
    and "conns s' = conns s" "fans s' = fans s" "length (p_subs s') = length (p_subs s)" "p_pending s' = p_pending s"
  shows "nearer s' g s g"
proof -
  have "subs_left s' g = subs_left s g"
    using assms(4,6) conns_nth [OF assms(4)] by (simp add: subs_left_def)
  moreover have "sum_list (map worker_left (p_workers s')) < sum_list (map worker_left (p_workers s))"
    using sum_list_update_less [OF assms(1,3)] assms(2) by simp
  ultimately show ?thesis using assms(5,7) by (simp add: nearer_def work_left_def)
qed

lemma progress_fetch:
  assumes c: "p_canceled s" and j: "j < length (p_workers s)" and F: "p_workers s ! j = Fetching e"
  shows "\<exists>s'. run_choice d (SchemaStage j) s = Some s' \<and> p_canceled s' \<and> nearer s' g s g"
proof -
  obtain r c' w' where get: "d_get d (raw_schema e) (p_cache s, p_world s) = (r, (c', w'))" by (metis prod_cases3)
  show ?thesis
  proof (cases r)
    case (Inl err)
    then show ?thesis
      using F get c j by (intro exI [of _ "set_worker j Idle s\<lparr>p_cache := c', p_world := w'\<rparr>"])
        (auto intro!: nearer_worker [of j _ _ Idle])
  next
    case (Inr sch)
    show ?thesis
    proof (cases "Decode (d_unmarshal d) (Some sch) (raw_payload e)")
      case (Inl err)
      let ?s = "App_ack e (set_worker j Idle s\<lparr>p_cache := c', p_world := d_meter d (Inc ''events_failed_total'' [''decode'']) w'\<rparr>)"
      have "run_choice d (SchemaStage j) s = Some ?s" using F get Inr Inl j by simp
      moreover have "nearer ?s g s g" using F j by (intro nearer_worker [of j _ _ Idle]) simp_all
      ultimately show ?thesis using c by (intro exI [of _ ?s]) simp
    next
      case (Inr payload')
      let ?s = "set_worker j (Handling e payload') s\<lparr>p_cache := c', p_world := w'\<rparr>"
      have "run_choice d (SchemaStage j) s = Some ?s" using F get \<open>r = Inr sch\<close> Inr j by simp
      moreover have "nearer ?s g s g" using F j by (intro nearer_worker [of j _ _ "Handling e payload'"]) simp_all
      ultimately show ?thesis using c by (intro exI [of _ ?s]) simp
    qed
  qed
qed

lemma progress_handle:
  assumes c: "p_canceled s" and j: "j < length (p_workers s)" and H: "p_workers s ! j = Handling e payload"
  shows "\<exists>s'. run_choice d (HandlerStage j) s = Some s' \<and> p_canceled s' \<and> nearer s' g s g"
proof -
  obtain r w' where run: "d_handle d (decoded_event e payload) (p_world s) = (r, w')" by fastforce
  let ?w = "d_meter d (Observe ''processing_latency_seconds'' []) (d_meter d (Inc ''events_processed_total'' []) w')"
  let ?s = "case r of None \<Rightarrow> App_ack e (set_worker j Idle s\<lparr>p_world := ?w\<rparr>) | Some err \<Rightarrow> set_worker j Idle s\<lparr>p_world := w'\<rparr>"
  have "run_choice d (HandlerStage j) s = Some ?s" using H run c j by (auto split: option.split)
  moreover have "nearer ?s g s g" using H j by (cases r) (auto intro!: nearer_worker [of j _ _ Idle])
  moreover have "p_canceled ?s" using c by (cases r) simp_all
  ultimately show ?thesis by (intro exI [of _ ?s] conjI)
qed

lemma progress_stage:
  assumes "p_canceled s" "j < length (p_workers s)"
    and "p_workers s ! j = Fetching e \<or> p_workers s ! j = Handling e payload"
  shows "\<exists>s'. (run_choice d (SchemaStage j) s = Some s' \<or> run_choice d (HandlerStage j) s = Some s') \<and>
    p_canceled s' \<and> nearer s' g s g"
  using assms(3) progress_fetch [OF assms(1,2), of e d g] progress_handle [OF assms(1,2), of e payload d g] by blast

lemma progress_worker:
  assumes c: "p_canceled s" and j: "j < length (p_workers s)" "p_workers s ! j \<noteq> Exited"
  shows "\<exists>s' g'. app_step d s g s' g' \<and> p_canceled s' \<and> nearer s' g' s g"
proof -
  have stage: ?thesis if "p_workers s ! j = Fetching e \<or> p_workers s ! j = Handling e payload" for e payload
    using progress_stage [OF c j(1) that, of d g]
      app_step.worker [of "SchemaStage j" d s _ g] app_step.worker [of "HandlerStage j" d s _ g] by fastforce
  have near: "nearer (set_worker j k s) g s g" if "worker_left k < worker_left (p_workers s ! j)" for k
    using that j by (intro nearer_worker [of j _ _ k]) simp_all
  show ?thesis
  proof (cases "p_workers s ! j")
    case Idle
    then show ?thesis using near [of Exited] app_step.worker_leaves [of j s g d] c j by fastforce
  next
    case (FetchBackoff e)
    then show ?thesis using near [of Idle] app_step.worker_stops [of j s e _ d g] c j by fastforce
  next
    case (HandleBackoff e payload)
    then show ?thesis using near [of Idle] app_step.worker_stops [of j s e payload d g] c j by fastforce
  qed (use stage j in blast)+
qed

lemma progress_flush:
  assumes T: "topics_inv s" and c: "p_canceled s" and pd: "p_pending s = Some xs"
  shows "\<exists>s' g'. app_step d s g s' g' \<and> p_canceled s' \<and> nearer s' g' s g"
proof (cases xs)
  case Nil
  let ?s = "s\<lparr>p_pending := None\<rparr>"
  show ?thesis
  proof (cases "g_pool g = PoolFlushing")
    case True
    let ?g = "g\<lparr>g_pool := PoolReturned (g_first g), g_results := g_results g @ [None]\<rparr>"
    have "app_step d s g ?s ?g" using True pd Nil by (intro app_step.pool_returns) simp_all
    then show ?thesis using True c by (intro exI [of _ ?s] exI [of _ ?g]) (simp add: nearer_def)
  next
    case False
    then have "app_step d s g ?s g" using pd Nil by (intro app_step.tick_ends) simp_all
    then show ?thesis
      using c pd by (intro exI [of _ ?s] exI [of _ g]) (simp add: nearer_def work_left_def subs_left_def flush_left_def)
  qed
next
  case (Cons x rest)
  obtain topic rid where x: "x = (topic, rid)" by fastforce
  have "c_topics (p_cursor s) topic \<noteq> None" using T pd Cons x by (auto simp: topics_inv_def)
  from flush_one_total [OF this, of "d_save d" rid "p_world s" "g_first g"] obtain c' w' fe
    where "flush_one (d_save d) topic rid (p_cursor s, p_world s, g_first g) = Some (c', w', fe)"
    by blast
  then have "app_step d s g (s\<lparr>p_cursor := c', p_world := w', p_pending := Some rest\<rparr>) (g\<lparr>g_first := fe\<rparr>)"
    using pd Cons x by (intro app_step.save) simp_all
  then show ?thesis
    using c pd Cons
    by (intro exI [of _ "s\<lparr>p_cursor := c', p_world := w', p_pending := Some rest\<rparr>"] exI [of _ "g\<lparr>g_first := fe\<rparr>"])
       (simp add: nearer_def work_left_def subs_left_def flush_left_def)
qed

lemma progress_pool:
  assumes T: "topics_inv s" and c: "p_canceled s" and W: "set (p_workers s) \<subseteq> {Exited}" and pd: "p_pending s = None"
    and P: "g_pool g = PoolRunning"
  shows "\<exists>s' g'. app_step d s g s' g' \<and> p_canceled s' \<and> nearer s' g' s g"
proof -
  have "finite (dom (c_topics (snd (snapshot (p_cursor s)))))" using T by (simp add: topics_inv_def snapshot_topics)
  then have "finite (dom (fst (snapshot (p_cursor s))))" by (rule finite_subset [OF snapshot_dom])
  from finite_distinct_list [OF this]
  obtain order where order: "set order = dom (fst (snapshot (p_cursor s)))" "distinct order" by (elim exE conjE)
  define s' where "s' = s\<lparr>p_cursor := snd (snapshot (p_cursor s)),
    p_pending := Some (map (\<lambda>topic. (topic, the (fst (snapshot (p_cursor s)) topic))) order)\<rparr>"
  have "flush_start s order s'" using order pd by (simp add: flush_start_def s'_def)
  then have "app_step d s g s' (g\<lparr>g_pool := PoolFlushing, g_first := None\<rparr>)"
    using W P by (intro app_step.final_flush) auto
  then show ?thesis
    using c P by (intro exI [of _ s'] exI [of _ "g\<lparr>g_pool := PoolFlushing, g_first := None\<rparr>"]) (simp add: nearer_def s'_def)
qed

lemma progress_rest:
  assumes c: "p_canceled s" and pd: "p_pending s = None" and "\<not> g_commit g \<or> g_http g = None"
  shows "\<exists>s' g'. app_step d s g s' g' \<and> p_canceled s' \<and> nearer s' g' s g"
  using assms(3)
proof
  let ?g = "g\<lparr>g_commit := True, g_results := g_results g @ [None]\<rparr>"
  assume "\<not> g_commit g"
  then have "app_step d s g s ?g" using c pd by (intro app_step.commit_returns) simp_all
  then show ?thesis
    using \<open>\<not> g_commit g\<close> c by (intro exI [of _ s] exI [of _ ?g]) (simp add: nearer_def work_left_def subs_left_def)
next
  let ?s = "s\<lparr>p_canceled := True\<rparr>" and ?g = "g\<lparr>g_http := Some None, g_results := g_results g @ [None]\<rparr>"
  assume "g_http g = None"
  then have "app_step d s g ?s ?g" using c by (intro app_step.http_returns) simp_all
  then show ?thesis
    using \<open>g_http g = None\<close> by (intro exI [of _ ?s] exI [of _ ?g]) (simp add: nearer_def work_left_def subs_left_def)
qed

lemma progress:
  assumes L: "life_inv s g" and T: "topics_inv s" and c: "p_canceled s" and "\<not> Run_stopped g"
  shows "\<exists>s' g'. app_step d s g s' g' \<and> p_canceled s' \<and> nearer s' g' s g"
proof -
  have len: "length (g_subs g) = length (p_subs s)" using L by (simp add: life_inv_def)
  consider (sub) i where "i < length (p_subs s)" "\<not> g_subs g ! i"
    | (worker) j where "j < length (p_workers s)" "p_workers s ! j \<noteq> Exited"
    | (flush) xs where "p_pending s = Some xs"
    | (pool) "set (p_workers s) \<subseteq> {Exited}" "p_pending s = None" "g_pool g = PoolRunning"
    | (rest) "p_pending s = None" "\<not> g_commit g \<or> g_http g = None"
    using assms(4) L len unfolding Run_stopped_def life_inv_def
    by (metis in_set_conv_nth insert_iff option.exhaust singletonD subsetI)
  then show ?thesis
    by cases (use progress_sub [OF L c] progress_worker [OF c] progress_flush [OF T c] progress_pool [OF T c]
      progress_rest [OF c] in blast)+
qed

definition app_reach ::
  "('w, 'sch, 'v) deps \<Rightarrow> ('w, 'sch, 'v) pipe \<times> control \<Rightarrow> ('w, 'sch, 'v) pipe \<times> control \<Rightarrow> bool" where
  "app_reach d = rtranclp (\<lambda>(s, g) (s', g'). app_step d s g s' g')"

lemma app_reach_step: "app_step d s g s' g' \<Longrightarrow> app_reach d (s', g') z \<Longrightarrow> app_reach d (s, g) z"
  unfolding app_reach_def by (rule converse_rtranclp_into_rtranclp) auto

lemma can_stop:
  assumes "life_inv s g" "topics_inv s" "p_canceled s"
  shows "\<exists>s' g'. app_reach d (s, g) (s', g') \<and> Run_stopped g'"
  using assms
proof (induction "(phase_left (g_pool g), work_left s g)" arbitrary: s g rule: wf_induct_rule [OF wf_lex_prod [OF wf_less wf_less]])
  case 1
  show ?case
  proof (cases "Run_stopped g")
    case True
    then show ?thesis unfolding app_reach_def by blast
  next
    case False
    then obtain s1 g1 where s1: "app_step d s g s1 g1" "p_canceled s1" "nearer s1 g1 s g"
      using progress 1 by blast
    have "topics_inv s1" using app_step_pipe [OF s1(1)] topics_inv_step 1 by blast
    moreover have "((phase_left (g_pool g1), work_left s1 g1), (phase_left (g_pool g), work_left s g)) \<in>
        {(x, y). x < y} <*lex*> {(x, y). x < y}"
      using s1(3) by (auto simp: nearer_def)
    ultimately obtain s' g' where "app_reach d (s1, g1) (s', g')" "Run_stopped g'"
      using "1.hyps" [OF _ life_step [OF s1(1)]] 1 s1(2) by blast
    then show ?thesis using app_reach_step [OF s1(1)] by blast
  qed
qed

lemma app_reach_runs:
  assumes "app_reach d (s, g) (s', g')" "app_runs d topics batchSize n w0 s g"
  shows "app_runs d topics batchSize n w0 s' g'"
  using assms unfolding app_reach_def
  by (induction "(s', g')" arbitrary: s' g' rule: rtranclp_induct) (auto intro: app_runs.moved)

lemma app_runs_topics: "app_runs d topics batchSize n w0 s g \<Longrightarrow> topics_inv s"
proof (induction rule: app_runs.induct)
  case (moved s g s' g')
  then show ?case using app_step_pipe [OF moved.hyps(2) app_runs_life [OF moved.hyps(1)]] topics_inv_step by blast
qed (rule topics_inv_start)

section \<open>What a step does to the channels\<close>

text \<open>What is left of a channel when a step may have taken its first element but has added none.\<close>

definition drained :: "'a list \<Rightarrow> 'a list \<Rightarrow> bool" where
  "drained xs ys \<longleftrightarrow> ys = xs \<or> (\<exists>x. xs = x # ys)"

lemma drained_refl [simp]: "drained xs xs"
  by (simp add: drained_def)

lemma drained_Cons [simp]: "drained (x # xs) xs"
  by (simp add: drained_def)

abbreviation outs :: "('w, 'sch, 'v) pipe \<Rightarrow> RawEvent list list" where
  "outs s \<equiv> map (\<lambda>t. s_out (t_sub t)) (p_subs s)"

lemma ack_first_outs [simp]: "map (\<lambda>t. s_out (t_sub t)) (ack_first topic ts) = map (\<lambda>t. s_out (t_sub t)) ts"
  by (induction ts) auto

lemma stream_channels:
  assumes "stream_choice ch = Some i" "run_choice d ch s = Some s'"
  shows "p_events s' = p_events s" "k \<noteq> i \<Longrightarrow> p_subs s' ! k = p_subs s ! k"
  using assms
  by (cases ch; auto simp: Let_def simp del: runSender.simps server_start.simps
        split: result_splits if_splits)+

lemma fanin_channels:
  assumes "fanin_choice ch" "run_choice d ch s = Some s'" "k < length (p_subs s)"
  shows "drained (s_out (t_sub (p_subs s ! k))) (s_out (t_sub (p_subs s' ! k)))"
  using assms
  by (cases ch) (auto simp: nth_list_update split: if_splits list.splits fanin.splits)

lemma worker_channels:
  assumes "worker_choice ch" "run_choice d ch s = Some s'"
  shows "drained (p_events s) (p_events s')" "outs s' = outs s"
  using assms
  by (cases ch; auto simp: App_ack_def split: result_splits if_splits worker.splits list.splits)+

lemma outs_nth: "outs s' = outs s \<Longrightarrow> k < length (p_subs s) \<Longrightarrow> s_out (t_sub (p_subs s' ! k)) = s_out (t_sub (p_subs s ! k))"
  by (metis (mono_tags, lifting) length_map nth_map)

lemma closed_events:
  "app_step d s g s' g' \<Longrightarrow> life_inv s g \<Longrightarrow> g_closed g \<Longrightarrow> drained (p_events s) (p_events s')"
proof (induction rule: app_step.induct)
  case (stream ch i g s s')
  then show ?case using stream_channels(1) [OF stream.hyps(1,4)] by simp
next
  case (fanin ch s s' g)
  then show ?case using fanin_frame(7) [OF fanin.hyps] by (simp add: life_inv_def)
next
  case (worker ch s s' g)
  then show ?case using worker_channels(1) by blast
qed (auto simp: flush_start_def)

lemma closed_out:
  assumes "app_step d s g s' g'" "k < length (p_subs s)" "g_subs g ! k"
  shows "drained (s_out (t_sub (p_subs s ! k))) (s_out (t_sub (p_subs s' ! k)))"
  using assms
proof (induction rule: app_step.induct)
  case (stream ch i g s s')
  then show ?case using stream_channels(2) [OF stream.hyps(1,4), of k] by (cases "k = i") simp_all
next
  case (fanin ch s s' g)
  then show ?case using fanin_channels by blast
next
  case (worker ch s s' g)
  then show ?case using outs_nth [OF worker_channels(2) [OF worker.hyps]] by simp
next
  case (fanin_leaves i s t g e)
  then show ?case by (simp add: nth_list_update)
qed (auto simp: flush_start_def)

section \<open>What \<open>Run\<close> returns\<close>

definition results_inv :: "control \<Rightarrow> bool" where
  "results_inv g \<longleftrightarrow>
     (case g_http g of
        None \<Rightarrow> set (g_results g) \<subseteq> {None}
      | Some e \<Rightarrow> set (g_results g) \<subseteq> {None, e} \<and> e \<in> set (g_results g))"

lemma results_step: "app_step d s g s' g' \<Longrightarrow> results_inv g \<Longrightarrow> results_inv g'"
  by (induction rule: app_step.induct) (auto simp: results_inv_def split: option.splits)

lemma app_runs_results: "app_runs d topics batchSize n w0 s g \<Longrightarrow> results_inv g"
proof (induction rule: app_runs.induct)
  case started
  then show ?case by (simp add: results_inv_def Run_start_def)
next
  case (moved s g s' g')
  then show ?case using results_step by blast
qed

section \<open>A run that stops\<close>

text \<open>Choices that no lifetime forbids are steps of the application.\<close>

lemma app_choices:
  assumes "app_runs d topics batchSize n w0 s g" "run_choices d chs s = Some s'" "Cancel \<notin> set chs"
    "\<forall>ch \<in> set chs. \<forall>i. stream_choice ch = Some i \<longrightarrow> i < length (g_subs g) \<and> \<not> g_subs g ! i"
  shows "app_runs d topics batchSize n w0 s' g"
  using assms
proof (induction chs arbitrary: s)
  case (Cons ch chs)
  then obtain s1 where s1: "run_choice d ch s = Some s1" "run_choices d chs s1 = Some s'"
    by (auto split: option.splits)
  have "app_step d s g s1 g"
    using Cons.prems(3,4) s1(1) app_step.stream [of ch _ g d s s1] app_step.fanin [of ch d s s1 g] app_step.worker [of ch d s s1 g]
    by (cases ch) (auto simp del: run_choice.simps)
  from Cons.IH [OF app_runs.moved [OF Cons.prems(1) this] s1(2)] Cons.prems(3,4) show ?case by simp
qed simp

definition stop_choices :: "choice list" where
  "stop_choices = [Connect 0 1 [], Receive 0 0, FanTake 0, FanPush 0, WorkerTake 0, SchemaStage 0, HandlerStage 0]"

lemma stop_choices_run:
  "\<exists>s. run_choices demo_deps stop_choices (boot [''/event/A''] 100 1 demo_env) = Some s \<and>
     p_workers s = [Idle] \<and> p_pending s = None \<and>
     p_cursor s = Done ''/event/A'' 1 (Some [2]) NewCommitter \<and> ev_script (p_world s) = []"
  by (simp add: stop_choices_def boot_def new_task_def NewSubscriber_def demo_env_def demo_simps open_stream_def
    initialFetch_def Let_def emit_def next_raw_def subscriberOutBuffer_def Cache_Get_def fetch_schema_def NewCache_def
    Decode_def root_handler_def persist_stage_def Chain_Handle_def demo_config_def decoded_event_def
    PersistHandler_Handle_def App_ack_def clampToInt32_def maxInt32_def numeral_2_eq_2)

text \<open>The flush of the one finished event.\<close>

abbreviation demo_cursor :: committer where
  "demo_cursor \<equiv> Done ''/event/A'' 1 (Some [2]) NewCommitter"

abbreviation demo_flushing :: "('w, 'sch, 'v) pipe \<Rightarrow> ('w, 'sch, 'v) pipe" where
  "demo_flushing s \<equiv> s\<lparr>p_cursor := snd (snapshot demo_cursor), p_pending := Some [(''/event/A'', Some [2])]\<rparr>"

lemma demo_flush_start:
  assumes "p_pending s = None" "p_cursor s = demo_cursor"
  shows "flush_start s [''/event/A''] (demo_flushing s)"
proof -
  have "fst (snapshot demo_cursor) = [''/event/A'' \<mapsto> Some [2]]" by (auto simp: snapshot_def demo_done)
  then show ?thesis using assms by (simp add: flush_start_def)
qed

lemma demo_flush_one:
  assumes "ev_script w = []"
  obtains c w' where
    "flush_one (SaveReplay env_upsert_replay) ''/event/A'' (Some [2]) (snd (snapshot demo_cursor), w, None) = Some (c, w', None)"
    "tc_next (cursor_of c ''/event/A'') = 2" "sv_replay (ev_view w') ''/event/A'' = Some [2]"
  using assms by (auto simp: flush_one_def demo_simps snapshot_def demo_done cursor_of_def)

lemma demo_stop:
  "\<exists>s g. app_runs demo_deps [''/event/A''] 100 1 demo_env s g \<and> g_pool g = PoolReturned None \<and>
     tc_next (cursor_of (p_cursor s) ''/event/A'') = 2"
proof -
  let ?g = "Run_start 1"
  let ?runs = "app_runs demo_deps [''/event/A''] 100 1 demo_env"
  obtain s where s: "run_choices demo_deps stop_choices (boot [''/event/A''] 100 1 demo_env) = Some s"
      "p_workers s = [Idle]" "p_pending s = None" "p_cursor s = demo_cursor" "ev_script (p_world s) = []"
    using stop_choices_run by blast
  have "?runs s ?g"
    using app_choices [OF app_runs.started s(1)] by (simp add: stop_choices_def Run_start_def)
  note app_runs.moved [OF this app_step.cancel]
  note left = app_runs.moved [OF this app_step.worker_leaves [of 0]]
  let ?s1 = "set_worker 0 Exited (s\<lparr>p_canceled := True\<rparr>)"
  let ?s2 = "demo_flushing ?s1"
  have "flush_start ?s1 [''/event/A''] ?s2" using s(3,4) by (intro demo_flush_start) simp_all
  from app_step.final_flush [OF _ _ this, of ?g demo_deps]
  have "?runs ?s2 (?g\<lparr>g_pool := PoolFlushing, g_first := None\<rparr>)"
    using app_runs.moved [OF left] s(2) by (simp add: Run_start_def)
  note flushing = this
  obtain c w where one: "flush_one (SaveReplay env_upsert_replay) ''/event/A'' (Some [2]) (snd (snapshot demo_cursor), p_world s, None) = Some (c, w, None)"
    and mark: "tc_next (cursor_of c ''/event/A'') = 2" by (rule demo_flush_one [OF s(5)])
  let ?s3 = "?s2\<lparr>p_cursor := c, p_world := w, p_pending := Some []\<rparr>"
  have "?runs ?s3 (?g\<lparr>g_pool := PoolFlushing, g_first := None\<rparr>)"
    using app_runs.moved [OF flushing app_step.save [of _ "''/event/A''" "Some [2]" "[]" demo_deps _ c w None]] one
    by (simp add: Run_start_def)
  note app_runs.moved [OF this app_step.pool_returns]
  then have "?runs (?s3\<lparr>p_pending := None\<rparr>) (?g\<lparr>g_pool := PoolReturned None, g_first := None, g_results := [None]\<rparr>)"
    by (simp add: Run_start_def)
  then show ?thesis
    by (rule_tac exI, rule_tac exI, rule_tac conjI) (assumption, simp add: mark)
qed

section \<open>Properties\<close>

text \<open>
  C8. A canceled application can always stop: from every state a history of \<open>Run\<close> can reach after the
  cancellation, whatever is in flight and whatever the services answer, there is a schedule after
  which \<open>g.Wait\<close> returns, and by then every worker has left.
\<close>

theorem canceled_app_can_stop:
  assumes "app_runs d topics batchSize n w0 s g" "p_canceled s"
  shows "\<exists>s' g'. app_reach d (s, g) (s', g') \<and> Run_stopped g' \<and> set (p_workers s') \<subseteq> {Exited}"
proof -
  obtain s' g' where r: "app_reach d (s, g) (s', g')" "Run_stopped g'"
    using can_stop [OF app_runs_life [OF assms(1)] app_runs_topics [OF assms(1)] assms(2)] by blast
  note life = app_runs_life [OF app_reach_runs [OF r(1) assms(1)]]
  have "set (p_workers s') \<subseteq> {Exited}" using life r(2) unfolding life_inv_def Run_stopped_def by blast
  with r show ?thesis by blast
qed

theorem canceled_app_can_stop_witness:
  "\<exists>s g s' g'. app_runs demo_deps [''/event/A''] 100 1 demo_env s g \<and> p_workers s = [Idle] \<and>
     app_reach demo_deps (s, g) (s', g') \<and> Run_stopped g' \<and> set (p_workers s') \<subseteq> {Exited}"
proof -
  let ?s = "boot [''/event/A''] 100 1 demo_env :: (env, string, bytes) pipe"
  have run: "app_runs demo_deps [''/event/A''] 100 1 demo_env (?s\<lparr>p_canceled := True\<rparr>) (Run_start (length [''/event/A'']))"
    by (rule app_runs.moved [OF app_runs.started app_step.cancel])
  have idle: "p_workers (?s\<lparr>p_canceled := True\<rparr>) = [Idle]" by (simp add: boot_def)
  have "p_canceled (?s\<lparr>p_canceled := True\<rparr>)" by simp
  from canceled_app_can_stop [OF run this] obtain s' g' where
    "app_reach demo_deps (?s\<lparr>p_canceled := True\<rparr>, Run_start (length [''/event/A''])) (s', g')" "Run_stopped g'"
    "set (p_workers s') \<subseteq> {Exited}"
    by (elim exE conjE)
  with run idle show ?thesis by (intro exI conjI)
qed

text \<open>
  C36. Whatever the order in which the goroutines of the group end, once the HTTP server has returned
  \<open>Run\<close>'s result is fixed: the server's error, and nil when there is none or it is a cancellation.
  No failure of a subscriber, the committer or the workers ends the application.
\<close>

theorem run_returns_http_error:
  assumes "app_runs d topics batchSize n w0 s g" "g_http g = Some e"
  shows "Run_result (g_results g) =
    (case e of None \<Rightarrow> None | Some err \<Rightarrow> if errors_Is err ContextCanceled then None else Some err)"
proof -
  have "set (g_results g) \<subseteq> {None, e}" "e \<in> set (g_results g)"
    using app_runs_results [OF assms(1)] assms(2) by (simp_all add: results_inv_def)
  then have "errgroup_Wait (g_results g) = e" by (simp add: errgroup_Wait_one)
  then show ?thesis by (simp add: Run_result_def split: option.splits)
qed

theorem run_returns_http_error_witness:
  "\<exists>s g. app_runs demo_deps [''/event/A''] 100 1 demo_env s g \<and>
     Run_result (g_results g) = Some (Errorf ''listen %s: %w'' ['':8080''] (Some IoEOF))"
proof -
  let ?s = "boot [''/event/A''] 100 1 demo_env :: (env, string, bytes) pipe" and ?g = "Run_start 1"
  let ?e = "Errorf ''listen %s: %w'' ['':8080''] (Some IoEOF)"
  have "app_step demo_deps ?s ?g (?s\<lparr>p_canceled := True\<rparr>) (?g\<lparr>g_http := Some (Some ?e), g_results := [Some ?e]\<rparr>)"
    using app_step.http_returns [of ?g "Some ?e" ?s demo_deps] by (simp add: Run_start_def)
  then have run: "app_runs demo_deps [''/event/A''] 100 1 demo_env (?s\<lparr>p_canceled := True\<rparr>)
      (?g\<lparr>g_http := Some (Some ?e), g_results := [Some ?e]\<rparr>)"
    using app_runs.moved [OF app_runs.started, of demo_deps "[''/event/A'']" 100 1 demo_env] by simp
  have "Run_result (g_results (?g\<lparr>g_http := Some (Some ?e), g_results := [Some ?e]\<rparr>)) = Some ?e"
    using run_returns_http_error [OF run, of "Some ?e"] by simp
  with run show ?thesis by (intro exI conjI)
qed



end
