(* ===== verification/Program_Life.thy ===== *)
theory Program_Life
  imports App_Shutdown Client_Wiring
begin

text \<open>
  The command from start to exit, and again: \<open>run\<close> of \<open>src/cmd/processor/main.go\<close> around \<open>New\<close>,
  \<open>App.Run\<close> (with \<open>discoverTopics\<close> and the goroutines of \<open>App_Run\<close>) and \<open>Close\<close>, over the parts that
  \<open>New\<close> wires together. A history of the program is a sequence of lives of its process: a life ends
  when \<open>main\<close> returns, or the process is killed at any point of \<open>App.Run\<close>.
\<close>

section \<open>Run, from the application New returned\<close>

text \<open>
  What a process is made of: the library calls of start and stop, the gRPC surroundings with one
  attempt of each unary RPC, and the wiring of the application for its handler and its flow size.
\<close>

record ('w, 'r, 'sch, 'v) program =
  pg_calls :: "('w, 'r) start_calls"
  pg_rpc :: "'w rpc_deps"
  pg_topic_rpc :: "string \<Rightarrow> ('w, TopicInfo) call"
  pg_schema_rpc :: "string \<Rightarrow> ('w, SchemaInfo) call"
  pg_wiring :: "handler_config \<Rightarrow> nat \<Rightarrow> ('w, 'sch, 'v) deps"

definition Run_discovers :: "('w, 'r, 'sch, 'v) program \<Rightarrow> Config \<Rightarrow> 'w \<Rightarrow> 'w" where
  "Run_discovers pg cfg w =
     snd (discoverTopics (GetTopic (pg_rpc pg) (pg_topic_rpc pg)) (GetSchema (pg_rpc pg) (pg_schema_rpc pg))
            (ps_Topics (cf_PubSub cfg)) w)"

text \<open>\<open>Run_reaches\<close>: the states \<open>Run\<close> can be in; \<open>Run_returns\<close>: what it can return, once \<open>g.Wait\<close> does.\<close>

definition Run_reaches ::
  "('w, 'r, 'sch, 'v) program \<Rightarrow> Config \<Rightarrow> app \<Rightarrow> 'w \<Rightarrow> ('w, 'sch, 'v) pipe \<Rightarrow> control \<Rightarrow> bool" where
  "Run_reaches pg cfg a w =
     app_runs (pg_wiring pg (ap_handler a) (nat (wk_FlowBatchSize (cf_Worker cfg))))
       (ps_Topics (cf_PubSub cfg)) (wk_FlowBatchSize (cf_Worker cfg)) (nat (ap_workers a)) (Run_discovers pg cfg w)"

inductive Run_returns :: "('w, 'r, 'sch, 'v) program \<Rightarrow> Config \<Rightarrow> app \<Rightarrow> 'w \<Rightarrow> go_error option \<times> 'w \<Rightarrow> bool"
  for pg cfg a w
where
  waited: "Run_reaches pg cfg a w s g \<Longrightarrow> Run_stopped g \<Longrightarrow> Run_returns pg cfg a w (Run_result (g_results g), p_world s)"

inductive_cases Run_returnsE: "Run_returns pg cfg a w out"

section \<open>The lives of the process\<close>

inductive lives ::
  "('w, 'r, 'sch, 'v) program \<Rightarrow> (go_error + Config) \<Rightarrow> (string \<Rightarrow> go_error + 'lvl) \<Rightarrow> string \<Rightarrow> 'w \<Rightarrow> 'w \<Rightarrow> bool"
  for pg load parseLevel version w0
where
  none: "lives pg load parseLevel version w0 w0"
| exits: "lives pg load parseLevel version w0 w \<Longrightarrow>
    (\<And>cfg a v. load = Inr cfg \<Longrightarrow> Run_returns pg cfg a v (appRun a v)) \<Longrightarrow>
    main_run load parseLevel version (pg_calls pg) appRun reg w = Some (r, reg', w') \<Longrightarrow>
    lives pg load parseLevel version w0 w'"
| killed: "lives pg load parseLevel version w0 w \<Longrightarrow> load = Inr cfg \<Longrightarrow>
    Migrate (pg_calls pg) (db_URL (cf_Database cfg)) w = (None, w1) \<Longrightarrow>
    New (pg_calls pg) cfg reg w1 = Some (Inr a, reg', w2) \<Longrightarrow> Run_reaches pg cfg a w2 s g \<Longrightarrow>
    lives pg load parseLevel version w0 (p_world s)"

text \<open>The handler \<open>New\<close> builds depends on the configuration only.\<close>

definition handler_of :: "Config \<Rightarrow> handler_config" where
  "handler_of cfg =
     \<lparr>hc_kafka = (if kf_Enabled (cf_Kafka cfg)
        then Some \<lparr>kp_topic = kf_Topic (cf_Kafka cfg), kp_timeout = kf_ProduceTimeout (cf_Kafka cfg),
               kp_partitions = kf_TopicPartitions (cf_Kafka cfg), kp_replication = kf_TopicReplicationFactor (cf_Kafka cfg)\<rparr>
        else None),
      hc_redis = (if rd_Enabled (cf_Redis cfg)
        then Some \<lparr>rc_prefix = rd_KeyPrefix (cf_Redis cfg), rc_ttl = rd_TTL (cf_Redis cfg), rc_timeout = rd_Timeout (cf_Redis cfg)\<rparr>
        else None)\<rparr>"

lemma New_handler:
  assumes "New c cfg reg w = Some (Inr a, reg', w')"
  shows "ap_handler a = handler_of cfg" "ap_workers a = wk_Count (cf_Worker cfg)"
    "map t_sub (p_subs (boot (ps_Topics (cf_PubSub cfg)) (wk_FlowBatchSize (cf_Worker cfg)) n v)) = ap_subs a"
  using assms
  by (auto simp: New_def New_kafka_def New_redis_def Kafka_New_def Redis_New_def handler_of_def boot_def new_task_def
        split: result_splits bind_splits if_splits)

text \<open>\<open>Run\<close> can return, whatever the services do: a cancellation and a schedule of the goroutines suffice.\<close>

lemma Run_can_return: "\<exists>out. Run_returns pg cfg a w out"
proof -
  let ?d = "pg_wiring pg (ap_handler a) (nat (wk_FlowBatchSize (cf_Worker cfg)))"
  let ?topics = "ps_Topics (cf_PubSub cfg)" and ?b = "wk_FlowBatchSize (cf_Worker cfg)" and ?n = "nat (ap_workers a)"
  let ?s = "boot ?topics ?b ?n (Run_discovers pg cfg w)" and ?g = "Run_start (length ?topics)"
  have run: "app_runs ?d ?topics ?b ?n (Run_discovers pg cfg w) (?s\<lparr>p_canceled := True\<rparr>) ?g"
    by (rule app_runs.moved [OF app_runs.started app_step.cancel])
  obtain s g where r: "app_reach ?d (?s\<lparr>p_canceled := True\<rparr>, ?g) (s, g)" and stopped: "Run_stopped g"
    using can_stop [OF app_runs_life [OF run] app_runs_topics [OF run], of ?d] by auto
  have "Run_reaches pg cfg a w s g" unfolding Run_reaches_def by (rule app_reach_runs [OF r run])
  from Run_returns.waited [OF this stopped] show ?thesis by (rule exI)
qed

section \<open>The program over its services\<close>

text \<open>The program with the parts that \<open>New\<close> gives it.\<close>

definition wired_program ::
  "(string \<Rightarrow> ConsumerEvent option list) \<Rightarrow> (event_args \<Rightarrow> ('w, int) call) \<Rightarrow> (string \<Rightarrow> ('w, bytes option) call) \<Rightarrow>
   (string \<Rightarrow> bytes option \<Rightarrow> 'w action) \<Rightarrow> (duration \<Rightarrow> string \<Rightarrow> ('w, int) call) \<Rightarrow>
   (duration \<Rightarrow> string \<Rightarrow> duration \<Rightarrow> 'w action) \<Rightarrow> (duration \<Rightarrow> kafka_record \<Rightarrow> 'w action) \<Rightarrow> (metric \<Rightarrow> 'w \<Rightarrow> 'w) \<Rightarrow>
   'w action \<Rightarrow> (FetchRequest \<Rightarrow> 'w action) \<Rightarrow> 'w rpc_deps \<Rightarrow> (string \<Rightarrow> ('w, SchemaInfo) call) \<Rightarrow>
   ('w, 'r) start_calls \<Rightarrow> (string \<Rightarrow> ('w, TopicInfo) call) \<Rightarrow> (string \<Rightarrow> go_error + 'sch) \<Rightarrow>
   ('sch \<Rightarrow> bytes \<Rightarrow> go_error + 'v payload) \<Rightarrow> ('v payload \<Rightarrow> go_error + bytes) \<Rightarrow> ('v Envelope \<Rightarrow> go_error + bytes) \<Rightarrow>
   ('w, 'r, 'sch, 'v) program" where
  "wired_program lg insert_event select_replay upsert_replay exists_key set_key produce_sync meter subscribe send rpc
     schema_rpc c topic_rpc parse unmarshal marshal marshal_env =
     \<lparr>pg_calls = c, pg_rpc = rpc, pg_topic_rpc = topic_rpc, pg_schema_rpc = schema_rpc,
      pg_wiring = (\<lambda>hc. app_deps lg select_replay upsert_replay subscribe send meter (schema_source rpc schema_rpc) parse unmarshal
        (root_handler marshal marshal_env insert_event exists_key set_key produce_sync meter hc))\<rparr>"

text \<open>
  Starting and stopping reach neither the rows nor the records nor the keys: connections come and go,
  and the migrations of a database that has its tables leave their rows alone.
\<close>

locale program_calls =
  fixes c :: "('w, 'r) start_calls"
    and view :: "'w \<Rightarrow> services_view"
  assumes grpc_new_view: "st_grpc_NewClient c endpoint opts w = (e, w') \<Longrightarrow> view w' = view w"
    and grpc_close_view: "st_grpc_Close c w = (e, w') \<Longrightarrow> view w' = view w"
    and pool_new_view: "st_NewWithConfig c cfg w = (e, w') \<Longrightarrow> view w' = view w"
    and pool_close_view: "view (st_pool_Close c w) = view w"
    and kgo_new_view: "st_kgo_NewClient c kopts w = (e, w') \<Longrightarrow> view w' = view w"
    and kgo_close_view: "view (st_kgo_Close c w) = view w"
    and create_topic_view: "st_CreateTopic c d n m t w = (e, w') \<Longrightarrow> view w' = view w"
    and redis_new_view: "view (st_redis_NewClient c ropts w) = view w"
    and redis_close_view: "st_redis_Close c w = (e, w') \<Longrightarrow> view w' = view w"
    and iofs_new_view: "st_iofs_New c w = (e, w') \<Longrightarrow> view w' = view w"
    and migrate_new_view: "st_migrate_New c dsn w = (e, w') \<Longrightarrow> view w' = view w"
    and migrate_up_view: "st_migrate_Up c w = (e, w') \<Longrightarrow> view w' = view w"
    and migrate_version_view: "st_migrate_Version c w = (v, w') \<Longrightarrow> view w' = view w"
    and migrate_close_view: "st_migrate_Close c w = (es, w') \<Longrightarrow> view w' = view w"
begin

lemma closed_view:
  "view (snd (st_grpc_Close c w)) = view w" "view (snd (st_redis_Close c w)) = view w"
  "view (snd (st_migrate_Close c w)) = view w" "view (snd (st_migrate_Version c w)) = view w"
  by (cases "st_grpc_Close c w"; cases "st_redis_Close c w"; cases "st_migrate_Close c w"; cases "st_migrate_Version c w";
      simp add: grpc_close_view redis_close_view migrate_close_view migrate_version_view)+

lemma New_kafka_view: "New_kafka c cfg reg w = Some (r, reg', w') \<Longrightarrow> view w' = view w"
  by (auto simp: New_kafka_def Kafka_New_def EnsureTopic_def closed_view pool_close_view kgo_close_view
        dest!: kgo_new_view create_topic_view split: result_splits bind_splits if_splits)

lemma New_redis_view: "New_redis c cfg reg w = Some (r, reg', w') \<Longrightarrow> view w' = view w"
  by (auto simp: New_redis_def Redis_New_def redis_new_view split: bind_splits if_splits)

lemma NewPool_view: "NewPool c dsn n w = (e, w') \<Longrightarrow> view w' = view w"
  by (auto simp: NewPool_def dest!: pool_new_view split: result_splits)

lemma New_view: "New c cfg reg w = Some (r, reg', w') \<Longrightarrow> view w' = view w"
  by (auto simp: New_def Dial_def closed_view dest!: grpc_new_view NewPool_view New_kafka_view New_redis_view
        split: result_splits bind_splits)

lemma Close_view: "view (snd (Close c a w)) = view w"
proof -
  have "view (snd (Cache_Close (st_redis_Close c) v)) = view v" for v
    by (auto simp: Cache_Close_def dest!: redis_close_view split: prod.split option.split)
  then show ?thesis by (simp add: Close_def Let_def closed_view pool_close_view kgo_close_view)
qed

lemma Migrate_view: "Migrate c dsn w = (e, w') \<Longrightarrow> view w' = view w"
  by (auto simp: Migrate_def Let_def closed_view dest!: iofs_new_view migrate_new_view migrate_up_view
        split: prod.splits option.splits if_splits)

end

text \<open>
  What the history of a topic keeps, as a property of the services alone: the dedup cache names finished
  events only, and the cursor has moved from \<open>k\<close> over events that are finished or do not decode.
\<close>

definition no_skip ::
  "handler_config \<Rightarrow> (string \<Rightarrow> 'sch \<Rightarrow> bool) \<Rightarrow> ('sch \<Rightarrow> bytes \<Rightarrow> go_error + 'p) \<Rightarrow> ConsumerEvent option list \<Rightarrow> string \<Rightarrow>
   nat \<Rightarrow> services_view \<Rightarrow> bool" where
  "no_skip hc provides unmarshal log topic k v \<longleftrightarrow>
     cache_sound hc v \<and>
     (\<exists>p \<ge> k. at_pos log (sv_replay v topic) p \<and>
        (\<forall>i. k \<le> i \<longrightarrow> i < p \<longrightarrow> event_finished hc (GetId (GetEvent (log ! i))) v \<or>
           (\<exists>sch err. provides (GetSchemaId (GetEvent (log ! i))) sch \<and>
              Decode unmarshal (Some sch) (GetPayload (GetEvent (log ! i))) = Inl err)))"

locale program_services =
  client_wired insert_event select_replay upsert_replay exists_key set_key produce_sync meter view
    subscribe send rpc schema_rpc topics lg + program_calls c view
  for insert_event :: "event_args \<Rightarrow> ('w, int) call"
    and select_replay :: "string \<Rightarrow> ('w, bytes option) call"
    and upsert_replay :: "string \<Rightarrow> bytes option \<Rightarrow> 'w action"
    and exists_key :: "duration \<Rightarrow> string \<Rightarrow> ('w, int) call"
    and set_key :: "duration \<Rightarrow> string \<Rightarrow> duration \<Rightarrow> 'w action"
    and produce_sync :: "duration \<Rightarrow> kafka_record \<Rightarrow> 'w action"
    and meter :: "metric \<Rightarrow> 'w \<Rightarrow> 'w"
    and view :: "'w \<Rightarrow> services_view"
    and subscribe :: "'w action"
    and send :: "FetchRequest \<Rightarrow> 'w action"
    and rpc :: "'w rpc_deps"
    and schema_rpc :: "string \<Rightarrow> ('w, SchemaInfo) call"
    and topics :: "string list"
    and lg :: "string \<Rightarrow> ConsumerEvent option list"
    and c :: "('w, 'r) start_calls" +
  fixes topic_rpc :: "string \<Rightarrow> ('w, TopicInfo) call"
  assumes topic_rpc_keeps: "topic_rpc name w = (q, w') \<Longrightarrow> view w' = view w"
begin

lemma GetTopic_keeps: "GetTopic rpc topic_rpc name w = (q, w') \<Longrightarrow> view w' = view w"
proof -
  have "view w' = view w" if "stub_GetTopic rpc topic_rpc name w = (q, w')" for q w'
    using that attempts_keep topic_rpc_keeps unfolding stub_GetTopic_def newUnaryInterceptor_def by blast
  then show "GetTopic rpc topic_rpc name w = (q, w') \<Longrightarrow> view w' = view w"
    unfolding GetTopic_def by (auto split: prod.splits sum.splits if_splits)
qed

lemma GetSchema_keeps: "GetSchema rpc schema_rpc i w = (q, w') \<Longrightarrow> view w' = view w"
  unfolding GetSchema_def by (auto dest: stub_keeps split: prod.splits sum.splits if_splits)

lemma discovery_keeps:
  "discoverTopics (GetTopic rpc topic_rpc) (GetSchema rpc schema_rpc) ts w = (log, w') \<Longrightarrow> view w' = view w"
proof (induction ts arbitrary: w log)
  case (Cons topic ts)
  have "view v = view u" if "discoverTopics (GetTopic rpc topic_rpc) (GetSchema rpc schema_rpc) ts u = (l, v)" "v = w'" for u l v
    using Cons.IH that by blast
  then show ?case
    using Cons.prems by (auto simp: Let_def dest!: GetTopic_keeps GetSchema_keeps split: prod.splits sum.splits)
qed simp

abbreviation the_program where
  "the_program parse unmarshal marshal marshal_env \<equiv>
     wired_program lg insert_event select_replay upsert_replay exists_key set_key produce_sync meter subscribe send rpc
       schema_rpc c topic_rpc parse unmarshal marshal marshal_env"

lemma Run_no_skip:
  assumes "Run_reaches (the_program parse unmarshal marshal marshal_env) cfg a w s g" "ps_Topics (cf_PubSub cfg) = topics"
    and "topic \<in> set topics" "ap_handler a = hc"
    and J: "no_skip hc (schema_for (schema_source rpc schema_rpc) parse) unmarshal (lg topic) topic k (view w)"
  shows "no_skip hc (schema_for (schema_source rpc schema_rpc) parse) unmarshal (lg topic) topic k (view (p_world s))"
proof -
  let ?w = "Run_discovers (the_program parse unmarshal marshal marshal_env) cfg w"
  have view: "view ?w = view w"
    unfolding Run_discovers_def wired_program_def program.simps by (rule discovery_keeps [OF prod.collapse [symmetric]])
  note P = is_pipeline [of parse unmarshal marshal marshal_env hc "nat (wk_FlowBatchSize (cf_Worker cfg))"]
  note settled = pipeline.settled_def [OF P] pipeline.undecodable_def [OF P]
  let ?settled = "pipeline.settled (app_deps lg select_replay upsert_replay subscribe send meter (schema_source rpc schema_rpc)
      parse unmarshal (root_handler marshal marshal_env insert_event exists_key set_key produce_sync meter hc)
      (nat (wk_FlowBatchSize (cf_Worker cfg)))) (\<lambda>i w. event_finished hc i (view w)) (schema_for (schema_source rpc schema_rpc) parse)"
  note run = app_runs_service [OF assms(1) [unfolded Run_reaches_def assms(2,4)]]
  have run: "service (app_deps lg select_replay upsert_replay subscribe send meter (schema_source rpc schema_rpc)
      parse unmarshal (root_handler marshal marshal_env insert_event exists_key set_key produce_sync meter hc)
      (nat (wk_FlowBatchSize (cf_Worker cfg)))) topics (wk_FlowBatchSize (cf_Worker cfg)) (nat (ap_workers a)) ?w s"
    using run by (simp add: wired_program_def)
  have I: "cache_sound hc (view ?w)" using J view by (simp add: no_skip_def)
  obtain p where p: "k \<le> p" "at_pos (lg topic) (sv_replay (view ?w) topic) p"
    and old: "\<forall>i. k \<le> i \<longrightarrow> i < p \<longrightarrow> ?settled ?w (lg topic ! i)"
    using J view by (auto simp: no_skip_def settled)
  obtain p' where p': "p \<le> p'" "at_pos (lg topic) (sv_replay (view (p_world s)) topic) p'"
    and new: "\<forall>i. p \<le> i \<longrightarrow> i < p' \<longrightarrow> ?settled (p_world s) (lg topic ! i)"
    using pipeline.service_settled [OF P run I assms(3)] p(2) by auto
  have "?settled (p_world s) (lg topic ! i)" if "k \<le> i" "i < p'" for i
    using that old new pipeline.service_keeps(2) [OF P run I] by (cases "i < p") auto
  then show ?thesis
    using p(1) p' pipeline.service_keeps(1) [OF P run I] unfolding no_skip_def
    by (intro conjI exI [of _ p']) (auto simp: settled)
qed


lemma start_view:
  "Migrate c dsn w = (None, w1) \<Longrightarrow> New c cfg reg w1 = Some (r, reg', w2) \<Longrightarrow> view w2 = view w"
  by (drule Migrate_view, drule New_view) simp

lemma lives_no_skip:
  assumes "lives (the_program parse unmarshal marshal marshal_env) (Inr cfg) parseLevel version w0 w"
    and T: "ps_Topics (cf_PubSub cfg) = topics" "topic \<in> set topics"
    and J: "no_skip (handler_of cfg) (schema_for (schema_source rpc schema_rpc) parse) unmarshal (lg topic) topic k (view w0)"
  shows "no_skip (handler_of cfg) (schema_for (schema_source rpc schema_rpc) parse) unmarshal (lg topic) topic k (view w)"
  using assms(1)
proof (induction rule: lives.induct)
  case none
  show ?case by (rule J)
next
  case (exits w appRun reg r reg' w')
  have calls: "pg_calls (the_program parse unmarshal marshal marshal_env) = c" by (simp add: wired_program_def)
  note main = exits.hyps(3) [unfolded main_run_def calls sum.case]
  consider "view w' = view w"
    | w1 a reg1 w2 where "Migrate c (db_URL (cf_Database cfg)) w = (None, w1)" "New c cfg reg w1 = Some (Inr a, reg1, w2)"
        "w' = snd (Close c a (snd (appRun a w2)))"
    using main by (auto simp: Let_def dest: Migrate_view start_view split: result_splits bind_splits)
  then show ?case
  proof cases
    case 1
    then show ?thesis using exits.IH by simp
  next
    case (2 w1 a reg1 w2)
    from exits.hyps(2) [of cfg a w2] obtain s g where
      run: "Run_reaches (the_program parse unmarshal marshal marshal_env) cfg a w2 s g" and out: "snd (appRun a w2) = p_world s"
      by (auto elim: Run_returnsE)
    with exits.IH start_view [OF 2(1,2)] have "no_skip (handler_of cfg) (schema_for (schema_source rpc schema_rpc) parse) unmarshal (lg topic) topic k (view w2)"
      by simp
    from Run_no_skip [OF run T New_handler(1) [OF 2(2)] this] show ?thesis by (simp add: 2(3) out Close_view)
  qed
next
  case (killed w cfg' w1 reg a reg' w2 s g)
  have calls: "pg_calls (the_program parse unmarshal marshal marshal_env) = c" by (simp add: wired_program_def)
  have cfg: "cfg' = cfg" using killed.hyps(2) by simp
  note start = killed.hyps(3,4) [unfolded calls cfg]
  with killed.IH start_view [OF start] have "no_skip (handler_of cfg) (schema_for (schema_source rpc schema_rpc) parse) unmarshal (lg topic) topic k (view w2)"
    by simp
  from Run_no_skip [OF killed.hyps(5) [unfolded cfg] T New_handler(1) [OF start(2)] this] show ?case .
qed

end

section \<open>The program in the faulty environment\<close>

text \<open>Connecting fails as the script of the environment says; the server knows every topic.\<close>

abbreviation env_connect :: "env action" where
  "env_connect \<equiv> env_act (\<lambda>v. (None, v))"

definition env_calls :: "(env, collector list) start_calls" where
  "env_calls = \<lparr>st_register = list_register, st_grpc_NewClient = (\<lambda>endpoint opts. env_connect), st_grpc_Close = (\<lambda>w. (None, w)),
     st_ParseConfig = (\<lambda>dsn. Inr \<lparr>pc_MaxConns = 4, pc_HealthCheckPeriod = 60 * 10 ^ 9, pc_dsn = dsn\<rparr>),
     st_NewWithConfig = (\<lambda>cfg. env_connect), st_pool_Close = (\<lambda>w. w), st_kgo_NewClient = (\<lambda>opts. env_connect),
     st_kgo_Close = (\<lambda>w. w), st_CreateTopic = (\<lambda>d n m t. env_connect), st_kerr_code = (\<lambda>e. None), st_TopicAlreadyExists = 36,
     st_redis_NewClient = (\<lambda>opts w. w), st_redis_Close = (\<lambda>w. (None, w)), st_iofs_New = env_connect,
     st_migrate_New = (\<lambda>dsn. env_connect), st_migrate_Up = env_connect, st_migrate_Version = (\<lambda>w. (Inr (1, False), w)),
     st_migrate_Close = (\<lambda>w. ((None, None), w))\<rparr>"

definition env_topic :: "string \<Rightarrow> (env, TopicInfo) call" where
  "env_topic name = env_call (\<lambda>v. (Inr (new_TopicInfo\<lparr>ti_TopicName := name, ti_SchemaId := ''s1'', ti_CanSubscribe := True\<rparr>), v))"

lemma env_program_calls: "program_calls env_calls ev_view"
  by unfold_locales (auto simp: env_calls_def elim!: env_act_cases)

interpretation env_program: program_calls env_calls ev_view
  by (rule env_program_calls)

lemma env_program_services:
  assumes "distinct topics" "\<And>topic. log_ok (lg topic)"
  shows "program_services env_insert_event env_select_replay env_upsert_replay env_exists_key env_set_key env_produce_sync
    env_meter ev_view env_subscribe env_send (env_rpc code) (env_transport texts) topics lg env_calls env_topic"
proof (intro program_services.intro program_services_axioms.intro env_program_calls env_client_wired assms)
  show "ev_view w' = ev_view w" if "env_topic name w = (q, w')" for name w q w'
    using that by (auto simp: env_topic_def elim!: env_call_cases)
qed

interpretation demo_program: program_services env_insert_event env_select_replay env_upsert_replay env_exists_key
  env_set_key env_produce_sync env_meter ev_view env_subscribe env_send "env_rpc (\<lambda>e. Unavailable)"
  "env_transport [''s1'' \<mapsto> ''{}'']" "[''/event/A'']" demo_log env_calls env_topic
  by (rule env_program_services) (simp_all add: demo_log_ok)

section \<open>A life of the demo program\<close>

abbreviation demo_program :: "(env, collector list, string, bytes) program" where
  "demo_program \<equiv> wired_program demo_log env_insert_event env_select_replay env_upsert_replay env_exists_key env_set_key
     env_produce_sync env_meter env_subscribe env_send (env_rpc (\<lambda>e. Unavailable)) (env_transport [''s1'' \<mapsto> ''{}'']) env_calls env_topic
     Inr (\<lambda>sch bs. Inr [(''f'', bs)]) (\<lambda>p. Inr (concat (map snd p))) (\<lambda>e. Inr [])"

abbreviation demo_cfg :: Config where
  "demo_cfg \<equiv> default_config ''id'' ''secret'' [''/event/A''] ''dsn''"

lemmas client_simps = schema_source_def GetSchema_def GetTopic_def stub_GetSchema_def stub_GetTopic_def newUnaryInterceptor_def
  interceptor_loop.simps maxRetryAttempts_def rpc_done_def env_rpc_def env_transport_def env_topic_def GetSchemaJson_def
  new_SchemaInfo_def new_TopicInfo_def

lemma demo_program_starts:
  "\<exists>a reg' m. Migrate env_calls ''dsn'' demo_env = (None, demo_env) \<and>
     New env_calls demo_cfg None demo_env = Some (Inr a, reg', demo_env) \<and>
     Run_discovers demo_program demo_cfg demo_env = demo_env\<lparr>ev_metrics := m\<rparr>"
  by (simp add: Migrate_def New_def Dial_def NewPool_def New_kafka_def New_redis_def default_config_def env_calls_def
    newProviderMetrics_def newClientMetrics_def newSchemaCacheMetrics_def newCommitterMetrics_def newPoolMetrics_def
    newSubscriberMetrics_def register_all_def Run_discovers_def wired_program_def client_simps demo_simps demo_env_def)

lemma demo_program_run:
  "\<exists>s. run_choices (pg_wiring demo_program demo_config 100) stop_choices (boot [''/event/A''] 100 8 (demo_env\<lparr>ev_metrics := m\<rparr>)) = Some s \<and>
     p_pending s = None \<and> p_cursor s = Done ''/event/A'' 1 (Some [2]) NewCommitter \<and> ev_script (p_world s) = []"
  by (simp add: wired_program_def client_simps stop_choices_def boot_def new_task_def NewSubscriber_def demo_env_def demo_simps open_stream_def
    initialFetch_def Let_def emit_def next_raw_def subscriberOutBuffer_def Cache_Get_def fetch_schema_def NewCache_def
    Decode_def root_handler_def persist_stage_def Chain_Handle_def demo_config_def decoded_event_def
    PersistHandler_Handle_def App_ack_def clampToInt32_def maxInt32_def numeral_2_eq_2)

text \<open>The process is killed after a tick has committed the event it has handled.\<close>

lemma demo_program_life:
  "\<exists>w. lives demo_program (Inr demo_cfg) (\<lambda>l. Inr ()) ''dev'' demo_env w \<and> sv_replay (ev_view w) ''/event/A'' = Some [2]"
proof -
  let ?d = "pg_wiring demo_program demo_config 100" and ?g = "Run_start 1"
  obtain a reg' m where start: "Migrate env_calls ''dsn'' demo_env = (None, demo_env)"
      "New env_calls demo_cfg None demo_env = Some (Inr a, reg', demo_env)"
    and disc: "Run_discovers demo_program demo_cfg demo_env = demo_env\<lparr>ev_metrics := m\<rparr>"
    using demo_program_starts by blast
  let ?w = "demo_env\<lparr>ev_metrics := m\<rparr>"
  let ?runs = "app_runs ?d [''/event/A''] 100 8 ?w"
  obtain s where s: "run_choices ?d stop_choices (boot [''/event/A''] 100 8 ?w) = Some s"
      "p_pending s = None" "p_cursor s = demo_cursor" "ev_script (p_world s) = []"
    using demo_program_run by blast
  have run: "?runs s ?g"
    using app_choices [OF app_runs.started s(1)] by (simp add: stop_choices_def Run_start_def)
  let ?s2 = "demo_flushing s"
  from app_runs.moved [OF run app_step.tick [OF _ demo_flush_start [OF s(2,3)]]] have flushing: "?runs ?s2 (?g\<lparr>g_first := None\<rparr>)" by (simp add: Run_start_def)
  obtain c w where one: "flush_one (SaveReplay env_upsert_replay) ''/event/A'' (Some [2]) (snd (snapshot demo_cursor), p_world s, None) = Some (c, w, None)"
    and cur: "sv_replay (ev_view w) ''/event/A'' = Some [2]" by (rule demo_flush_one [OF s(4)])
  have "?runs (?s2\<lparr>p_cursor := c, p_world := w, p_pending := Some []\<rparr>) (?g\<lparr>g_first := None\<rparr>)"
    using app_runs.moved [OF flushing app_step.save [of _ "''/event/A''" "Some [2]" "[]" ?d _ c w None]] one
    by (simp add: Run_start_def wired_program_def)
  then have reach: "Run_reaches demo_program demo_cfg a demo_env (?s2\<lparr>p_cursor := c, p_world := w, p_pending := Some []\<rparr>) (?g\<lparr>g_first := None\<rparr>)"
    unfolding Run_reaches_def disc New_handler(1,2) [OF start(2)]
    by (simp add: handler_of_def default_config_def demo_config_def)
  have "lives demo_program (Inr demo_cfg) (\<lambda>l. Inr ()) ''dev'' demo_env (p_world (?s2\<lparr>p_cursor := c, p_world := w, p_pending := Some []\<rparr>))"
  proof (rule lives.killed [OF lives.none refl _ _ reach])
    show "Migrate (pg_calls demo_program) (db_URL (cf_Database demo_cfg)) demo_env = (None, demo_env)"
      using start(1) by (simp add: wired_program_def default_config_def)
    show "New (pg_calls demo_program) demo_cfg None demo_env = Some (Inr a, reg', demo_env)"
      using start(2) by (simp add: wired_program_def)
  qed
  then show ?thesis using cur by (intro exI [of _ w]) simp
qed

section \<open>Properties\<close>

text \<open>
  C23. The program as a whole loses no event: take any sequence of lives of the process, started with
  the same configuration, in which each life ends because \<open>main\<close> returned (on any path, from a refused
  configuration to a clean shutdown) or because the process was killed at any point of \<open>App.Run\<close>. If a
  topic's committed cursor was at position \<open>k\<close> of its event log at first, it is at some \<open>p \<ge> k\<close> in the
  end, and every event between is stored (and forwarded, if Kafka is enabled) or does not decode.
\<close>

theorem lives_skip_no_event:
  assumes "program_services insert_event select_replay upsert_replay exists_key set_key produce_sync meter view
      subscribe send rpc schema_rpc (ps_Topics (cf_PubSub cfg)) lg c topic_rpc"
    and "Load url_Parse print_duration env_Parse environ = Inr cfg"
    and "lives (wired_program lg insert_event select_replay upsert_replay exists_key set_key produce_sync meter subscribe send rpc
        schema_rpc c topic_rpc parse unmarshal marshal marshal_env)
      (Load url_Parse print_duration env_Parse environ) parseLevel version w0 w"
    and "cache_sound (handler_of cfg) (view w0)" "topic \<in> set (ps_Topics (cf_PubSub cfg))"
    and "at_pos (lg topic) (sv_replay (view w0) topic) k"
  shows "\<exists>p \<ge> k. at_pos (lg topic) (sv_replay (view w) topic) p \<and>
    (\<forall>i. k \<le> i \<longrightarrow> i < p \<longrightarrow>
       event_finished (handler_of cfg) (GetId (GetEvent (lg topic ! i))) (view w) \<or>
       (\<exists>sch err. schema_for (schema_source rpc schema_rpc) parse (GetSchemaId (GetEvent (lg topic ! i))) sch \<and>
          Decode unmarshal (Some sch) (GetPayload (GetEvent (lg topic ! i))) = Inl err))"
proof -
  have "no_skip (handler_of cfg) (schema_for (schema_source rpc schema_rpc) parse) unmarshal (lg topic) topic k (view w0)"
    using assms(4,6) by (auto simp: no_skip_def)
  from program_services.lives_no_skip [OF assms(1) assms(3) [unfolded assms(2)] refl assms(5) this]
  show ?thesis by (simp add: no_skip_def)
qed

theorem lives_skip_no_event_witness:
  "\<exists>w. lives demo_program (Inr demo_cfg) (\<lambda>l. Inr ()) ''dev'' demo_env w \<and>
     sv_replay (ev_view w) ''/event/A'' = Some [2] \<and> event_finished demo_config ''e2'' (ev_view w)"
proof -
  let ?load = "Load (\<lambda>s. Inr (''https'', ''login.salesforce.com'')) (\<lambda>d. []) (\<lambda>e. Inr demo_cfg) ()"
  have load: "?load = Inr demo_cfg" by (rule defaults_load) simp_all
  have hc: "handler_of demo_cfg = demo_config" by (simp add: handler_of_def default_config_def demo_config_def)
  obtain w where run: "lives demo_program (Inr demo_cfg) (\<lambda>l. Inr ()) ''dev'' demo_env w"
    and cur: "sv_replay (ev_view w) ''/event/A'' = Some [2]" using demo_program_life by blast
  have S: "program_services env_insert_event env_select_replay env_upsert_replay env_exists_key env_set_key env_produce_sync
    env_meter ev_view env_subscribe env_send (env_rpc (\<lambda>e. Unavailable)) (env_transport [''s1'' \<mapsto> ''{}''])
    (ps_Topics (cf_PubSub demo_cfg)) demo_log env_calls env_topic"
    using demo_program.program_services_axioms by (simp add: default_config_def)
  have cs: "cache_sound (handler_of demo_cfg) (ev_view demo_env)" by (simp add: hc cache_sound_def demo_config_def)
  have T: "''/event/A'' \<in> set (ps_Topics (cf_PubSub demo_cfg))" by (simp add: default_config_def)
  have k: "at_pos (demo_log ''/event/A'') (sv_replay (ev_view demo_env) ''/event/A'') 1"
    by (simp add: at_pos_def demo_log_def demo_event_def demo_env_def GetReplayId_def)
  have run': "lives demo_program ?load (\<lambda>l. Inr ()) ''dev'' demo_env w" unfolding load by (rule run)
  from lives_skip_no_event [OF S load run' cs T k] obtain p where p: "1 \<le> p" "at_pos (demo_log ''/event/A'') (Some [2]) p"
    and fin: "\<forall>i. 1 \<le> i \<longrightarrow> i < p \<longrightarrow>
       event_finished demo_config (GetId (GetEvent (demo_log ''/event/A'' ! i))) (ev_view w) \<or>
       (\<exists>sch err. schema_for (schema_source (env_rpc (\<lambda>e. Unavailable)) (env_transport [''s1'' \<mapsto> ''{}''])) Inr
            (GetSchemaId (GetEvent (demo_log ''/event/A'' ! i))) sch \<and>
          Decode (\<lambda>sch bs. Inr [(''f'', bs)]) (Some sch) (GetPayload (GetEvent (demo_log ''/event/A'' ! i))) = Inl err)"
    unfolding hc cur by (elim exE conjE)
  have "at_pos (demo_log ''/event/A'') (Some [2]) 2" by (simp add: at_pos_def demo_log_def demo_event_def GetReplayId_def)
  then have "p = 2" using at_pos_unique [OF demo_log_ok p(2)] by blast
  then have "event_finished demo_config ''e2'' (ev_view w)"
    using fin by (auto simp: demo_log_def demo_event_def Decode_def getter_defs)
  with run cur show ?thesis by blast
qed

end
