(* ===== verification/Single_Flight.thy ===== *)
theory Single_Flight
  imports Go_Prelude
begin

text \<open>
  The interface of \<open>golang.org/x/sync/singleflight\<close> that the schema cache and the token provider
  share, as a locale.
\<close>

text \<open>
  What the code relies on in \<open>singleflight.Group\<close>: the first caller of a key runs the function, a
  duplicate waits, and the key is free again when the function has returned. \<open>leader g k\<close> is the
  caller that runs the function of \<open>k\<close>.
\<close>

locale flight_group =
  fixes no_flight :: 'g
    and enter :: "string \<Rightarrow> nat \<Rightarrow> 'g \<Rightarrow> bool \<times> 'g"
    and leave :: "string \<Rightarrow> 'g \<Rightarrow> 'g"
    and leader :: "'g \<Rightarrow> string \<Rightarrow> nat option"
  assumes no_leader: "leader no_flight k = None"
    and enter_first: "leader g k = None \<Longrightarrow> enter k c g = (b, g') \<Longrightarrow> b \<and> leader g' = (leader g)(k := Some c)"
    and enter_duplicate: "leader g k = Some l \<Longrightarrow> enter k c g = (b, g') \<Longrightarrow> \<not> b \<and> leader g' = leader g"
    and leave_frees: "leader (leave k g) = (leader g)(k := None)"

text \<open>The group as a map from the keys in flight to their callers.\<close>

definition map_enter :: "string \<Rightarrow> nat \<Rightarrow> (string \<rightharpoonup> nat) \<Rightarrow> bool \<times> (string \<rightharpoonup> nat)" where
  "map_enter k c g = (case g k of None \<Rightarrow> (True, g(k \<mapsto> c)) | Some l \<Rightarrow> (False, g))"

definition map_leave :: "string \<Rightarrow> (string \<rightharpoonup> nat) \<Rightarrow> (string \<rightharpoonup> nat)" where
  "map_leave k g = g(k := None)"

interpretation map_group: flight_group Map.empty map_enter map_leave "\<lambda>g. g"
  by unfold_locales (auto simp: map_enter_def map_leave_def)

end
