(* ===== verification/Schema_Flight.thy ===== *)
theory Schema_Flight
  imports Schema_Cache Single_Flight
begin

text \<open>
  The schema cache of \<open>src/internal/schema/cache.go\<close> under concurrent callers. The workers call \<open>Get\<close>
  at the same time; \<open>singleflight\<close> lets one of them run the function for a schema ID while the
  others wait for its result. Here every access to the cache, to the group and to the source is a
  step of its own.
\<close>

section \<open>Callers\<close>

text \<open>
  Where a call of \<open>Get\<close> is: before the first \<open>Load\<close>, before \<open>sf.Do\<close>, running the function before and
  after its second \<open>Load\<close>, waiting for another caller's result, or returned.
\<close>

datatype 'sch lookup =
    Asking string
  | Missed string
  | Leading string
  | Sourcing string
  | Awaiting string
  | Answered string "go_error + 'sch"

text \<open>\<open>lk_stored\<close> is a history variable: how often a schema was stored for an ID.\<close>

record ('g, 'sch, 'w) lookups =
  lk_callers :: "'sch lookup list"
  lk_group :: 'g
  lk_cache :: "'sch cache"
  lk_world :: 'w
  lk_stored :: "string \<Rightarrow> nat"

text \<open>The rest of the function after its second \<open>Load\<close>: fetch, parse, store.\<close>

definition fetch_source ::
  "(string \<Rightarrow> ('w, string) call) \<Rightarrow> (string \<Rightarrow> go_error + 'sch) \<Rightarrow> string \<Rightarrow> ('sch cache \<times> 'w, 'sch) call"
where
  "fetch_source src parse i = (\<lambda>(c, w).
     (case src i w of
        (Inl err, w') \<Rightarrow> (Inl (Errorf ''fetch schema %q: %w'' [i] (Some err)), (c, w'))
      | (Inr raw, w') \<Rightarrow>
          (case parse raw of
             Inl err \<Rightarrow> (Inl (Errorf ''parse schema %q: %w'' [i] (Some err)), (c, w'))
           | Inr sch \<Rightarrow> (Inr sch, (c\<lparr>ca_parsed := (ca_parsed c)(i \<mapsto> sch)\<rparr>, w')))))"

lemma fetch_schema_source:
  "fetch_schema src parse i (c, w) =
     (case ca_parsed c i of Some sch \<Rightarrow> (Inr sch, (c, w)) | None \<Rightarrow> fetch_source src parse i (c, w))"
  by (cases "ca_parsed c i") (simp_all add: fetch_schema_def fetch_source_def)

lemma fetch_source_cases:
  assumes "fetch_source src parse i (c, w) = (r, (c', w'))"
  obtains (ok) sch where "r = Inr sch" "schema_for src parse i sch" "c' = c\<lparr>ca_parsed := (ca_parsed c)(i \<mapsto> sch)\<rparr>"
  | (err) e where "r = Inl e" "c' = c"
proof (cases "src i w")
  case (Pair q w1)
  show thesis
  proof (cases q)
    case (Inl e)
    then show thesis using assms Pair by (intro err) (auto simp: fetch_source_def)
  next
    case (Inr raw)
    then have raw: "raw \<in> source_texts src i" using Pair by (auto simp: source_texts_def)
    show thesis
    proof (cases "parse raw")
      case (Inl e)
      then show thesis using assms Pair \<open>q = Inr raw\<close> by (intro err) (auto simp: fetch_source_def)
    next
      case (Inr sch)
      then show thesis
        using assms Pair \<open>q = Inr raw\<close> raw by (intro ok [of sch]) (auto simp: fetch_source_def schema_for_def)
    qed
  qed
qed

text \<open>The result of the function goes to the caller that ran it and to all that wait for the ID.\<close>

definition deliver :: "string \<Rightarrow> go_error + 'sch \<Rightarrow> 'sch lookup list \<Rightarrow> 'sch lookup list" where
  "deliver i r = map (\<lambda>k. if k = Leading i \<or> k = Sourcing i \<or> k = Awaiting i then Answered i r else k)"

inductive lookup_step ::
  "(string \<Rightarrow> nat \<Rightarrow> 'g \<Rightarrow> bool \<times> 'g) \<Rightarrow> (string \<Rightarrow> 'g \<Rightarrow> 'g) \<Rightarrow> (string \<Rightarrow> ('w, string) call) \<Rightarrow>
   (string \<Rightarrow> go_error + 'sch) \<Rightarrow> (metric \<Rightarrow> 'w \<Rightarrow> 'w) \<Rightarrow> ('g, 'sch, 'w) lookups \<Rightarrow> ('g, 'sch, 'w) lookups \<Rightarrow> bool"
  for enter leave src parse meter
where
  hit: "c < length (lk_callers q) \<Longrightarrow> lk_callers q ! c = Asking i \<Longrightarrow> ca_parsed (lk_cache q) i = Some sch \<Longrightarrow>
    lookup_step enter leave src parse meter q
      (q\<lparr>lk_callers := (lk_callers q)[c := Answered i (Inr sch)],
         lk_world := meter (Inc ''schema_cache_hits_total'' []) (lk_world q)\<rparr>)"
| miss: "c < length (lk_callers q) \<Longrightarrow> lk_callers q ! c = Asking i \<Longrightarrow> ca_parsed (lk_cache q) i = None \<Longrightarrow>
    lookup_step enter leave src parse meter q
      (q\<lparr>lk_callers := (lk_callers q)[c := Missed i],
         lk_world := meter (Inc ''schema_cache_misses_total'' []) (lk_world q)\<rparr>)"
| enters: "c < length (lk_callers q) \<Longrightarrow> lk_callers q ! c = Missed i \<Longrightarrow> enter i c (lk_group q) = (first, g') \<Longrightarrow>
    lookup_step enter leave src parse meter q
      (q\<lparr>lk_callers := (lk_callers q)[c := if first then Leading i else Awaiting i], lk_group := g'\<rparr>)"
| rechecks: "c < length (lk_callers q) \<Longrightarrow> lk_callers q ! c = Leading i \<Longrightarrow> ca_parsed (lk_cache q) i = Some sch \<Longrightarrow>
    lookup_step enter leave src parse meter q
      (q\<lparr>lk_callers := deliver i (Inr sch) (lk_callers q), lk_group := leave i (lk_group q)\<rparr>)"
| goes_on: "c < length (lk_callers q) \<Longrightarrow> lk_callers q ! c = Leading i \<Longrightarrow> ca_parsed (lk_cache q) i = None \<Longrightarrow>
    lookup_step enter leave src parse meter q (q\<lparr>lk_callers := (lk_callers q)[c := Sourcing i]\<rparr>)"
| fetches: "c < length (lk_callers q) \<Longrightarrow> lk_callers q ! c = Sourcing i \<Longrightarrow>
    fetch_source src parse i (lk_cache q, lk_world q) = (r, (ca', w')) \<Longrightarrow>
    lookup_step enter leave src parse meter q
      (q\<lparr>lk_callers := deliver i r (lk_callers q), lk_group := leave i (lk_group q), lk_cache := ca', lk_world := w',
         lk_stored := (if isl r then lk_stored q else (lk_stored q)(i := Suc (lk_stored q i)))\<rparr>)"

text \<open>Any number of callers, each with the ID it asks for, on a new cache.\<close>

definition lookups_start :: "'g \<Rightarrow> string list \<Rightarrow> 'w \<Rightarrow> ('g, 'sch, 'w) lookups" where
  "lookups_start g is w =
     \<lparr>lk_callers = map Asking is, lk_group = g, lk_cache = NewCache, lk_world = w, lk_stored = (\<lambda>_. 0)\<rparr>"

inductive lookups_reach ::
  "'g \<Rightarrow> (string \<Rightarrow> nat \<Rightarrow> 'g \<Rightarrow> bool \<times> 'g) \<Rightarrow> (string \<Rightarrow> 'g \<Rightarrow> 'g) \<Rightarrow> (string \<Rightarrow> ('w, string) call) \<Rightarrow>
   (string \<Rightarrow> go_error + 'sch) \<Rightarrow> (metric \<Rightarrow> 'w \<Rightarrow> 'w) \<Rightarrow> string list \<Rightarrow> 'w \<Rightarrow> ('g, 'sch, 'w) lookups \<Rightarrow> bool"
  for no_flight enter leave src parse meter ids w
where
  called: "lookups_reach no_flight enter leave src parse meter ids w (lookups_start no_flight ids w)"
| stepped: "lookups_reach no_flight enter leave src parse meter ids w q \<Longrightarrow> lookup_step enter leave src parse meter q q' \<Longrightarrow>
    lookups_reach no_flight enter leave src parse meter ids w q'"

section \<open>Each schema is stored once\<close>

context flight_group
begin

text \<open>
  The group's leaders are the callers inside the function, whoever waits has a leader, nobody
  fetches a cached ID, and every answered schema is the cached one.
\<close>

abbreviation at :: "('g, 'sch, 'w) lookups \<Rightarrow> nat \<Rightarrow> 'sch lookup \<Rightarrow> bool" where
  "at q c k \<equiv> c < length (lk_callers q) \<and> lk_callers q ! c = k"

definition led :: "('g, 'sch, 'w) lookups \<Rightarrow> bool" where
  "led q \<longleftrightarrow>
     (\<forall>i c. leader (lk_group q) i = Some c \<longleftrightarrow> at q c (Leading i) \<or> at q c (Sourcing i)) \<and>
     (\<forall>i c. at q c (Awaiting i) \<longrightarrow> leader (lk_group q) i \<noteq> None)"

definition stored_once :: "('g, 'sch, 'w) lookups \<Rightarrow> bool" where
  "stored_once q \<longleftrightarrow>
     (\<forall>i c. at q c (Sourcing i) \<longrightarrow> ca_parsed (lk_cache q) i = None) \<and>
     (\<forall>i c sch. at q c (Answered i (Inr sch)) \<longrightarrow> ca_parsed (lk_cache q) i = Some sch) \<and>
     (\<forall>i. lk_stored q i = (if ca_parsed (lk_cache q) i = None then 0 else 1))"

lemma led_start: "led (lookups_start no_flight ids w)"
  by (simp add: led_def lookups_start_def no_leader)

lemma stored_once_start: "stored_once (lookups_start no_flight ids w)"
  by (simp add: stored_once_def lookups_start_def NewCache_def)

lemma deliver_nth:
  "c < length xs \<Longrightarrow> deliver i r xs ! c =
     (if xs ! c = Leading i \<or> xs ! c = Sourcing i \<or> xs ! c = Awaiting i then Answered i r else xs ! c)"
  by (simp add: deliver_def)

lemma deliver_length [simp]: "length (deliver i r xs) = length xs"
  by (simp add: deliver_def)

lemma deliver_running:
  assumes "c < length xs"
  shows "deliver i r xs ! c = Sourcing j \<longleftrightarrow> xs ! c = Sourcing j \<and> j \<noteq> i"
    "deliver i r xs ! c = Leading j \<longleftrightarrow> xs ! c = Leading j \<and> j \<noteq> i"
    "deliver i r xs ! c = Awaiting j \<longleftrightarrow> xs ! c = Awaiting j \<and> j \<noteq> i"
    "deliver i r xs ! c = Answered j q \<longleftrightarrow>
       xs ! c = Answered j q \<or> j = i \<and> q = r \<and> (xs ! c = Leading i \<or> xs ! c = Sourcing i \<or> xs ! c = Awaiting i)"
  using assms by (auto simp: deliver_nth)

lemma led_move:
  assumes "led q" "at q c k" "lk_group q' = lk_group q" "lk_callers q' = (lk_callers q)[c := k']"
    and "\<And>i. k \<noteq> Leading i \<and> k \<noteq> Sourcing i \<and> k' \<noteq> Leading i \<and> k' \<noteq> Sourcing i \<and> k' \<noteq> Awaiting i"
  shows "led q'"
  using assms unfolding led_def by (auto simp: nth_list_update simp del: not_None_eq)

lemma led_enters:
  assumes "led q" "at q c (Missed i)" "enter i c (lk_group q) = (first, g')"
  shows "led (q\<lparr>lk_callers := (lk_callers q)[c := if first then Leading i else Awaiting i], lk_group := g'\<rparr>)"
proof (cases "leader (lk_group q) i")
  case None
  then have "first" "leader g' = (leader (lk_group q))(i := Some c)" using enter_first assms(3) by blast+
  moreover have "\<not> at q l (Leading i)" "\<not> at q l (Sourcing i)" for l using assms(1) None unfolding led_def by fastforce+
  ultimately show ?thesis using assms(1,2) unfolding led_def by (auto simp: nth_list_update simp del: not_None_eq)
next
  case (Some l)
  then have "\<not> first" "leader g' = leader (lk_group q)" using enter_duplicate assms(3) by blast+
  then show ?thesis using assms(1,2) Some unfolding led_def by (auto simp: nth_list_update simp del: not_None_eq)
qed

lemma led_leaves:
  assumes "led q" "lk_callers q' = deliver i r (lk_callers q)" "lk_group q' = leave i (lk_group q)"
  shows "led q'"
proof -
  have "leader (lk_group q') j = Some c \<longleftrightarrow> at q' c (Leading j) \<or> at q' c (Sourcing j)" for j c
    using assms unfolding led_def by (auto simp: deliver_running leave_frees)
  moreover have "leader (lk_group q') j \<noteq> None" if "at q' c (Awaiting j)" for j c
  proof -
    have "at q c (Awaiting j)" "j \<noteq> i" using that assms(2) deliver_running(3) [of c "lk_callers q" i r j] by auto
    then show ?thesis using assms(1,3) unfolding led_def by (metis fun_upd_other leave_frees)
  qed
  ultimately show ?thesis unfolding led_def by blast
qed

lemma led_step: "lookup_step enter leave src parse meter q q' \<Longrightarrow> led q \<Longrightarrow> led q'"
proof (induction rule: lookup_step.induct)
  case (enters c q i first g')
  then show ?case by (intro led_enters) simp_all
next
  case (goes_on c q i)
  then show ?case unfolding led_def by (auto simp: nth_list_update simp del: not_None_eq)
qed (auto intro: led_move led_leaves)

lemma stored_once_deliver:
  assumes S: "stored_once q" and D: "lk_callers q' = deliver i r (lk_callers q)"
    and other: "\<And>j. j \<noteq> i \<Longrightarrow> ca_parsed (lk_cache q') j = ca_parsed (lk_cache q) j \<and> lk_stored q' j = lk_stored q j"
    and own: "lk_stored q' i = (if ca_parsed (lk_cache q') i = None then 0 else 1)"
      "\<And>sch. r = Inr sch \<or> ca_parsed (lk_cache q) i = Some sch \<Longrightarrow> ca_parsed (lk_cache q') i = Some sch"
  shows "stored_once q'"
  unfolding stored_once_def
proof (intro conjI allI impI)
  fix j c assume "at q' c (Sourcing j)"
  then have "at q c (Sourcing j)" "j \<noteq> i" using D deliver_running(1) [of c "lk_callers q" i r j] by auto
  then show "ca_parsed (lk_cache q') j = None" using S other unfolding stored_once_def by metis
next
  fix j c sch assume "at q' c (Answered j (Inr sch))"
  then have "at q c (Answered j (Inr sch)) \<or> j = i \<and> r = Inr sch"
    using D deliver_running(4) [of c "lk_callers q" i r j "Inr sch"] by auto
  then show "ca_parsed (lk_cache q') j = Some sch" using S other own(2) unfolding stored_once_def by metis
next
  fix j show "lk_stored q' j = (if ca_parsed (lk_cache q') j = None then 0 else 1)"
    using S other [of j] own(1) unfolding stored_once_def by (cases "j = i") simp_all
qed

lemma stored_once_step:
  "lookup_step enter leave src parse meter q q' \<Longrightarrow> stored_once q \<Longrightarrow> stored_once q'"
proof (induction rule: lookup_step.induct)
  case (fetches c q i r ca' w')
  have new: "ca_parsed (lk_cache q) i = None" "lk_stored q i = 0" using fetches unfolding stored_once_def by auto
  from fetches.hyps(3) show ?case
  proof (cases rule: fetch_source_cases)
    case (ok sch)
    then show ?thesis using new by (intro stored_once_deliver [OF fetches.prems, of _ i r]) simp_all
  next
    case (err e)
    then show ?thesis using new by (intro stored_once_deliver [OF fetches.prems, of _ i r]) simp_all
  qed
next
  case (rechecks c q i sch)
  then have "lk_stored q i = 1" by (simp add: stored_once_def)
  with rechecks show ?case by (intro stored_once_deliver [OF rechecks.prems, of _ i "Inr sch"]) auto
qed (auto simp: stored_once_def nth_list_update split: if_splits)

lemma cache_ok_step: "lookup_step enter leave src parse meter q q' \<Longrightarrow> cache_ok src parse (lk_cache q) \<Longrightarrow> cache_ok src parse (lk_cache q')"
proof (induction rule: lookup_step.induct)
  case (fetches c q i r ca' w')
  from fetches.hyps(3) show ?case
    by (cases rule: fetch_source_cases) (use fetches.prems in \<open>auto simp: cache_ok_def map_upd_Some_iff\<close>)
qed simp_all

lemma reach_inv:
  assumes "lookups_reach no_flight enter leave src parse meter ids w q"
  shows "led q" "stored_once q" "cache_ok src parse (lk_cache q)"
proof -
  have "led q \<and> stored_once q \<and> cache_ok src parse (lk_cache q)"
    using assms
  proof (induction rule: lookups_reach.induct)
    case called
    show ?case by (intro conjI led_start stored_once_start) (simp add: lookups_start_def NewCache_ok)
  next
    case (stepped q q')
    then show ?case using led_step stored_once_step cache_ok_step by blast
  qed
  then show "led q" "stored_once q" "cache_ok src parse (lk_cache q)" by simp_all
qed

section \<open>Every lookup is answered\<close>

text \<open>Each step brings its caller further, and as long as one has no answer somebody can step.\<close>

lemma someone_steps:
  assumes "led q" "at q c k" "\<forall>i r. k \<noteq> Answered i r"
  shows "\<exists>q'. lookup_step enter leave src parse meter q q'"
proof -
  have inside: "\<exists>q'. lookup_step enter leave src parse meter q q'" if "at q l (Leading i) \<or> at q l (Sourcing i)" for l i
    using that
  proof
    assume "at q l (Leading i)"
    then show ?thesis
      using lookup_step.rechecks [of l q i] lookup_step.goes_on [of l q i] by (cases "ca_parsed (lk_cache q) i") blast+
  next
    assume "at q l (Sourcing i)"
    then show ?thesis using lookup_step.fetches [of l q i src parse] by (metis prod_cases3)
  qed
  show ?thesis
  proof (cases k)
    case (Asking i)
    then show ?thesis
      using assms(2) lookup_step.hit [of c q i] lookup_step.miss [of c q i] by (cases "ca_parsed (lk_cache q) i") blast+
  next
    case (Missed i)
    then show ?thesis using assms(2) lookup_step.enters [of c q i] by (metis surj_pair)
  next
    case (Awaiting i)
    then show ?thesis using assms(1,2) inside unfolding led_def by blast
  qed (use assms(2,3) inside in blast)+
qed

end

fun lookup_left :: "'sch lookup \<Rightarrow> nat" where
  "lookup_left (Asking i) = 4"
| "lookup_left (Missed i) = 3"
| "lookup_left (Leading i) = 2"
| "lookup_left (Awaiting i) = 1"
| "lookup_left (Sourcing i) = 1"
| "lookup_left (Answered i r) = 0"

lemma deliver_left: "k \<in> set xs \<Longrightarrow> k = Leading i \<or> k = Sourcing i \<Longrightarrow>
  sum_list (map lookup_left (deliver i r xs)) < sum_list (map lookup_left xs)"
proof (induction xs)
  case (Cons x xs)
  have le: "sum_list (map lookup_left (deliver i r ys)) \<le> sum_list (map lookup_left ys)" for ys :: "'a lookup list"
    by (induction ys) (auto simp: deliver_def)
  show ?case
    using Cons le [of xs] by (cases "k \<in> set xs") (auto simp: deliver_def)
qed simp

definition lookups_left :: "('g, 'sch, 'w) lookups \<Rightarrow> nat" where
  "lookups_left q = sum_list (map lookup_left (lk_callers q))"

lemma move_left:
  assumes "c < length xs" "lookup_left k < lookup_left (xs ! c)"
  shows "sum_list (map lookup_left (xs[c := k])) < sum_list (map lookup_left xs)"
  using assms by (induction xs arbitrary: c) (auto split: nat.split)

lemma step_left: "lookup_step enter leave src parse meter q q' \<Longrightarrow> lookups_left q' < lookups_left q"
proof (induction rule: lookup_step.induct)
  case (rechecks c q i sch)
  then have "Leading i \<in> set (lk_callers q)" by (metis nth_mem)
  then show ?case by (simp add: lookups_left_def deliver_left)
next
  case (fetches c q i r ca' w')
  then have "Sourcing i \<in> set (lk_callers q)" by (metis nth_mem)
  then show ?case by (simp add: lookups_left_def deliver_left)
qed (auto simp: lookups_left_def intro!: move_left)

section \<open>Two workers, one schema\<close>

text \<open>Both miss the cache before either enters the group; the second waits for the first.\<close>

definition pair_src :: "string \<Rightarrow> (nat, string) call" where
  "pair_src i n = (Inr i, Suc n)"

abbreviation pair_step :: "(string \<rightharpoonup> nat, string, nat) lookups \<Rightarrow> (string \<rightharpoonup> nat, string, nat) lookups \<Rightarrow> bool" where
  "pair_step \<equiv> lookup_step map_enter map_leave pair_src Inr (\<lambda>m n. n)"

abbreviation pair_reach :: "(string \<rightharpoonup> nat, string, nat) lookups \<Rightarrow> bool" where
  "pair_reach \<equiv> lookups_reach Map.empty map_enter map_leave pair_src Inr (\<lambda>m n. n) [''s'', ''s''] 0"

definition pair_state :: "string lookup \<Rightarrow> string lookup \<Rightarrow> (string \<rightharpoonup> nat) \<Rightarrow> (string \<rightharpoonup> nat, string, nat) lookups" where
  "pair_state k k' g = \<lparr>lk_callers = [k, k'], lk_group = g, lk_cache = NewCache, lk_world = 0, lk_stored = (\<lambda>_. 0)\<rparr>"

lemma pair_waits: "pair_reach (pair_state (Sourcing ''s'') (Awaiting ''s'') [''s'' \<mapsto> 0])"
proof -
  have start: "pair_reach (pair_state (Asking ''s'') (Asking ''s'') Map.empty)"
    using lookups_reach.called [of Map.empty map_enter map_leave pair_src Inr "\<lambda>m n. n" "[''s'', ''s'']" 0]
    by (simp add: lookups_start_def pair_state_def)
  have miss: "pair_step (pair_state (Asking ''s'') k' g) (pair_state (Missed ''s'') k' g)"
    "pair_step (pair_state k (Asking ''s'') g) (pair_state k (Missed ''s'') g)" for k k' g
    using lookup_step.miss [of 0 "pair_state (Asking ''s'') k' g" "''s''"] lookup_step.miss [of 1 "pair_state k (Asking ''s'') g" "''s''"]
    by (simp_all add: pair_state_def NewCache_def)
  have enters: "pair_step (pair_state (Missed ''s'') k' Map.empty) (pair_state (Leading ''s'') k' [''s'' \<mapsto> 0])"
    "pair_step (pair_state k (Missed ''s'') [''s'' \<mapsto> 0]) (pair_state k (Awaiting ''s'') [''s'' \<mapsto> 0])" for k k'
    using lookup_step.enters [of 0 "pair_state (Missed ''s'') k' Map.empty" "''s''" map_enter True]
      lookup_step.enters [of 1 "pair_state k (Missed ''s'') [''s'' \<mapsto> 0]" "''s''" map_enter False]
    by (simp_all add: pair_state_def map_enter_def)
  have goes_on: "pair_step (pair_state (Leading ''s'') k' g) (pair_state (Sourcing ''s'') k' g)" for k' g
    using lookup_step.goes_on [of 0 "pair_state (Leading ''s'') k' g" "''s''"] by (simp add: pair_state_def NewCache_def)
  note lookups_reach.stepped [OF start miss(1)]
  note lookups_reach.stepped [OF this miss(2)]
  note lookups_reach.stepped [OF this enters(1)]
  note lookups_reach.stepped [OF this enters(2)]
  from lookups_reach.stepped [OF this goes_on] show ?thesis .
qed

lemma pair_answered:
  "\<exists>q. pair_reach q \<and> lk_callers q = [Answered ''s'' (Inr ''s''), Answered ''s'' (Inr ''s'')] \<and> lk_world q = 1"
proof -
  let ?q = "pair_state (Sourcing ''s'') (Awaiting ''s'') [''s'' \<mapsto> 0]"
  have "\<exists>q. pair_step ?q q \<and> lk_callers q = [Answered ''s'' (Inr ''s''), Answered ''s'' (Inr ''s'')] \<and> lk_world q = 1"
    using lookup_step.fetches [of 0 ?q "''s''" pair_src Inr]
    by (fastforce simp: pair_state_def fetch_source_def pair_src_def deliver_def)
  then show ?thesis using lookups_reach.stepped [OF pair_waits] by blast
qed

section \<open>Properties\<close>

text \<open>
  C20. However the callers of the schema cache interleave, a schema is stored at most once per ID:
  at most one caller at a time asks the source for an ID, nobody asks again after a success, and all
  callers that get a schema for an ID get the same one, the parse of a text the source returned for
  that ID.
\<close>

theorem schema_stored_once:
  assumes "flight_group no_flight enter leave leader" "lookups_reach no_flight enter leave src parse meter ids w q"
  shows "lk_stored q i \<le> 1 \<and>
    (\<forall>c c'. c < length (lk_callers q) \<longrightarrow> c' < length (lk_callers q) \<longrightarrow>
       lk_callers q ! c = Sourcing i \<longrightarrow> lk_callers q ! c' = Sourcing i \<longrightarrow> c = c') \<and>
    (\<forall>sch. Answered i (Inr sch) \<in> set (lk_callers q) \<longrightarrow>
       ca_parsed (lk_cache q) i = Some sch \<and> schema_for src parse i sch \<and>
       Sourcing i \<notin> set (lk_callers q))"
proof -
  note I = flight_group.reach_inv [OF assms]
  have L: "leader (lk_group q) i = Some c" if "c < length (lk_callers q)" "lk_callers q ! c = Sourcing i" for c
    using I(1) that unfolding flight_group.led_def [OF assms(1)] by blast
  have S: "lk_stored q i \<le> 1" "Sourcing i \<in> set (lk_callers q) \<longrightarrow> ca_parsed (lk_cache q) i = None"
      "Answered i (Inr sch) \<in> set (lk_callers q) \<longrightarrow> ca_parsed (lk_cache q) i = Some sch" for sch
    using I(2) unfolding flight_group.stored_once_def [OF assms(1)] by (auto simp: in_set_conv_nth)
  have "schema_for src parse i sch" if "ca_parsed (lk_cache q) i = Some sch" for sch
    using I(3) that by (simp add: cache_ok_def)
  with L S show ?thesis by (metis option.distinct(1) option.inject)
qed

theorem schema_stored_once_witness:
  "\<exists>q. pair_reach q \<and> lk_callers q = [Answered ''s'' (Inr ''s''), Answered ''s'' (Inr ''s'')] \<and> lk_world q = 1 \<and>
     lk_stored q ''s'' \<le> 1 \<and> ca_parsed (lk_cache q) ''s'' = Some ''s''"
proof -
  obtain q where q: "pair_reach q" "lk_callers q = [Answered ''s'' (Inr ''s''), Answered ''s'' (Inr ''s'')]" "lk_world q = 1"
    using pair_answered by blast
  have "lk_stored q ''s'' \<le> 1 \<and> ca_parsed (lk_cache q) ''s'' = Some ''s''"
    using schema_stored_once [OF map_group.flight_group_axioms q(1), of "''s''"] q(2) by simp
  with q show ?thesis by blast
qed



end
