(* ===== verification/Token_Flight.thy ===== *)
theory Token_Flight
  imports Pubsub_Client Single_Flight
begin

text \<open>
  The token provider of \<open>src/internal/auth/oauth.go\<close> under concurrent callers: every RPC asks for
  the token, the look at the cache and the refresh are separate steps, and \<open>singleflight\<close> lets one
  caller refresh while the others wait.
\<close>

section \<open>Callers\<close>

text \<open>Where a call of \<open>Token\<close> is: before the lock, before \<open>sf.Do\<close>, refreshing, waiting, returned.\<close>

datatype token_call =
    Wanting
  | Stale
  | Refreshing
  | Joining
  | Given "go_error + Credentials"

record ('g, 'w) tokens =
  tk_callers :: "token_call list"
  tk_group :: 'g
  tk_provider :: provider
  tk_world :: 'w

definition hand_out :: "go_error + Credentials \<Rightarrow> token_call list \<Rightarrow> token_call list" where
  "hand_out r = map (\<lambda>k. if k = Refreshing \<or> k = Joining then Given r else k)"

text \<open>Callers arrive and the world moves on (time passes) at any moment.\<close>

inductive token_step ::
  "(string \<Rightarrow> nat \<Rightarrow> 'g \<Rightarrow> bool \<times> 'g) \<Rightarrow> (string \<Rightarrow> 'g \<Rightarrow> 'g) \<Rightarrow>
   (provider \<Rightarrow> ('w, Credentials \<times> duration) call) \<Rightarrow> ('w \<Rightarrow> int) \<Rightarrow> (metric \<Rightarrow> 'w \<Rightarrow> 'w) \<Rightarrow>
   ('g, 'w) tokens \<Rightarrow> ('g, 'w) tokens \<Rightarrow> bool"
  for enter leave fetch now meter
where
  arrives: "token_step enter leave fetch now meter q (q\<lparr>tk_callers := tk_callers q @ [Wanting]\<rparr>)"
| time_passes: "now (tk_world q) \<le> now w' \<Longrightarrow> token_step enter leave fetch now meter q (q\<lparr>tk_world := w'\<rparr>)"
| finds_fresh: "c < length (tk_callers q) \<Longrightarrow> tk_callers q ! c = Wanting \<Longrightarrow> fresh (tk_provider q) (now (tk_world q)) \<Longrightarrow>
    token_step enter leave fetch now meter q
      (q\<lparr>tk_callers := (tk_callers q)[c := Given (Inr (the (pv_cached (tk_provider q))))]\<rparr>)"
| finds_stale: "c < length (tk_callers q) \<Longrightarrow> tk_callers q ! c = Wanting \<Longrightarrow> \<not> fresh (tk_provider q) (now (tk_world q)) \<Longrightarrow>
    token_step enter leave fetch now meter q (q\<lparr>tk_callers := (tk_callers q)[c := Stale]\<rparr>)"
| enters: "c < length (tk_callers q) \<Longrightarrow> tk_callers q ! c = Stale \<Longrightarrow> enter ''refresh'' c (tk_group q) = (first, g') \<Longrightarrow>
    token_step enter leave fetch now meter q
      (q\<lparr>tk_callers := (tk_callers q)[c := if first then Refreshing else Joining], tk_group := g'\<rparr>)"
| refreshes: "c < length (tk_callers q) \<Longrightarrow> tk_callers q ! c = Refreshing \<Longrightarrow>
    refresh fetch now meter (tk_provider q, tk_world q) = (r, (p', w')) \<Longrightarrow>
    token_step enter leave fetch now meter q
      (q\<lparr>tk_callers := hand_out r (tk_callers q), tk_group := leave ''refresh'' (tk_group q), tk_provider := p', tk_world := w'\<rparr>)"

definition tokens_start :: "'g \<Rightarrow> provider \<Rightarrow> 'w \<Rightarrow> ('g, 'w) tokens" where
  "tokens_start g p w = \<lparr>tk_callers = [], tk_group = g, tk_provider = p, tk_world = w\<rparr>"

inductive tokens_reach ::
  "'g \<Rightarrow> (string \<Rightarrow> nat \<Rightarrow> 'g \<Rightarrow> bool \<times> 'g) \<Rightarrow> (string \<Rightarrow> 'g \<Rightarrow> 'g) \<Rightarrow>
   (provider \<Rightarrow> ('w, Credentials \<times> duration) call) \<Rightarrow> ('w \<Rightarrow> int) \<Rightarrow> (metric \<Rightarrow> 'w \<Rightarrow> 'w) \<Rightarrow> provider \<Rightarrow> 'w \<Rightarrow>
   ('g, 'w) tokens \<Rightarrow> bool"
  for no_flight enter leave fetch now meter p w
where
  created: "tokens_reach no_flight enter leave fetch now meter p w (tokens_start no_flight p w)"
| moved: "tokens_reach no_flight enter leave fetch now meter p w q \<Longrightarrow> token_step enter leave fetch now meter q q' \<Longrightarrow>
    tokens_reach no_flight enter leave fetch now meter p w q'"

section \<open>One exchange at a time\<close>

lemma hand_out_nth:
  "c < length xs \<Longrightarrow> hand_out r xs ! c = (if xs ! c = Refreshing \<or> xs ! c = Joining then Given r else xs ! c)"
  by (simp add: hand_out_def)

lemma hand_out_length [simp]: "length (hand_out r xs) = length xs"
  by (simp add: hand_out_def)

context flight_group
begin

definition refresher :: "('g, 'w) tokens \<Rightarrow> bool" where
  "refresher q \<longleftrightarrow>
     (\<forall>c. leader (tk_group q) ''refresh'' = Some c \<longleftrightarrow> c < length (tk_callers q) \<and> tk_callers q ! c = Refreshing) \<and>
     (\<forall>c < length (tk_callers q). tk_callers q ! c = Joining \<longrightarrow> leader (tk_group q) ''refresh'' \<noteq> None)"

lemma refresher_enters:
  assumes R: "refresher q" and c: "c < length (tk_callers q)" "tk_callers q ! c = Stale"
    and e: "enter ''refresh'' c (tk_group q) = (first, g')"
  shows "refresher (q\<lparr>tk_callers := (tk_callers q)[c := if first then Refreshing else Joining], tk_group := g'\<rparr>)"
proof (cases "leader (tk_group q) ''refresh''")
  case None
  then have "first" "leader g' ''refresh'' = Some c" using enter_first [OF None e] by simp_all
  moreover have "tk_callers q ! l \<noteq> Refreshing" if "l < length (tk_callers q)" for l
    using R None that unfolding refresher_def by fastforce
  ultimately show ?thesis using c unfolding refresher_def by (auto simp: nth_list_update)
next
  case (Some l)
  then have "\<not> first" "leader g' = leader (tk_group q)" using enter_duplicate [OF Some e] by simp_all
  then show ?thesis using R c Some unfolding refresher_def by (auto simp: nth_list_update)
qed

lemma refresher_step: "token_step enter leave fetch now meter q q' \<Longrightarrow> refresher q \<Longrightarrow> refresher q'"
proof (induction rule: token_step.induct)
  case (arrives q)
  then show ?case unfolding refresher_def by (auto simp: nth_append less_Suc_eq simp del: not_None_eq)
next
  case (finds_fresh c q)
  then show ?case unfolding refresher_def by (auto simp: nth_list_update simp del: not_None_eq)
next
  case (finds_stale c q)
  then show ?case unfolding refresher_def by (auto simp: nth_list_update simp del: not_None_eq)
next
  case (enters c q first g')
  then show ?case by (intro refresher_enters)
next
  case (refreshes c q r p' w')
  then show ?case unfolding refresher_def by (auto simp: hand_out_nth leave_frees)
qed (simp add: refresher_def del: not_None_eq)

lemma refresher_reach: "tokens_reach no_flight enter leave fetch now meter p w q \<Longrightarrow> refresher q"
proof (induction rule: tokens_reach.induct)
  case created
  show ?case by (simp add: refresher_def tokens_start_def no_leader)
next
  case (moved q q')
  then show ?case using refresher_step by blast
qed

end

section \<open>What the callers get\<close>

definition given_complete :: "('g, 'w) tokens \<Rightarrow> bool" where
  "given_complete q \<longleftrightarrow> provider_ok (tk_provider q) \<and> (\<forall>c. Given (Inr c) \<in> set (tk_callers q) \<longrightarrow> creds_complete c)"

lemma refresh_complete:
  assumes "provider_ok p" "refresh (fetchToken build_error http_post decode url_path) now meter (p, w) = (r, (p', w'))"
  shows "provider_ok p'" "r = Inr c \<Longrightarrow> creds_complete c"
  using assms fetchToken_complete [of build_error http_post decode url_path p w]
  by (fastforce simp: refresh_def provider_ok_def split: prod.splits sum.splits)+

lemma set_hand_out: "Given r' \<in> set (hand_out r xs) \<Longrightarrow> Given r' \<in> set xs \<or> r' = r"
  by (auto simp: hand_out_def)

lemma given_complete_step:
  "token_step enter leave (fetchToken build_error http_post decode url_path) now meter q q' \<Longrightarrow>
     given_complete q \<Longrightarrow> given_complete q'"
proof (induction rule: token_step.induct)
  case (finds_fresh c q)
  have "creds_complete (the (pv_cached (tk_provider q)))"
    using finds_fresh by (auto simp: given_complete_def provider_ok_def fresh_def)
  then show ?case
    using finds_fresh.prems set_update_subset_insert [of "tk_callers q" c] by (auto simp: given_complete_def)
next
  case (finds_stale c q)
  then show ?case using set_update_subset_insert [of "tk_callers q" c] by (fastforce simp: given_complete_def)
next
  case (enters c q first g')
  then show ?case
    using set_update_subset_insert [of "tk_callers q" c "if first then Refreshing else Joining"]
    by (fastforce simp: given_complete_def split: if_splits)
next
  case (refreshes c q r p' w')
  then show ?case
    using refresh_complete [OF _ refreshes.hyps(3)] by (auto simp: given_complete_def dest!: set_hand_out)
qed (auto simp: given_complete_def)

section \<open>A second exchange\<close>

text \<open>
  Two callers look at an empty cache; the first enters the group, refreshes and leaves before the
  second enters.
\<close>

definition counting_fetch :: "provider \<Rightarrow> (nat, Credentials \<times> duration) call" where
  "counting_fetch p n = (Inr (\<lparr>cr_AccessToken = ''a'', cr_InstanceURL = ''i'', cr_TenantID = ''t''\<rparr>, 3600 * 10 ^ 9), Suc n)"

abbreviation counting_step :: "(string \<rightharpoonup> nat, nat) tokens \<Rightarrow> (string \<rightharpoonup> nat, nat) tokens \<Rightarrow> bool" where
  "counting_step \<equiv> token_step map_enter map_leave counting_fetch (\<lambda>n. 0) (\<lambda>m n. n)"

abbreviation counting_reach :: "provider \<Rightarrow> (string \<rightharpoonup> nat, nat) tokens \<Rightarrow> bool" where
  "counting_reach p \<equiv> tokens_reach Map.empty map_enter map_leave counting_fetch (\<lambda>n. 0) (\<lambda>m n. n) p 0"

text \<open>
  The refresh is not checked again inside \<open>sf.Do\<close>: a caller that saw a stale cache exchanges a second
  time although the cache is fresh by then.
\<close>

lemma stale_caller_exchanges_again:
  assumes p: "p = NewProvider cfg []"
  shows "\<exists>q q'. counting_reach p q \<and> fresh (tk_provider q) 0 \<and> tk_world q = 1 \<and>
    counting_step q q' \<and> tk_world q' = 2"
proof -
  let ?q = "\<lambda>ks g p n. \<lparr>tk_callers = ks, tk_group = g, tk_provider = p, tk_world = n\<rparr> :: (string \<rightharpoonup> nat, nat) tokens"
  let ?c = "\<lparr>cr_AccessToken = ''a'', cr_InstanceURL = ''i'', cr_TenantID = ''t''\<rparr>"
  let ?p = "p\<lparr>pv_cached := Some ?c, pv_expiresAt := 3600 * 10 ^ 9\<rparr>"
  note R = tokens_reach.moved
  have "counting_reach p (?q [] Map.empty p 0)"
    using tokens_reach.created [of Map.empty map_enter map_leave counting_fetch "\<lambda>n. 0" "\<lambda>m n. n" p 0] by (simp add: tokens_start_def)
  from R [OF this token_step.arrives] have "counting_reach p (?q [Wanting] Map.empty p 0)" by simp
  from R [OF this token_step.arrives] have "counting_reach p (?q [Wanting, Wanting] Map.empty p 0)" by simp
  from R [OF this token_step.finds_stale [of 0]] have "counting_reach p (?q [Stale, Wanting] Map.empty p 0)"
    by (simp add: p fresh_def NewProvider_def)
  from R [OF this token_step.finds_stale [of 1]] have "counting_reach p (?q [Stale, Stale] Map.empty p 0)"
    by (simp add: p fresh_def NewProvider_def)
  from R [OF this token_step.enters [of 0 _ map_enter True]] have "counting_reach p (?q [Refreshing, Stale] [''refresh'' \<mapsto> 0] p 0)"
    by (simp add: map_enter_def)
  from R [OF this token_step.refreshes [of 0 _ counting_fetch _ _ "Inr ?c" ?p 1]]
  have "counting_reach p (?q [Given (Inr ?c), Stale] Map.empty ?p 1)"
    by (simp add: refresh_def counting_fetch_def hand_out_def map_leave_def)
  from R [OF this token_step.enters [of 1 _ map_enter True]]
  have reach: "counting_reach p (?q [Given (Inr ?c), Refreshing] [''refresh'' \<mapsto> 1] ?p 1)" by (simp add: map_enter_def)
  have fresh: "fresh ?p 0" by (simp add: fresh_def p NewProvider_def defaultRefreshAhead_def)
  let ?last = "?q [Given (Inr ?c), Refreshing] [''refresh'' \<mapsto> 1] ?p 1"
  have "\<exists>q'. counting_step ?last q' \<and> tk_world q' = 2"
    using token_step.refreshes [of 1 ?last counting_fetch "\<lambda>n. 0" "\<lambda>m n. n" "Inr ?c" ?p 2]
    by (fastforce simp: refresh_def counting_fetch_def)
  then obtain q' where "counting_step ?last q'" "tk_world q' = 2" by blast
  then show ?thesis using reach fresh by (intro exI [of _ ?last] exI [of _ q']) simp
qed

section \<open>Properties\<close>

text \<open>
  C24. Concurrent callers of \<open>Token\<close>: at most one of them talks to the token endpoint at a time,
  whoever waits has somebody refreshing, the cache holds complete credentials or none, and every
  caller that is given credentials is given complete ones (no empty token, URL or tenant).
\<close>

theorem concurrent_tokens_complete:
  assumes "flight_group no_flight enter leave leader" "provider_ok p"
    and "tokens_reach no_flight enter leave (fetchToken build_error http_post decode url_path) now meter p w q"
  shows "(\<forall>c c'. c < length (tk_callers q) \<longrightarrow> c' < length (tk_callers q) \<longrightarrow>
       tk_callers q ! c = Refreshing \<longrightarrow> tk_callers q ! c' = Refreshing \<longrightarrow> c = c') \<and>
    (Joining \<in> set (tk_callers q) \<longrightarrow> Refreshing \<in> set (tk_callers q)) \<and> provider_ok (tk_provider q) \<and>
    (\<forall>c. Given (Inr c) \<in> set (tk_callers q) \<longrightarrow> creds_complete c)"
proof -
  have R: "\<And>c. leader (tk_group q) ''refresh'' = Some c \<longleftrightarrow> c < length (tk_callers q) \<and> tk_callers q ! c = Refreshing"
      "\<And>c. c < length (tk_callers q) \<Longrightarrow> tk_callers q ! c = Joining \<Longrightarrow> leader (tk_group q) ''refresh'' \<noteq> None"
    using flight_group.refresher_reach [OF assms(1,3)] unfolding flight_group.refresher_def [OF assms(1)] by blast+
  have "given_complete q"
    using assms(3)
  proof (induction rule: tokens_reach.induct)
    case created
    then show ?case using assms(2) by (simp add: given_complete_def tokens_start_def)
  next
    case (moved q q')
    then show ?case using given_complete_step by blast
  qed
  moreover have "Refreshing \<in> set (tk_callers q)" if "Joining \<in> set (tk_callers q)"
    using that R by (metis in_set_conv_nth not_None_eq)
  moreover have "c = c'" if "c < length (tk_callers q)" "c' < length (tk_callers q)"
      "tk_callers q ! c = Refreshing" "tk_callers q ! c' = Refreshing" for c c'
    using that R(1) by (metis option.inject)
  ultimately show ?thesis by (auto simp: given_complete_def)
qed

definition demo_exchange :: "provider \<Rightarrow> (nat, Credentials \<times> duration) call" where
  "demo_exchange = fetchToken (\<lambda>_. None) (\<lambda>c u f n. (Inr (200, Inr ''{}''), Suc n))
     (\<lambda>_. Inr \<lparr>tr_AccessToken = ''tok'', tr_InstanceURL = ''https://x'', tr_ID = ''https://h/id/00D/005'',
        tr_TokenType = ''Bearer'', tr_IssuedAt = [], tr_ExpiresIn = 7200\<rparr>) (\<lambda>_. Inr ''/id/00D/005'')"

theorem concurrent_tokens_complete_witness:
  "\<exists>q c. tokens_reach Map.empty map_enter map_leave demo_exchange (\<lambda>n. 0) (\<lambda>m n. n)
       (NewProvider \<lparr>sf_ClientID = ''x'', sf_ClientSecret = ''y'', sf_LoginURL = ''https://h/''\<rparr> []) (0::nat) q \<and>
     tk_callers q = [Given (Inr c)] \<and> cr_TenantID c = ''00D'' \<and> creds_complete c"
proof -
  let ?p = "NewProvider \<lparr>sf_ClientID = ''x'', sf_ClientSecret = ''y'', sf_LoginURL = ''https://h/''\<rparr> []"
  let ?reach = "tokens_reach Map.empty map_enter map_leave demo_exchange (\<lambda>n. 0) (\<lambda>m n. n) ?p 0"
  let ?q = "\<lambda>ks g p n. \<lparr>tk_callers = ks, tk_group = g, tk_provider = p, tk_world = n\<rparr> :: (string \<rightharpoonup> nat, nat) tokens"
  let ?c = "\<lparr>cr_AccessToken = ''tok'', cr_InstanceURL = ''https://x'', cr_TenantID = ''00D''\<rparr>"
  note R = tokens_reach.moved
  have "?reach (?q [] Map.empty ?p 0)"
    using tokens_reach.created [of Map.empty map_enter map_leave demo_exchange "\<lambda>n. 0" "\<lambda>m n. n" ?p 0] by (simp add: tokens_start_def)
  from R [OF this token_step.arrives] have "?reach (?q [Wanting] Map.empty ?p 0)" by simp
  from R [OF this token_step.finds_stale [of 0]] have "?reach (?q [Stale] Map.empty ?p 0)" by (simp add: fresh_def NewProvider_def)
  from R [OF this token_step.enters [of 0 _ map_enter True]] have s: "?reach (?q [Refreshing] [''refresh'' \<mapsto> 0] ?p 0)"
    by (simp add: map_enter_def)
  have "demo_exchange ?p 0 = (Inr (?c, 7200 * 10 ^ 9), 1)"
    by (simp add: demo_exchange_def fetchToken_def tenantIDFromIdentityURL_def trim_slash_def trim_right_slash_def Let_def int64_wrap_def)
  from R [OF s token_step.refreshes [of 0 _ demo_exchange _ _ "Inr ?c"]] this
  have "\<exists>q. ?reach q \<and> tk_callers q = [Given (Inr ?c)]"
    by (fastforce simp: refresh_def hand_out_def)
  then obtain q where q: "?reach q" "tk_callers q = [Given (Inr ?c)]" by blast
  have "provider_ok ?p" by (simp add: provider_ok_def NewProvider_def)
  from concurrent_tokens_complete [OF map_group.flight_group_axioms this q(1) [unfolded demo_exchange_def]] q(2)
  have "creds_complete ?c" by simp
  with q show ?thesis by (intro exI [of _ q] exI [of _ ?c]) simp
qed

end
