(* ===== verification/Stream_Life.thy ===== *)
theory Stream_Life
  imports Subscriber
begin

text \<open>
  One subscriber over its whole life (\<open>Run\<close> and \<open>runOnce\<close> of \<open>src/internal/pubsub/subscriber.go\<close>): the
  streams it opens one after another, the sender and the receiver goroutine of each, and the
  flow-control window they share with the workers' acknowledgements.
\<close>

section \<open>State\<close>

text \<open>A goroutine of the stream is running, or has put its error into its channel.\<close>

datatype side = Working | Ended "go_error option"

datatype life_phase = BetweenStreams | Streaming | RunReturned

text \<open>
  \<open>x_ctx\<close> and \<open>x_streamCtx\<close> say whether the two contexts are canceled, \<open>x_first\<close> is what the \<open>select\<close> of
  \<open>runOnce\<close> received and \<open>x_result\<close> what \<open>runOnce\<close> last returned. History variables: \<open>x_credit\<close> is the
  number of events the server may still send on the open stream, \<open>x_unacked\<close> the number of events
  sent on and not yet acknowledged, \<open>x_opened\<close> the number of streams opened.
\<close>

record stream_life =
  x_sub :: subscriber
  x_phase :: life_phase
  x_sender :: side
  x_receiver :: side
  x_ctx :: bool
  x_streamCtx :: bool
  x_first :: "go_error option option"
  x_result :: "go_error option"
  x_credit :: int
  x_unacked :: int
  x_opened :: nat

definition life_start :: "string \<Rightarrow> int \<Rightarrow> stream_life" where
  "life_start topic batchSize =
     \<lparr>x_sub = NewSubscriber topic batchSize, x_phase = BetweenStreams, x_sender = Ended None, x_receiver = Ended None,
      x_ctx = False, x_streamCtx = False, x_first = None, x_result = None, x_credit = 0, x_unacked = 0, x_opened = 0\<rparr>"

section \<open>Steps\<close>

text \<open>
  The server sends at most as many events as it was asked for. An opening that fails leaves
  everything as it is, apart from the error \<open>runOnce\<close> returns.
\<close>

inductive life_step :: "stream_life \<Rightarrow> stream_life \<Rightarrow> bool" where
  opens: "x_phase x = BetweenStreams \<Longrightarrow>
    life_step x (x\<lparr>x_phase := Streaming, x_sender := Working, x_receiver := Working, x_streamCtx := x_ctx x, x_first := None,
      x_credit := s_batchSize (x_sub x), x_opened := Suc (x_opened x)\<rparr>)"
| opening_fails: "x_phase x = BetweenStreams \<Longrightarrow> life_step x (x\<lparr>x_result := Some err\<rparr>)"
| delivers: "x_phase x = Streaming \<Longrightarrow> x_receiver x = Working \<Longrightarrow> 0 < x_credit x \<Longrightarrow>
    length (s_out (x_sub x)) < subscriberOutBuffer \<Longrightarrow>
    life_step x (x\<lparr>x_sub := emit e now (x_sub x), x_credit := x_credit x - 1, x_unacked := x_unacked x + 1\<rparr>)"
| recv_fails: "x_phase x = Streaming \<Longrightarrow> x_receiver x = Working \<Longrightarrow> life_step x (x\<lparr>x_receiver := Ended (Some err)\<rparr>)"
| receiver_stops: "x_phase x = Streaming \<Longrightarrow> x_receiver x = Working \<Longrightarrow> x_streamCtx x \<Longrightarrow>
    life_step x (x\<lparr>x_receiver := Ended None\<rparr>)"
| asks: "x_phase x = Streaming \<Longrightarrow> x_sender x = Working \<Longrightarrow> s_ackWake (x_sub x) \<Longrightarrow>
    sender_swap (sender_take (x_sub x)) = (n, sub') \<Longrightarrow>
    life_step x (x\<lparr>x_sub := sub', x_credit := x_credit x + (if n \<le> 0 then 0 else clampToInt32 n)\<rparr>)"
| ask_fails: "x_phase x = Streaming \<Longrightarrow> x_sender x = Working \<Longrightarrow> s_ackWake (x_sub x) \<Longrightarrow>
    sender_swap (sender_take (x_sub x)) = (n, sub') \<Longrightarrow> 0 < n \<Longrightarrow>
    life_step x (x\<lparr>x_sub := sub', x_sender := Ended (Some (Errorf ''send replenish: %w'' [] (Some err)))\<rparr>)"
| sender_stops: "x_phase x = Streaming \<Longrightarrow> x_sender x = Working \<Longrightarrow> x_streamCtx x \<Longrightarrow> life_step x (x\<lparr>x_sender := Ended None\<rparr>)"
| select_sender: "x_phase x = Streaming \<Longrightarrow> x_first x = None \<Longrightarrow> x_sender x = Ended e \<Longrightarrow>
    life_step x (x\<lparr>x_first := Some e, x_streamCtx := True\<rparr>)"
| select_receiver: "x_phase x = Streaming \<Longrightarrow> x_first x = None \<Longrightarrow> x_receiver x = Ended e \<Longrightarrow>
    life_step x (x\<lparr>x_first := Some e, x_streamCtx := True\<rparr>)"
| run_once_returns: "x_phase x = Streaming \<Longrightarrow> x_first x = Some e \<Longrightarrow> x_sender x = Ended e1 \<Longrightarrow> x_receiver x = Ended e2 \<Longrightarrow>
    life_step x (x\<lparr>x_phase := BetweenStreams, x_result := (if x_ctx x then None else e), x_credit := 0\<rparr>)"
| run_returns: "x_phase x = BetweenStreams \<Longrightarrow> x_ctx x \<Longrightarrow> life_step x (x\<lparr>x_phase := RunReturned\<rparr>)"
| ctx_ends: "life_step x (x\<lparr>x_ctx := True, x_streamCtx := True\<rparr>)"
| acks: "0 < x_unacked x \<Longrightarrow> life_step x (x\<lparr>x_sub := Ack 1 (x_sub x), x_unacked := x_unacked x - 1\<rparr>)"

inductive life_reach :: "string \<Rightarrow> int \<Rightarrow> stream_life \<Rightarrow> bool" for topic batchSize where
  begun: "life_reach topic batchSize (life_start topic batchSize)"
| went_on: "life_reach topic batchSize x \<Longrightarrow> life_step x x' \<Longrightarrow> life_reach topic batchSize x'"

section \<open>The window\<close>

abbreviation window :: "stream_life \<Rightarrow> int" where
  "window x \<equiv> x_credit x + x_unacked x + s_pendingAck (x_sub x)"

definition window_inv :: "int \<Rightarrow> stream_life \<Rightarrow> bool" where
  "window_inv b x \<longleftrightarrow>
     s_batchSize (x_sub x) = b \<and> 0 \<le> x_credit x \<and> 0 \<le> x_unacked x \<and> 0 \<le> s_pendingAck (x_sub x) \<and>
     window x \<le> b * int (x_opened x) \<and>
     (x_phase x = Streaming \<and> x_sender x = Working \<longrightarrow> b \<le> window x)"

definition alone_inv :: "stream_life \<Rightarrow> bool" where
  "alone_inv x \<longleftrightarrow> (x_phase x \<noteq> Streaming \<longrightarrow> x_sender x \<noteq> Working \<and> x_receiver x \<noteq> Working)"

lemma opened_mono: "life_step x x' \<Longrightarrow> x_opened x \<le> x_opened x'"
  by (induction rule: life_step.induct) auto

lemma alone_step: "life_step x x' \<Longrightarrow> alone_inv x \<Longrightarrow> alone_inv x'"
  by (induction rule: life_step.induct) (auto simp: alone_inv_def)

lemma window_step:
  assumes "life_step x x'" "window_inv b x" "0 \<le> b" "b * int (x_opened x') < 2 ^ 31"
  shows "window_inv b x'"
  using assms
proof (induction rule: life_step.induct)
  case (opens x)
  then show ?case by (auto simp: window_inv_def algebra_simps)
next
  case (asks x n sub')
  then have "n = s_pendingAck (x_sub x)" "sub' = (x_sub x)\<lparr>s_ackWake := False, s_pendingAck := 0\<rparr>" "n < 2 ^ 31"
    by (auto simp: window_inv_def sender_swap_def sender_take_def)
  then show ?case using asks.prems by (auto simp: window_inv_def clampToInt32_id)
next
  case (ask_fails x n sub' err)
  then show ?case by (auto simp: window_inv_def sender_swap_def sender_take_def)
next
  case (acks x)
  then have "int64_wrap (s_pendingAck (x_sub x) + 1) = s_pendingAck (x_sub x) + 1"
    by (intro int64_wrap_id) (auto simp: window_inv_def)
  then show ?case using acks by (auto simp: window_inv_def Ack_def ack_add_def ack_wake_def)
qed (auto simp: window_inv_def)

lemma life_inv_reach:
  assumes "life_reach topic batchSize x" "clampToInt32 batchSize * int (x_opened x) < 2 ^ 31"
  shows "window_inv (clampToInt32 batchSize) x" "alone_inv x"
proof -
  have b: "0 \<le> clampToInt32 batchSize" using clampToInt32_range by simp
  have "window_inv (clampToInt32 batchSize) x \<and> alone_inv x"
    using assms
  proof (induction rule: life_reach.induct)
    case begun
    show ?case by (simp add: window_inv_def alone_inv_def life_start_def NewSubscriber_def)
  next
    case (went_on x x')
    have "clampToInt32 batchSize * int (x_opened x) \<le> clampToInt32 batchSize * int (x_opened x')"
      using opened_mono [OF went_on.hyps(2)] b by (intro mult_left_mono) auto
    then have "window_inv (clampToInt32 batchSize) x \<and> alone_inv x" using went_on.IH went_on.prems by linarith
    then show ?case using window_step [OF went_on.hyps(2) _ b went_on.prems] alone_step [OF went_on.hyps(2)] by blast
  qed
  then show "window_inv (clampToInt32 batchSize) x" "alone_inv x" by simp_all
qed

section \<open>Two streams\<close>

text \<open>
  With a batch size of 1: a stream delivers one event and breaks, the next one asks for a full batch
  again and delivers another, while the first is still unacknowledged.
\<close>

definition two_streams :: "nat \<Rightarrow> life_phase \<Rightarrow> side \<Rightarrow> side \<Rightarrow> bool \<Rightarrow> go_error option option \<Rightarrow> go_error option \<Rightarrow>
  int \<Rightarrow> nat \<Rightarrow> stream_life" where
  "two_streams n ph sdr rcv cancel first res credit k =
     (life_start ''t'' 1)\<lparr>x_sub := ((emit None 0) ^^ n) (NewSubscriber ''t'' 1), x_phase := ph, x_sender := sdr, x_receiver := rcv,
        x_streamCtx := cancel, x_first := first, x_result := res, x_credit := credit, x_unacked := int n, x_opened := k\<rparr>"

lemma two_streams_run:
  "life_reach ''t'' 1 (two_streams 2 Streaming Working Working False None (Some IoEOF) 0 2)"
proof -
  let ?d = "\<lambda>x. (life_reach ''t'' 1 x)"
  have go: "?d x \<Longrightarrow> life_step x x' \<Longrightarrow> ?d x'" for x x' by (rule life_reach.went_on)
  have batch: "s_batchSize (((emit None 0) ^^ n) (NewSubscriber ''t'' 1)) = 1"
    "length (s_out (((emit None 0) ^^ n) (NewSubscriber ''t'' 1))) = n" for n
    by (induction n) (simp_all add: NewSubscriber_def clampToInt32_def maxInt32_def)
  have opens: "life_step (two_streams n BetweenStreams s r c f res 0 k) (two_streams n Streaming Working Working False None res 1 (Suc k))"
    for n s r c f res k
    using life_step.opens [of "two_streams n BetweenStreams s r c f res 0 k"]
    by (simp add: two_streams_def life_start_def batch)
  have delivers: "life_step (two_streams n Streaming Working Working False None res 1 k) (two_streams (Suc n) Streaming Working Working False None res 0 k)"
    if "n < 1024" for n res k
    using life_step.delivers [of "two_streams n Streaming Working Working False None res 1 k" None 0] that
    by (simp add: two_streams_def life_start_def batch subscriberOutBuffer_def add.commute)
  have "?d (two_streams 0 BetweenStreams (Ended None) (Ended None) False None None 0 0)"
    using life_reach.begun [of "''t''" 1] by (simp add: two_streams_def life_start_def)
  from go [OF this opens] have "?d (two_streams 0 Streaming Working Working False None None 1 1)" by simp
  from go [OF this delivers] have "?d (two_streams 1 Streaming Working Working False None None 0 1)" by simp
  from go [OF this life_step.recv_fails [where err = IoEOF]]
  have "?d (two_streams 1 Streaming Working (Ended (Some IoEOF)) False None None 0 1)" by (simp add: two_streams_def life_start_def)
  from go [OF this life_step.select_receiver]
  have "?d (two_streams 1 Streaming Working (Ended (Some IoEOF)) True (Some (Some IoEOF)) None 0 1)" by (simp add: two_streams_def life_start_def)
  from go [OF this life_step.sender_stops]
  have "?d (two_streams 1 Streaming (Ended None) (Ended (Some IoEOF)) True (Some (Some IoEOF)) None 0 1)" by (simp add: two_streams_def life_start_def)
  from go [OF this life_step.run_once_returns]
  have "?d (two_streams 1 BetweenStreams (Ended None) (Ended (Some IoEOF)) True (Some (Some IoEOF)) (Some IoEOF) 0 1)"
    by (simp add: two_streams_def life_start_def)
  from go [OF this opens] have "?d (two_streams 1 Streaming Working Working False None (Some IoEOF) 1 2)"
    by (simp add: numeral_2_eq_2)
  from go [OF this delivers] show ?thesis by (simp add: numeral_2_eq_2)
qed

section \<open>Properties\<close>

text \<open>
  C11. The flow-control window over all streams of a subscriber. The events sent on and not yet
  acknowledged never outnumber the batch size times the streams opened: one stream keeps to the
  batch size, but each reconnect asks for a full batch again while older events are still in flight.
  As long as the sender runs, credit, unacknowledged events and pending acknowledgements together
  never fall below the batch size, so acknowledging everything always reopens a full window, however
  many streams have failed in between. And no goroutine of a stream is left when the next one opens.
\<close>

theorem flow_window_bounded:
  assumes "life_reach topic batchSize x" "b = clampToInt32 batchSize" "b * int (x_opened x) < 2 ^ 31"
  shows "0 \<le> x_unacked x \<and> x_unacked x \<le> b * int (x_opened x) \<and>
    (x_phase x = Streaming \<and> x_sender x = Working \<longrightarrow>
       b \<le> x_credit x + x_unacked x + s_pendingAck (x_sub x)) \<and>
    (x_phase x \<noteq> Streaming \<longrightarrow> x_sender x \<noteq> Working \<and> x_receiver x \<noteq> Working)"
  using life_inv_reach [OF assms(1)] assms(2,3) by (simp add: window_inv_def alone_inv_def)

theorem flow_window_bounded_witness:
  "\<exists>x. life_reach ''t'' 1 x \<and> x_opened x = 2 \<and> x_unacked x = 2 \<and> x_unacked x \<le> clampToInt32 1 * int (x_opened x) \<and>
     clampToInt32 1 \<le> x_credit x + x_unacked x + s_pendingAck (x_sub x)"
proof -
  let ?x = "two_streams 2 Streaming Working Working False None (Some IoEOF) 0 2"
  have s: "x_opened ?x = 2" "x_unacked ?x = 2" "x_phase ?x = Streaming" "x_sender ?x = Working" by (simp_all add: two_streams_def)
  have b: "clampToInt32 1 * int (x_opened ?x) < 2 ^ 31" by (simp add: s clampToInt32_def maxInt32_def)
  show ?thesis
    using flow_window_bounded [OF two_streams_run refl b] s two_streams_run by (intro exI [of _ ?x]) simp
qed

end
