(* ===== verification/Spec2Isabelle.thy ===== *)
theory Spec2Isabelle
  imports Go_Prelude Committer Services Handlers Storage Root_Handler Worker_Pool Subscriber Pipeline
    Pipeline_Safety Service_Wiring Client_Wiring Scheduler Auth Pubsub_Client Metrics Config Health App_Start App_Run App_Shutdown
    Program_Life Single_Flight Schema_Flight Token_Flight Stream_Life
begin

text \<open>
  A verification of the event processor in \<open>src/\<close>: a service that subscribes to Salesforce
  Pub/Sub topics, decodes the Avro events, stores them in PostgreSQL, optionally forwards them to
  Kafka, and resumes after a restart from a replay cursor it commits to the database.

  \<^bold>\<open>The program.\<close> For each topic a subscriber (\<open>internal/pubsub\<close>) opens a stream, numbers the events
  it receives and sends them on; a fan-in per topic moves them to one channel (\<open>internal/app\<close>); the
  workers (\<open>internal/worker\<close>) take an event, fetch its schema through a cache (\<open>internal/schema\<close>),
  decode it and run the root handler (\<open>internal/handler\<close>: persist, then forward, wrapped by the dedup
  cache), retrying until it succeeds. A finished event is acknowledged: the committer
  (\<open>internal/replay\<close>) lets the topic's cursor move over a finished prefix and the subscriber gets a
  flow-control slot back. Around this core are the token provider (\<open>internal/auth\<close>), the gRPC client
  with its retrying interceptor, the configuration, the health endpoints and HTTP server, the
  metrics, and the start and stop of the process (\<open>internal/app\<close>, \<open>cmd/processor\<close>).

  \<^bold>\<open>The theories.\<close>
  \<^item> \<open>Go_Prelude\<close>: how Go values appear (strings and bytes, \<open>uint64\<close> as words, errors as values, calls on
    the outside world as functions of it), generic lemmas.
  \<^item> \<open>Events\<close>: the wire messages (\<open>proto/salesforce\<close>), \<open>RawEvent\<close>, \<open>DecodedEvent\<close>.
  \<^item> \<open>Services\<close>: PostgreSQL, Redis and Kafka. The locale \<open>services\<close> is what the code relies on: every
    call may fail, and a failed call may or may not have taken effect. It is interpreted on the SQL of
    \<open>internal/storage\<close> with an arbitrary script of faults. \<open>sv_keys\<close> over-approximates Redis: keys that
    expire only disappear from the real one, and no law promises that a key is found.
  \<^item> \<open>Committer\<close> (\<open>internal/replay/committer.go\<close>): cursors, \<open>Done\<close>, \<open>Flush\<close>; an abstract specification
    (\<open>low_water\<close>, \<open>spec_cursor\<close> over the set of finished positions) and the refinement of it; the locale
    \<open>cursor_store\<close>, interpreted by the store.
  \<^item> \<open>Storage\<close>, \<open>Redis_Cache\<close>, \<open>Kafka_Producer\<close>, \<open>Base64\<close>, \<open>Handlers\<close>, \<open>Root_Handler\<close>: the stages of the
    handler. The locale \<open>event_handler\<close> is the promise of a handler that returns nil; \<open>chain_stages\<close> and
    \<open>dedup_stage\<close> derive it for the chain and for the dedup wrapper.
  \<^item> \<open>Schema_Cache\<close>, \<open>Worker_Pool\<close>, \<open>Backoff\<close>, \<open>Subscriber\<close>: the schema lookup, \<open>process\<close> with its retry
    loop (a \<open>partial_function\<close>: not returning is \<open>None\<close>), the delays with their int64 overflow, the
    subscriber's operations and the interleaving of \<open>Ack\<close> with the stream's sender.
  \<^item> \<open>Pipeline\<close>: \<open>App.Run\<close> as a transition system; one rule is one atomic step of one goroutine, and
    \<open>service\<close> adds crashes and restarts. \<open>Pipeline_Safety\<close> proves its invariant over the locale
    \<open>pipeline\<close>, which \<open>Service_Wiring\<close> interprets on the parts that \<open>New\<close> wires together (locale \<open>wired\<close>,
    with any schema source); \<open>Client_Wiring\<close> derives \<open>wired\<close> for the source \<open>New\<close> builds, the retrying
    \<open>GetSchema\<close> of \<open>Pubsub_Client\<close>. \<open>Scheduler\<close> makes the steps of the streams and workers executable.
  \<^item> \<open>App_Run\<close>, \<open>App_Shutdown\<close>: \<open>App.Run\<close> once more, with the lifetimes of its goroutines (who returns
    when, when \<open>events\<close> is closed, the final flush, \<open>g.Wait\<close>); its data moves by the steps of \<open>Scheduler\<close>
    and every step is a step of \<open>Pipeline\<close> (\<open>app_step_pipe\<close>), so the invariant carries over.
  \<^item> \<open>Program_Life\<close>: the command from start to exit and again: \<open>run\<close> of \<open>main.go\<close> around \<open>New\<close>, \<open>App.Run\<close> and
    \<open>Close\<close>, over any sequence of lives of the process (locales \<open>program_calls\<close>, \<open>program_services\<close>).
  \<^item> \<open>Stream_Life\<close>: \<open>Run\<close> and \<open>runOnce\<close> of one subscriber, with the two goroutines of each stream and the
    flow-control window over all of them.
  \<^item> \<open>Single_Flight\<close>, \<open>Schema_Flight\<close>, \<open>Token_Flight\<close>: the schema cache and the token provider under
    concurrent callers, over the locale \<open>flight_group\<close> (what \<open>singleflight\<close> documents).
  \<^item> \<open>Auth\<close> (\<open>internal/auth\<close>), \<open>Pubsub_Client\<close> (\<open>client.go\<close>, \<open>interceptor.go\<close>, \<open>credentials.go\<close>), \<open>Config\<close>
    (\<open>internal/config\<close>, with \<open>net.SplitHostPort\<close>), \<open>Metrics\<close> (the collectors of all components and their
    registration; locale \<open>registry\<close>), \<open>Health\<close> (\<open>internal/health\<close>, \<open>internal/httpserver\<close>), \<open>App_Start\<close>
    (\<open>New\<close> and the options it makes its clients with, \<open>Close\<close>, the result of \<open>Run\<close>, migrations, logger,
    \<open>main.run\<close>; locale \<open>resources\<close>).

  \<^bold>\<open>What is shown.\<close> No event between two committed cursors is lost, whatever fails or crashes (C1), and
  cursors never move back (C2); C23 says so of the program from the first line of \<open>run\<close> on, over any
  number of starts. A shutdown commits everything that is finished (C5), can always complete (C8) and
  uses the channels correctly (C28). This rests on the committer (C3, C4, C6, C7, C30), the store
  (C37), the handler (C9, C10, C39), the workers (C12, C13), the subscriber (C11, C14-C18, C21) and
  the schema cache (C19, C20). The edges: credentials (C24, C26), RPC retries (C25), configuration
  (C29), metrics (C31, C35), readiness (C32), resources (C33, C34), exit status (C36). Some theorems
  show where the code stops short of what its comments promise: C14, C17, C22, C27, C38, C40.

  \<^bold>\<open>Bounds and loops.\<close> The interceptor's loop is bounded by its five attempts; the committer's by the
  entries of its map. The retry loop of a worker may run forever and is not bounded: C13 shows that it
  returns, C22 and C27 that it need not. Shutdown and concurrent lookups end by a decreasing measure
  (\<open>work_left\<close>, \<open>lookups_left\<close>). The pipeline's theorems hold for histories of any length; they
  assume that the configured topics are different, that the events of a topic have different replay
  IDs, and fewer than \<open>2^64 - 1\<close> events per topic; C11 and C16 assume fewer than \<open>2^31\<close> requested events.

  \<^bold>\<open>Not modelled.\<close> Log output; the libraries themselves (pgx, go-redis, franz-go, gRPC, Avro, the
  environment parser, Prometheus, net/http), which are parameters with their documented behaviour as
  locale assumptions; the durations that metrics observe; database columns the service never reads
  (\<open>processed_at\<close>, \<open>updated_at\<close>) and indexes; the deployment files. The pipeline looks a
  schema up in one step; that concurrent lookups answer with the same schemas is C20.
\<close>

section \<open>The service as a whole\<close>

text \<open>
  C1. No event is lost between the committed cursor and the work: take any history of the service
  (any interleaving of its goroutines, any failure or lost reply of the database, Kafka, Redis and
  the stream, any number of crashes and restarts). If a topic's committed cursor was at position
  \<open>k\<close> of its event log at the start, then it is now at some position \<open>p \<ge> k\<close>, and every event
  between the two is finished (stored and, with Kafka enabled, forwarded), or its payload does
  not decode against a schema of its schema ID.
\<close>

theorem no_event_skipped:
  assumes "wired insert_event select_replay upsert_replay exists_key set_key produce_sync meter view
      subscribe send src topics lg"
    and "service
      (app_deps lg select_replay upsert_replay subscribe send meter src parse unmarshal
         (root_handler marshal marshal_env insert_event exists_key set_key produce_sync meter cfg) flow)
      topics batchSize n w0 s"
    and "cache_sound cfg (view w0)" "topic \<in> set topics"
    and "at_pos (lg topic) (sv_replay (view w0) topic) k"
  shows "\<exists>p \<ge> k. at_pos (lg topic) (sv_replay (view (p_world s)) topic) p \<and>
    (\<forall>i. k \<le> i \<longrightarrow> i < p \<longrightarrow>
       event_finished cfg (GetId (GetEvent (lg topic ! i))) (view (p_world s)) \<or>
       (\<exists>sch err. schema_for src parse (GetSchemaId (GetEvent (lg topic ! i))) sch \<and>
          Decode unmarshal (Some sch) (GetPayload (GetEvent (lg topic ! i))) = Inl err))"
proof -
  note P = wired.is_pipeline [OF assms(1), of parse unmarshal marshal marshal_env cfg flow]
  show ?thesis
    using pipeline.service_settled [OF P assms(2,3,4)] assms(5)
    by (simp add: pipeline.settled_def [OF P] pipeline.undecodable_def [OF P])
qed

theorem no_event_skipped_witness:
  "\<exists>s :: (env, string, bytes) pipe. service demo_deps [''/event/A''] 100 1 demo_env s \<and>
     sv_replay (ev_view (p_world s)) ''/event/A'' = Some [2] \<and>
     event_finished demo_config ''e2'' (ev_view (p_world s))"
proof -
  obtain s :: "(env, string, bytes) pipe" where run: "demo_service s"
    and cur: "sv_replay (ev_view (p_world s)) ''/event/A'' = Some [2]" using demo_committed by blast
  have "cache_sound demo_config (ev_view demo_env)" by (simp add: cache_sound_def demo_config_def)
  moreover have "at_pos (demo_log ''/event/A'') (sv_replay (ev_view demo_env) ''/event/A'') 1"
    by (simp add: at_pos_def demo_log_def demo_event_def demo_env_def GetReplayId_def)
  ultimately obtain p where p: "1 \<le> p" "at_pos (demo_log ''/event/A'') (Some [2]) p"
    and fin: "\<forall>i. 1 \<le> i \<longrightarrow> i < p \<longrightarrow>
       event_finished demo_config (GetId (GetEvent (demo_log ''/event/A'' ! i))) (ev_view (p_world s)) \<or>
       (\<exists>sch err. schema_for (env_schema [''s1'' \<mapsto> ''{}'']) Inr (GetSchemaId (GetEvent (demo_log ''/event/A'' ! i))) sch \<and>
          Decode (\<lambda>sch bs. Inr [(''f'', bs)]) (Some sch) (GetPayload (GetEvent (demo_log ''/event/A'' ! i))) = Inl err)"
    using no_event_skipped [OF demo.wired_axioms run, of "''/event/A''" 1] cur by auto
  have "at_pos (demo_log ''/event/A'') (Some [2]) 2"
    by (simp add: at_pos_def demo_log_def demo_event_def GetReplayId_def)
  then have "p = 2" using at_pos_unique [OF demo_log_ok p(2)] by blast
  then have "event_finished demo_config ''e2'' (ev_view (p_world s))"
    using fin by (auto simp: demo_log_def demo_event_def Decode_def getter_defs)
  with run cur show ?thesis by blast
qed

text \<open>
  C2. A topic's committed cursor never moves backwards, at any step of any history of the service.
\<close>

theorem cursor_never_regresses:
  assumes "wired insert_event select_replay upsert_replay exists_key set_key produce_sync meter view
      subscribe send src topics lg"
    and "d = app_deps lg select_replay upsert_replay subscribe send meter src parse unmarshal
         (root_handler marshal marshal_env insert_event exists_key set_key produce_sync meter cfg) flow"
    and "service d topics batchSize n w0 s" "pipe_step d s s'"
    and "cache_sound cfg (view w0)" "topic \<in> set topics"
    and "at_pos (lg topic) (sv_replay (view (p_world s)) topic) p"
  shows "\<exists>p' \<ge> p. at_pos (lg topic) (sv_replay (view (p_world s')) topic) p'"
proof -
  note P = wired.is_pipeline [OF assms(1), of parse unmarshal marshal marshal_env cfg flow, folded assms(2)]
  obtain B where "pipeline.run_inv d topics (\<lambda>w. cache_sound cfg (view w)) (\<lambda>w. sv_replay (view w))
      (\<lambda>i w. event_finished cfg i (view w)) (schema_for src parse) (cache_ok src parse) B
      (lanes s) (in_flight s) (p_cursor s) (p_pending s) (p_cache s) (p_world s)"
    using pipeline.service_inv [OF P assms(3,5)] by blast
  from pipeline.step_forward [OF P assms(4) this assms(6)] assms(2,7) show ?thesis by simp
qed

theorem cursor_never_regresses_witness:
  "\<exists>(s :: (env, string, bytes) pipe) s' p'. pipe_step demo_deps s s' \<and>
     at_pos (demo_log ''/event/A'') (sv_replay (ev_view (p_world s)) ''/event/A'') 1 \<and> 1 \<le> p' \<and>
     at_pos (demo_log ''/event/A'') (sv_replay (ev_view (p_world s')) ''/event/A'') p'"
proof -
  obtain s s' :: "(env, string, bytes) pipe" where run: "demo_service s" and step: "pipe_step demo_deps s s'"
    and cur: "sv_replay (ev_view (p_world s)) ''/event/A'' = Some [1]" using demo_commit_step by blast
  have cs: "cache_sound demo_config (ev_view demo_env)" by (simp add: cache_sound_def demo_config_def)
  have pos: "at_pos (demo_log ''/event/A'') (sv_replay (ev_view (p_world s)) ''/event/A'') 1"
    by (simp add: at_pos_def demo_log_def demo_event_def cur GetReplayId_def)
  obtain p' where "1 \<le> p'" "at_pos (demo_log ''/event/A'') (sv_replay (ev_view (p_world s')) ''/event/A'') p'"
    using cursor_never_regresses [OF demo.wired_axioms refl run step cs _ pos] by auto
  with step pos show ?thesis by blast
qed

text \<open>
  C5. A shutdown loses no finished work: once the pool's goroutine has returned and its final flush
  reported no error, every worker has left and the committed cursor of each topic stands exactly at
  its low-water mark. It has moved by as many positions as the mark, each of those events is finished
  (or its payload does not decode), and the event after the cursor is not finished.
\<close>

theorem final_flush_commits_all:
  assumes "wired insert_event select_replay upsert_replay exists_key set_key produce_sync meter view
      subscribe send src topics lg"
    and "app_runs
      (app_deps lg select_replay upsert_replay subscribe send meter src parse unmarshal
         (root_handler marshal marshal_env insert_event exists_key set_key produce_sync meter cfg) flow)
      topics batchSize n w0 s g"
    and "cache_sound cfg (view w0)" "g_pool g = PoolReturned None" "topic \<in> set topics"
    and "at_pos (lg topic) (sv_replay (view w0) topic) k"
    and "t = cursor_of (p_cursor s) topic" "p = k + (unat (tc_next t) - 1)"
  shows "set (p_workers s) \<subseteq> {Exited} \<and> at_pos (lg topic) (sv_replay (view (p_world s)) topic) p \<and>
    tc_done t (tc_next t) = None \<and>
    (\<forall>i. k \<le> i \<longrightarrow> i < p \<longrightarrow>
       event_finished cfg (GetId (GetEvent (lg topic ! i))) (view (p_world s)) \<or>
       (\<exists>sch err. schema_for src parse (GetSchemaId (GetEvent (lg topic ! i))) sch \<and>
          Decode unmarshal (Some sch) (GetPayload (GetEvent (lg topic ! i))) = Inl err))"
proof (intro conjI allI impI)
  note P = wired.is_pipeline [OF assms(1), of parse unmarshal marshal marshal_env cfg flow]
  show "set (p_workers s) \<subseteq> {Exited}" using app_runs_life [OF assms(2)] assms(4) by (simp add: life_inv_def)
  show "at_pos (lg topic) (sv_replay (view (p_world s)) topic) p"
    using pipeline.final_cursor [OF P assms(2-5)] assms(6-8) by simp
  show "tc_done t (tc_next t) = None"
    using pipeline.mark_is_gap [OF P pipeline.app_invariants(1) [OF P assms(2,3)], of topic] assms(7) by simp
  fix i assume "k \<le> i" "i < p"
  then show "event_finished cfg (GetId (GetEvent (lg topic ! i))) (view (p_world s)) \<or>
       (\<exists>sch err. schema_for src parse (GetSchemaId (GetEvent (lg topic ! i))) sch \<and>
          Decode unmarshal (Some sch) (GetPayload (GetEvent (lg topic ! i))) = Inl err)"
    using pipeline.final_settled [OF P assms(2,3,5), of k i] assms(6-8)
    by (simp add: pipeline.settled_def [OF P] pipeline.undecodable_def [OF P])
qed

theorem final_flush_commits_all_witness:
  "\<exists>(s :: (env, string, bytes) pipe) g. app_runs demo_deps [''/event/A''] 100 1 demo_env s g \<and>
     g_pool g = PoolReturned None \<and> set (p_workers s) \<subseteq> {Exited} \<and>
     at_pos (demo_log ''/event/A'') (sv_replay (ev_view (p_world s)) ''/event/A'') 2"
proof -
  obtain s :: "(env, string, bytes) pipe" and g where run: "app_runs demo_deps [''/event/A''] 100 1 demo_env s g"
    and pool: "g_pool g = PoolReturned None" and mark: "tc_next (cursor_of (p_cursor s) ''/event/A'') = 2"
    using demo_stop by blast
  have cs: "cache_sound demo_config (ev_view demo_env)" by (simp add: cache_sound_def demo_config_def)
  have k: "at_pos (demo_log ''/event/A'') (sv_replay (ev_view demo_env) ''/event/A'') 1"
    by (simp add: at_pos_def demo_log_def demo_event_def demo_env_def GetReplayId_def)
  have T: "''/event/A'' \<in> set [''/event/A'']" by simp
  have p: "2 = 1 + (unat (tc_next (cursor_of (p_cursor s) ''/event/A'')) - 1)" by (simp add: mark)
  note final_flush_commits_all [OF demo.wired_axioms run cs pool T k refl p]
  from conjunct1 [OF this] conjunct1 [OF conjunct2 [OF this]] run pool show ?thesis by (intro exI conjI)
qed

text \<open>
  C14. Where a stream resumes. A reconnect asks for the events after the last one this process sent
  on, without reading the database. A first stream asks for the events after the committed cursor.
  Only when the topic has no committed cursor does it ask for LATEST; a database error is an error
  of the stream, never a silent LATEST. (So a process that dies before its first commit of a topic
  leaves no cursor, and the next one starts at LATEST.)
\<close>

theorem stream_resumes_after_cursor:
  assumes "services insert_event select_replay upsert_replay exists_key set_key produce_sync meter view"
    and "initialFetch (LoadReplay select_replay) s w = (r, w')"
  shows "view w' = view w \<and>
    (\<forall>req. r = Inr req \<longrightarrow>
       fr_TopicName req = s_topic s \<and> fr_NumRequested req = s_batchSize s \<and>
       fr_ReplayId req = (if s_lastReplayID s \<noteq> None then s_lastReplayID s else sv_replay (view w) (s_topic s)) \<and>
       fr_ReplayPreset req = (if fr_ReplayId req = None then LATEST else CUSTOM)) \<and>
    (s_lastReplayID s \<noteq> None \<longrightarrow> w' = w \<and> (\<exists>req. r = Inr req)) \<and>
    (\<forall>err. r = Inl err \<longrightarrow> (\<exists>e. LoadReplay select_replay (s_topic s) w = (Inl e, w')))"
  using assms(2) services.LoadReplay_ok [OF assms(1)] services.LoadReplay_view [OF assms(1)]
  by (auto simp: initialFetch_def Let_def split: result_splits)

theorem stream_resumes_after_cursor_witness:
  "\<exists>req w'. initialFetch (LoadReplay env_select_replay) (NewSubscriber ''/event/A'' 10) demo_env = (Inr req, w') \<and>
     fr_ReplayId req = Some [1] \<and> fr_ReplayPreset req = CUSTOM"
proof -
  obtain req w' where run: "initialFetch (LoadReplay env_select_replay) (NewSubscriber ''/event/A'' 10) demo_env = (Inr req, w')"
    by (simp add: initialFetch_def NewSubscriber_def demo_simps demo_env_def Let_def)
  have "sv_replay (ev_view demo_env) ''/event/A'' = Some [1]" by (simp add: demo_env_def)
  with stream_resumes_after_cursor [OF env.services_axioms run] run show ?thesis
    by (simp add: NewSubscriber_def)
qed

text \<open>
  C21. What the process holds matches what the server sent, across reconnects: an event in flight
  with sequence number \<open>m\<close> is the \<open>m\<close>-th event after the point where the topic's numbering began
  (\<open>t_base\<close>), and \<open>m\<close> is a number the subscriber has handed out. So no reconnect skips an event or
  delivers one twice under two numbers.
\<close>

theorem in_flight_events_follow_log:
  assumes "wired insert_event select_replay upsert_replay exists_key set_key produce_sync meter view
      subscribe send src topics lg"
    and "service
      (app_deps lg select_replay upsert_replay subscribe send meter src parse unmarshal
         (root_handler marshal marshal_env insert_event exists_key set_key produce_sync meter cfg) flow)
      topics batchSize n w0 s"
    and "cache_sound cfg (view w0)"
    and "t \<in> set (p_subs s)" "r \<in> in_flight s" "re_Topic r = s_topic (t_sub t)"
  shows "0 < unat (re_Seq r) \<and> unat (re_Seq r) \<le> unat (s_seq (t_sub t)) \<and>
    t_base t + unat (s_seq (t_sub t)) \<le> length (lg (s_topic (t_sub t))) \<and>
    re_Event r = lg (s_topic (t_sub t)) ! (t_base t + unat (re_Seq r) - 1)"
proof -
  note P = wired.is_pipeline [OF assms(1), of parse unmarshal marshal marshal_env cfg flow]
  obtain B where inv: "pipeline.run_inv (app_deps lg select_replay upsert_replay subscribe send meter src parse unmarshal
         (root_handler marshal marshal_env insert_event exists_key set_key produce_sync meter cfg) flow)
      topics (\<lambda>w. cache_sound cfg (view w)) (\<lambda>w. sv_replay (view w))
      (\<lambda>i w. event_finished cfg i (view w)) (schema_for src parse) (cache_ok src parse) B
      (lanes s) (in_flight s) (p_cursor s) (p_pending s) (p_cache s) (p_world s)"
    using pipeline.service_inv [OF P assms(2,3)] by blast
  have "lane_of t \<in> set (lanes s)" using assms(4) by simp
  with inv assms(5,6) show ?thesis
    unfolding pipeline.run_inv_def [OF P] pipeline.work_inv_def [OF P] pipeline.lane_ok_def [OF P]
      pipeline.carried_def [OF P]
    by (fastforce split: if_splits)
qed

theorem in_flight_events_follow_log_witness:
  "\<exists>s :: (env, string, bytes) pipe. service demo_deps [''/event/A''] 100 1 demo_env s \<and>
     (\<exists>r \<in> in_flight s. \<exists>t \<in> set (p_subs s). re_Topic r = s_topic (t_sub t) \<and>
        re_Event r = demo_log ''/event/A'' ! (t_base t + unat (re_Seq r) - 1))"
proof -
  obtain m ca where run: "demo_service (demo_state (demo_task [] 1 (Some [2]) 0 (Some 2) FanWaiting 1) []
      (Handling demo_raw [(''f'', [2])]) NewCommitter None ca (demo_world m (demo_view [] [1]) 1))"
    using demo_handling by blast
  let ?t = "demo_task [] 1 (Some [2]) 0 (Some 2) FanWaiting 1"
  let ?s = "demo_state ?t [] (Handling demo_raw [(''f'', [2])]) NewCommitter None ca (demo_world m (demo_view [] [1]) 1)"
  have r: "demo_raw \<in> in_flight ?s" and t: "?t \<in> set (p_subs ?s)" by (simp_all add: in_flight_def demo_state_def)
  have cs: "cache_sound demo_config (ev_view demo_env)" by (simp add: cache_sound_def demo_config_def)
  have topic: "re_Topic demo_raw = s_topic (t_sub ?t)" by (simp add: demo_raw_def demo_task_def)
  have "re_Event demo_raw = demo_log ''/event/A'' ! (t_base ?t + unat (re_Seq demo_raw) - 1)"
    using in_flight_events_follow_log [OF demo.wired_axioms run cs t r topic] by (simp add: demo_task_def)
  with run r t topic show ?thesis by blast
qed



text \<open>A subscriber of another topic than the acknowledged event's is left alone.\<close>

lemma ack_first_other: "j < length ts \<Longrightarrow> s_topic (t_sub (ts ! j)) \<noteq> t \<Longrightarrow> ack_first t ts ! j = ts ! j"
proof (induction ts arbitrary: j)
  case (Cons x ts)
  then show ?case by (cases j) auto
qed simp

text \<open>
  C38. Listing a topic twice is accepted and starves: \<open>Validate\<close> does not look for duplicates, and of two
  subscribers of one topic only the first gets flow-control slots back. \<open>App.ack\<close> never changes the
  second, so its stream stops after its first batch.
\<close>

theorem duplicate_topic_starves:
  assumes "Validate url_Parse print_duration cfg = None" "ps_Topics (cf_PubSub cfg) = [topic]"
    and "i < j" "j < length (p_subs s)" "s_topic (t_sub (p_subs s ! i)) = s_topic (t_sub (p_subs s ! j))"
  shows "Validate url_Parse print_duration (cfg\<lparr>cf_PubSub := (cf_PubSub cfg)\<lparr>ps_Topics := [topic, topic]\<rparr>\<rparr>) = None \<and>
    p_subs (App_ack e s) ! j = p_subs s ! j"
proof
  show "Validate url_Parse print_duration (cfg\<lparr>cf_PubSub := (cf_PubSub cfg)\<lparr>ps_Topics := [topic, topic]\<rparr>\<rparr>) = None"
    using assms(1,2) by (simp add: Validate_None valid_config_def)
  have "ack_first t ts ! j = ts ! j" if "i < j" "j < length ts" "s_topic (t_sub (ts ! i)) = s_topic (t_sub (ts ! j))" for t ts
    using that
  proof (induction ts arbitrary: i j)
    case (Cons x ts)
    show ?case
    proof (cases i)
      case 0
      then show ?thesis using Cons.prems by (cases "s_topic (t_sub x) = t") (auto simp: nth_Cons' ack_first_other)
    next
      case (Suc i')
      then show ?thesis using Cons.prems Cons.IH [of i' "j - 1"] by (cases j) auto
    qed
  qed simp
  then show "p_subs (App_ack e s) ! j = p_subs s ! j" using assms(3-5) by (simp add: App_ack_def)
qed

theorem duplicate_topic_starves_witness:
  "let s = boot [''/event/A'', ''/event/A''] 100 1 demo_env :: (env, string, bytes) pipe
   in p_subs (App_ack demo_raw s) ! 1 = p_subs s ! 1"
proof -
  let ?s = "boot [''/event/A'', ''/event/A''] 100 1 demo_env :: (env, string, bytes) pipe"
  let ?cfg = "default_config ''id'' ''secret'' [''/event/A''] ''dsn''"
  have "host_port ''api.pubsub.salesforce.com:7443''"
    using SplitHostPort_plain [of "''api.pubsub.salesforce.com''" "''7443''"] by (simp add: host_port_iff plain_part_def)
  then have "Validate (\<lambda>u. Inr (''https'', ''login.salesforce.com'')) (\<lambda>d. []) ?cfg = None"
    by (simp add: Validate_None valid_config_def default_config_def absolute_url_def valid_redis_def valid_kafka_def)
  from duplicate_topic_starves [OF this, of "''/event/A''" 0 1 ?s demo_raw] show ?thesis
    by (simp add: default_config_def boot_def new_task_def)
qed

end
